(* ===== verification/Prelude.thy ===== *)
theory Prelude
  imports Main "HOL-Library.Word" "HOL-Library.Monad_Syntax"
begin

text \<open>
  Shared vocabulary of the development.

  \<^item> Rust's panics are the value \<open>None\<close> of an outer \<open>option\<close>; a \<open>Result\<close> is the sum type
    \<open>'e + 'a\<close> with \<open>Inl\<close> the error; a Rust \<open>Option\<close> that is not a panic is an inner \<open>option\<close>.
  \<^item> \<open>usize\<close> values are natural numbers; where the code uses \<open>checked_add\<close> the bound
    \<open>usize_max\<close> is written out.
  \<^item> A byte slice over shared memory is an \<open>arena\<close>: a length and a content function.
    Slicing out of range is a panic (\<open>arena_put\<close>) or the \<open>None\<close> of \<open>get\<close> (\<open>arena_get\<close>).
  \<^item> Integers stored in memory use the native order of the supported targets, little endian.
\<close>

unbundle bit_operations_syntax

named_theorems arena_simps \<open>reading and framing of byte arenas\<close>
named_theorems vec_simps \<open>indexed access to vectors\<close>

type_synonym byte = "8 word"

definition usize_max :: nat where
  "usize_max = 2 ^ 64 - 1"

definition checked_add :: "nat \<Rightarrow> nat \<Rightarrow> nat option" where
  "checked_add a b = (if a + b \<le> usize_max then Some (a + b) else None)"

definition checked_mul :: "nat \<Rightarrow> nat \<Rightarrow> nat option" where
  "checked_mul a b = (if a * b \<le> usize_max then Some (a * b) else None)"

definition checked_sub :: "nat \<Rightarrow> nat \<Rightarrow> nat option" where
  "checked_sub a b = (if b \<le> a then Some (a - b) else None)"

lemma checked_add_Some_iff [simp]: "checked_add a b = Some c \<longleftrightarrow> c = a + b \<and> a + b \<le> usize_max"
  by (auto simp: checked_add_def)

lemma checked_mul_Some_iff [simp]: "checked_mul a b = Some c \<longleftrightarrow> c = a * b \<and> a * b \<le> usize_max"
  by (auto simp: checked_mul_def)

lemma checked_sub_Some_iff [simp]: "checked_sub a b = Some c \<longleftrightarrow> c = a - b \<and> b \<le> a"
  by (auto simp: checked_sub_def)

section \<open>Bit counting on machine integers\<close>

text \<open>
  \<open>bit_length n\<close> is \<open>usize::BITS - n.leading_zeros()\<close>; the other two are the standard library's
  \<open>trailing_zeros\<close> and \<open>count_ones\<close> on a 64-bit value.
\<close>

fun bit_length :: "nat \<Rightarrow> nat" where
  "bit_length n = (if n = 0 then 0 else Suc (bit_length (n div 2)))"

fun trailing_zeros :: "nat \<Rightarrow> nat" where
  "trailing_zeros n = (if n = 0 then 64 else if odd n then 0 else Suc (trailing_zeros (n div 2)))"

fun count_ones :: "nat \<Rightarrow> nat" where
  "count_ones n = (if n = 0 then 0 else n mod 2 + count_ones (n div 2))"

definition is_power_of_two :: "nat \<Rightarrow> bool" where
  "is_power_of_two n \<longleftrightarrow> count_ones n = 1"

declare bit_length.simps [simp del] trailing_zeros.simps [simp del] count_ones.simps [simp del]

lemma count_ones_eq_0_iff [simp]: "count_ones n = 0 \<longleftrightarrow> n = 0"
proof (induction n rule: count_ones.induct)
  case (1 n)
  then show ?case
    by (subst count_ones.simps) (auto elim: oddE)
qed

lemma count_ones_power [simp]: "count_ones (2 ^ k) = 1"
  by (induction k) (simp_all add: count_ones.simps)

lemma is_power_of_two_iff: "is_power_of_two n \<longleftrightarrow> (\<exists>k. n = 2 ^ k)"
proof
  show "\<exists>k. n = 2 ^ k" if "is_power_of_two n"
    using that unfolding is_power_of_two_def
  proof (induction n rule: count_ones.induct)
    case (1 n)
    show ?case
    proof (cases "odd n")
      case True
      with 1 have "count_ones (n div 2) = 0" by (simp add: count_ones.simps [of n] odd_iff_mod_2_eq_one split: if_splits)
      with True have "n = 2 ^ 0" by (auto elim: oddE)
      then show ?thesis ..
    next
      case False
      with 1 have "n \<noteq> 0" "count_ones (n div 2) = 1"
        by (auto simp: count_ones.simps [of n] even_iff_mod_2_eq_zero split: if_splits)
      with 1 obtain k where "n div 2 = 2 ^ k" by blast
      with False have "n = 2 ^ Suc k" by auto
      then show ?thesis ..
    qed
  qed
  show "is_power_of_two n" if "\<exists>k. n = 2 ^ k"
    using that by (auto simp: is_power_of_two_def)
qed

lemma trailing_zeros_power [simp]: "trailing_zeros (2 ^ k) = k"
  by (induction k) (simp_all add: trailing_zeros.simps)

lemma bit_length_le_iff: "bit_length n \<le> k \<longleftrightarrow> n < 2 ^ k"
proof (induction n arbitrary: k rule: bit_length.induct)
  case (1 n)
  show ?case
  proof (cases "n = 0")
    case False
    show ?thesis
    proof (cases k)
      case (Suc j)
      have "bit_length n \<le> k \<longleftrightarrow> bit_length (n div 2) \<le> j"
        using False Suc by (simp add: bit_length.simps [of n])
      also have "\<dots> \<longleftrightarrow> n div 2 < 2 ^ j" by (rule 1) fact
      also have "\<dots> \<longleftrightarrow> n < 2 ^ k" using Suc by (simp add: div_less_iff_less_mult mult.commute)
      finally show ?thesis .
    qed (use False in \<open>simp add: bit_length.simps [of n]\<close>)
  qed (simp add: bit_length.simps)
qed

text \<open>Masking with one less than a power of two tests alignment; flipping one bit of an aligned
  offset moves to its buddy.\<close>

lemma and_mask_eq_0_iff: "(x :: nat) AND (2 ^ k - 1) = 0 \<longleftrightarrow> 2 ^ k dvd x"
proof -
  have "x AND (2 ^ k - 1) = take_bit k x"
    by (simp add: take_bit_eq_mask mask_eq_exp_minus_1)
  then show ?thesis by (simp add: take_bit_eq_mod dvd_eq_mod_eq_0)
qed

lemma xor_pow2_aligned:
  assumes "2 ^ k dvd (l :: nat)"
  shows "l XOR 2 ^ k = (if 2 ^ Suc k dvd l then l + 2 ^ k else l - 2 ^ k)"
proof -
  obtain q where l: "l = push_bit k q"
    using assms by (auto simp: push_bit_eq_mult mult.commute elim: dvdE)
  have "l XOR 2 ^ k = push_bit k (q XOR 1)"
    by (simp add: l push_bit_xor push_bit_eq_mult [of k "1 :: nat"])
  also have "q XOR 1 = (if even q then q + 1 else q - 1)"
    by (simp add: xor_Suc_0_eq)
  finally show ?thesis
    by (auto simp: l push_bit_eq_mult algebra_simps)
qed

section \<open>Vectors\<close>

text \<open>Indexing, replacing, pushing onto and popping from an element of a vector of vectors; an index
  out of range panics.\<close>

definition vec_get :: "'a list \<Rightarrow> nat \<Rightarrow> 'a option" where
  "vec_get xs i = (if i < length xs then Some (xs ! i) else None)"

definition vec_set :: "'a list \<Rightarrow> nat \<Rightarrow> 'a \<Rightarrow> 'a list option" where
  "vec_set xs i x = (if i < length xs then Some (xs[i := x]) else None)"

definition vec_push_at :: "'a list list \<Rightarrow> nat \<Rightarrow> 'a \<Rightarrow> 'a list list option" where
  "vec_push_at xss i x = (if i < length xss then Some (xss[i := xss ! i @ [x]]) else None)"

definition vec_pop :: "'a list \<Rightarrow> 'a list \<times> 'a option" where
  "vec_pop xs = (if xs = [] then ([], None) else (butlast xs, Some (last xs)))"

lemma vec_get_Some [vec_simps]: "vec_get xs i = Some x \<longleftrightarrow> i < length xs \<and> x = xs ! i"
  by (auto simp: vec_get_def)

lemma vec_set_Some [vec_simps]: "vec_set xs i x = Some ys \<longleftrightarrow> i < length xs \<and> ys = xs[i := x]"
  by (auto simp: vec_set_def)

lemma vec_push_at_Some [vec_simps]:
  "vec_push_at xss i x = Some yss \<longleftrightarrow> i < length xss \<and> yss = xss[i := xss ! i @ [x]]"
  by (auto simp: vec_push_at_def)

lemma map_upt_nth: "map (\<lambda>k. f (xs ! k)) [0..<length xs] = map f xs"
  by (rule nth_equalityI) auto

text \<open>\<open>(0..end).step_by(step)\<close>\<close>

definition step_by :: "nat \<Rightarrow> nat \<Rightarrow> nat list" where
  "step_by limit step = map (\<lambda>i. i * step) [0..<(limit + step - 1) div step]"

lemma step_by_multiple: "0 < step \<Longrightarrow> step_by (q * step) step = map (\<lambda>i. i * step) [0..<q]"
proof -
  assume "0 < step"
  then have "(q * step + step - 1) div step = q"
    using div_mult_self3 [of step q "step - 1"] by (simp add: algebra_simps)
  then show ?thesis by (simp add: step_by_def)
qed

section \<open>Integers in memory\<close>

lemma unat_byte_less: "unat (b :: byte) < 256"
  by (rule order_less_le_trans [OF unsigned_less]) simp

primrec le_bytes :: "nat \<Rightarrow> nat \<Rightarrow> byte list" where
  "le_bytes 0 v = []"
| "le_bytes (Suc k) v = of_nat v # le_bytes k (v div 256)"

primrec le_nat :: "byte list \<Rightarrow> nat" where
  "le_nat [] = 0"
| "le_nat (b # bs) = unat b + 256 * le_nat bs"

lemma length_le_bytes [simp]: "length (le_bytes k v) = k"
  by (induction k arbitrary: v) simp_all

lemma le_nat_le_bytes [simp]: "le_nat (le_bytes k v) = v mod 256 ^ k"
proof (induction k arbitrary: v)
  case (Suc k)
  have "le_nat (le_bytes (Suc k) v) = v mod 256 + 256 * (v div 256 mod 256 ^ k)"
    by (simp add: Suc unat_of_nat)
  also have "\<dots> = v mod 256 ^ Suc k"
    using mod_mult2_eq [of v 256 "256 ^ k"] by simp
  finally show ?case .
qed simp

lemma le_nat_less: "le_nat bs < 256 ^ length bs"
proof (induction bs)
  case (Cons b bs)
  have "unat b < 256" by (rule unat_byte_less)
  with Cons show ?case by simp
qed simp

lemma le_bytes_le_nat: "le_bytes (length bs) (le_nat bs) = bs"
proof (induction bs)
  case (Cons b bs)
  have "unat b < 256" by (rule unat_byte_less)
  then have "(unat b + 256 * le_nat bs) div 256 = le_nat bs" by simp
  moreover have "(of_nat (unat b + 256 * le_nat bs) :: byte) = b"
  proof -
    have "(of_nat (256 * le_nat bs) :: byte) = 0"
      by (simp add: word_of_nat_eq_0_iff del: of_nat_mult)
    then show ?thesis by (simp only: of_nat_add) simp
  qed
  ultimately show ?case using Cons by simp
qed simp

text \<open>Two's complement reading of a 64-bit pattern and its inverse.\<close>

definition i64_of :: "nat \<Rightarrow> int" where
  "i64_of n = (if n < 2 ^ 63 then int n else int n - 2 ^ 64)"

definition i64_bits :: "int \<Rightarrow> nat" where
  "i64_bits z = nat (z mod 2 ^ 64)"

lemma i64_of_bits: "- (2 ^ 63) \<le> z \<Longrightarrow> z < 2 ^ 63 \<Longrightarrow> i64_of (i64_bits z) = z"
proof -
  assume b: "- (2 ^ 63) \<le> z" "z < 2 ^ 63"
  show ?thesis
  proof (cases "0 \<le> z")
    case True
    with b show ?thesis by (simp add: i64_of_def i64_bits_def)
  next
    case False
    then have "z mod 2 ^ 64 = (z + 2 ^ 64) mod 2 ^ 64" by simp
    also have "\<dots> = z + 2 ^ 64" using False b by (intro mod_pos_pos_trivial) auto
    finally show ?thesis using False b by (simp add: i64_of_def i64_bits_def)
  qed
qed

lemma i64_bits_less: "i64_bits z < 2 ^ 64"
  by (simp add: i64_bits_def nat_less_iff)

text \<open>A fallible call that passes an error on.\<close>

lemma case_sum_Inr:
  "(case s of Inl e \<Rightarrow> Some (Inl (F e)) | Inr a \<Rightarrow> f a) = Some (Inr r) \<longleftrightarrow> (\<exists>a. s = Inr a \<and> f a = Some (Inr r))"
  by (cases s) auto

section \<open>Byte arenas\<close>

record arena =
  alen :: nat
  abytes :: "nat \<Rightarrow> byte"

text \<open>\<open>arena.get(s..e)\<close>, the indexed write \<open>arena[s..s + n].copy_from_slice(bs)\<close>, and the frame
  relation: outside \<open>S\<close> nothing changed.\<close>

definition arena_get :: "arena \<Rightarrow> nat \<Rightarrow> nat \<Rightarrow> byte list option" where
  "arena_get ar s e = (if s \<le> e \<and> e \<le> alen ar then Some (map (abytes ar) [s..<e]) else None)"

definition arena_put :: "arena \<Rightarrow> nat \<Rightarrow> byte list \<Rightarrow> arena option" where
  "arena_put ar s bs = (if s + length bs \<le> alen ar
     then Some (ar \<lparr> abytes := (\<lambda>i. if s \<le> i \<and> i < s + length bs then bs ! (i - s) else abytes ar i) \<rparr>)
     else None)"

definition same_outside :: "nat set \<Rightarrow> arena \<Rightarrow> arena \<Rightarrow> bool" where
  "same_outside S ar ar' \<longleftrightarrow> alen ar' = alen ar \<and> (\<forall>i. i \<notin> S \<longrightarrow> abytes ar' i = abytes ar i)"

lemma same_outside_refl [simp, intro]: "same_outside S ar ar"
  by (simp add: same_outside_def)

lemma same_outside_trans [trans]:
  "same_outside S a b \<Longrightarrow> same_outside S b c \<Longrightarrow> same_outside S a c"
  by (simp add: same_outside_def)

lemma same_outside_mono: "same_outside S a b \<Longrightarrow> S \<subseteq> T \<Longrightarrow> same_outside T a b"
  by (auto simp: same_outside_def)

lemma same_outside_alen: "same_outside S a b \<Longrightarrow> alen b = alen a"
  by (simp add: same_outside_def)

lemma same_outside_empty: "same_outside {} a b \<longleftrightarrow> b = a"
  by (cases a; cases b) (auto simp: same_outside_def)

lemma arena_get_frame [arena_simps]:
  "same_outside S ar ar' \<Longrightarrow> {s..<e} \<inter> S = {} \<Longrightarrow> arena_get ar' s e = arena_get ar s e"
  by (auto simp: same_outside_def arena_get_def)

lemma arena_put_ok: "s + length bs \<le> alen ar \<Longrightarrow> \<exists>ar'. arena_put ar s bs = Some ar'"
  by (simp add: arena_put_def)

lemma arena_put_frame:
  "arena_put ar s bs = Some ar' \<Longrightarrow> same_outside {s..<s + length bs} ar ar'"
  by (auto simp: arena_put_def same_outside_def split: if_splits)

lemma arena_get_put [arena_simps]:
  "arena_put ar s bs = Some ar' \<Longrightarrow> n = s + length bs \<Longrightarrow> arena_get ar' s n = Some bs"
  by (auto simp: arena_put_def arena_get_def split: if_splits intro!: nth_equalityI)

lemma arena_get_length: "arena_get ar s e = Some bs \<Longrightarrow> length bs = e - s"
  by (auto simp: arena_get_def split: if_splits)

end
