(* ===== verification/Block.thy ===== *)
theory Block
  imports Prelude
begin

text \<open>
  The vocabulary both region allocators share (\<open>src/v5/region.rs\<close>): the error type, the
  description of a block handed out and the eight-byte \<open>[MAGIC:4][order/len:4]\<close> block header.
\<close>

definition MAGIC :: nat where "MAGIC = 0x0BADF00D"
definition MAGIC_SIZE :: nat where "MAGIC_SIZE = 4"
definition ALLOCATOR_HEADER_SIZE :: nat where "ALLOCATOR_HEADER_SIZE = 8"

datatype error =
    InvalidArenaSize
  | BlockSizeNotPowerOfTwo
  | InvalidBlockSizeOrder
  | BlockTooSmallForHeader
  | InvalidSizeClassConfiguration
  | InvalidOffset
  | NotAllocated
  | CorruptMetadata

record allocation =
  block_offset :: nat
  data_offset :: nat
  al_len :: nat
  al_cap :: nat

text \<open>A \<open>u32\<close> header field is read as the number its four bytes encode; \<open>value as u32\<close> truncates,
  which is what writing four little-endian bytes does.\<close>

definition read_header :: "arena \<Rightarrow> nat \<Rightarrow> (nat \<times> nat) option" where
  "read_header ar off = do {
     e \<leftarrow> checked_add off ALLOCATOR_HEADER_SIZE;
     header \<leftarrow> arena_get ar off e;
     Some (le_nat (take MAGIC_SIZE header), le_nat (drop MAGIC_SIZE header))
   }"

definition write_header :: "arena \<Rightarrow> nat \<Rightarrow> nat \<Rightarrow> arena option" where
  "write_header ar off v = do {
     ar' \<leftarrow> arena_put ar off (le_bytes MAGIC_SIZE MAGIC);
     arena_put ar' (off + MAGIC_SIZE) (le_bytes (ALLOCATOR_HEADER_SIZE - MAGIC_SIZE) v)
   }"

definition clear_magic :: "arena \<Rightarrow> nat \<Rightarrow> arena option" where
  "clear_magic ar off = arena_put ar off (replicate MAGIC_SIZE 0)"

lemmas header_defs = MAGIC_def MAGIC_SIZE_def ALLOCATOR_HEADER_SIZE_def

section \<open>Block headers\<close>

lemma read_header_frame [arena_simps]:
  assumes "same_outside S ar ar'" and "{off..<off + 8} \<inter> S = {}"
  shows "read_header ar' off = read_header ar off"
proof (cases "off + 8 \<le> usize_max")
  case True
  then show ?thesis
    using arena_get_frame [OF assms] by (simp add: read_header_def header_defs checked_add_def)
qed (simp add: read_header_def header_defs checked_add_def)

lemma write_header_total:
  assumes "off + 8 \<le> alen ar"
  obtains ar' where "write_header ar off v = Some ar'"
proof -
  from assms obtain ar1 where 1: "arena_put ar off (le_bytes MAGIC_SIZE MAGIC) = Some ar1"
    using arena_put_ok [of off "le_bytes MAGIC_SIZE MAGIC" ar] by (auto simp: header_defs)
  then have "alen ar1 = alen ar" by (blast dest: arena_put_frame same_outside_alen)
  with assms 1 that show thesis
    using arena_put_ok [of "off + MAGIC_SIZE" "le_bytes (ALLOCATOR_HEADER_SIZE - MAGIC_SIZE) v" ar1]
    by (auto simp: write_header_def header_defs)
qed

lemma write_header_frame:
  assumes "write_header ar off v = Some ar'"
  shows "same_outside {off..<off + 8} ar ar'"
proof -
  from assms obtain ar1 where 1: "arena_put ar off (le_bytes 4 MAGIC) = Some ar1"
    and 2: "arena_put ar1 (off + 4) (le_bytes 4 v) = Some ar'"
    by (auto simp: write_header_def header_defs bind_eq_Some_conv)
  have "same_outside {off..<off + 8} ar ar1"
    by (rule same_outside_mono [OF arena_put_frame [OF 1]]) auto
  moreover have "same_outside {off..<off + 8} ar1 ar'"
    by (rule same_outside_mono [OF arena_put_frame [OF 2]]) auto
  ultimately show ?thesis by (rule same_outside_trans)
qed

lemma arena_get_split:
  assumes "s \<le> m" "m \<le> e" "arena_get ar s m = Some xs" "arena_get ar m e = Some ys"
  shows "arena_get ar s e = Some (xs @ ys)"
  using assms upt_add_eq_append [of s m "e - m"] by (auto simp: arena_get_def split: if_splits)

text \<open>What was stamped is read back, the metadata modulo \<open>2\<^sup>3\<^sup>2\<close>.\<close>

lemma read_write_header:
  assumes "write_header ar off v = Some ar'" and "alen ar \<le> usize_max"
  shows "read_header ar' off = Some (MAGIC, v mod 2 ^ 32)"
proof -
  from assms obtain ar1 where 1: "arena_put ar off (le_bytes 4 MAGIC) = Some ar1"
    and 2: "arena_put ar1 (off + 4) (le_bytes 4 v) = Some ar'"
    by (auto simp: write_header_def header_defs bind_eq_Some_conv)
  have "arena_get ar1 off (off + 4) = Some (le_bytes 4 MAGIC)"
    by (rule arena_get_put [OF 1]) simp
  then have a: "arena_get ar' off (off + 4) = Some (le_bytes 4 MAGIC)"
    using arena_get_frame [OF arena_put_frame [OF 2], of off "off + 4"] by simp
  have b: "arena_get ar' (off + 4) (off + 8) = Some (le_bytes 4 v)"
    by (rule arena_get_put [OF 2]) simp
  have "off + 8 \<le> alen ar'" using b by (simp add: arena_get_def split: if_splits)
  moreover have "alen ar' = alen ar"
    using write_header_frame [OF assms(1)] by (rule same_outside_alen)
  ultimately have "off + 8 \<le> usize_max" using assms(2) by simp
  moreover have "arena_get ar' off (off + 8) = Some (le_bytes 4 MAGIC @ le_bytes 4 v)"
    by (rule arena_get_split [OF _ _ a b]) simp_all
  ultimately show ?thesis
    by (simp add: read_header_def header_defs checked_add_def)
qed

lemma clear_magic_total:
  assumes "off + 8 \<le> alen ar"
  obtains ar' where "clear_magic ar off = Some ar'"
  using assms arena_put_ok [of off "replicate MAGIC_SIZE 0" ar] by (auto simp: clear_magic_def header_defs)

lemma clear_magic_frame:
  "clear_magic ar off = Some ar' \<Longrightarrow> same_outside {off..<off + 4} ar ar'"
  using arena_put_frame [of ar off "replicate 4 0"] by (auto simp: clear_magic_def header_defs)

lemma read_clear_magic:
  assumes "clear_magic ar off = Some ar'" and "read_header ar' off = Some (m, v)"
  shows "m = 0"
proof -
  have g: "arena_get ar' off (off + 4) = Some (replicate 4 0)"
    by (rule arena_get_put [of ar]) (use assms(1) in \<open>auto simp: clear_magic_def header_defs\<close>)
  from assms(2) have "m = le_nat (take 4 (map (abytes ar') [off..<off + 8]))"
    by (auto simp: read_header_def header_defs arena_get_def bind_eq_Some_conv split: if_splits)
  also have "take 4 (map (abytes ar') [off..<off + 8]) = map (abytes ar') [off..<off + 4]"
    by (simp add: take_map)
  also have "\<dots> = replicate 4 0" using g by (simp add: arena_get_def split: if_splits)
  finally show ?thesis by (simp add: numeral_eq_Suc)
qed

lemma read_header_less: "read_header ar off = Some (m, v) \<Longrightarrow> v < 2 ^ 32"
  using le_nat_less [of "drop 4 (map (abytes ar) [off..<off + 8])"]
  by (auto simp: read_header_def header_defs arena_get_def bind_eq_Some_conv split: if_splits)

end
