(* ===== verification/Allocator.thy ===== *)
theory Allocator
  imports Block
begin

text \<open>
  The \<open>Allocator\<close> trait of \<open>src/v5/region.rs\<close> as an interface. The ghost map \<open>L\<close> sends the data
  offset of every live block to its payload capacity; \<open>inv s ar L\<close> relates it to the allocator
  state and the arena bytes. \<open>client_run\<close> is what a client may do with an allocator: allocate,
  write inside a live payload, release a live block. The lemmas of the locale hold for every
  implementation; the buddy, fixed and region allocators interpret it.
\<close>

type_synonym live = "nat \<rightharpoonup> nat"

inductive client_run ::
  "('s \<Rightarrow> arena \<Rightarrow> nat \<Rightarrow> ('s \<times> arena \<times> allocation option) option) \<Rightarrow>
   ('s \<Rightarrow> arena \<Rightarrow> nat \<Rightarrow> ('s \<times> arena \<times> (error + unit)) option) \<Rightarrow>
   's \<Rightarrow> arena \<Rightarrow> 's \<Rightarrow> arena \<Rightarrow> live \<Rightarrow> bool"
  for alloc free_at s0 ar0 where
  start: "client_run alloc free_at s0 ar0 s0 ar0 Map.empty"
| hit: "client_run alloc free_at s0 ar0 s ar L \<Longrightarrow> alloc s ar n = Some (s', ar', Some a) \<Longrightarrow>
    client_run alloc free_at s0 ar0 s' ar' (L(data_offset a \<mapsto> al_cap a))"
| miss: "client_run alloc free_at s0 ar0 s ar L \<Longrightarrow> alloc s ar n = Some (s', ar', None) \<Longrightarrow>
    client_run alloc free_at s0 ar0 s' ar' L"
| fill: "client_run alloc free_at s0 ar0 s ar L \<Longrightarrow> L d = Some c \<Longrightarrow> d \<le> i \<Longrightarrow> i + length bs \<le> d + c \<Longrightarrow>
    arena_put ar i bs = Some ar' \<Longrightarrow> client_run alloc free_at s0 ar0 s ar' L"
| release: "client_run alloc free_at s0 ar0 s ar L \<Longrightarrow> L d = Some c \<Longrightarrow>
    free_at s ar d = Some (s', ar', r) \<Longrightarrow> client_run alloc free_at s0 ar0 s' ar' (L(d := None))"

text \<open>Live blocks, headers included, lie in the arena and do not overlap.\<close>

definition payloads :: "live \<Rightarrow> nat set" where
  "payloads L = (\<Union>d\<in>dom L. {d..<d + the (L d)})"

definition live_separate :: "nat \<Rightarrow> live \<Rightarrow> bool" where
  "live_separate N L \<longleftrightarrow>
     (\<forall>d c. L d = Some c \<longrightarrow> 8 \<le> d \<and> d + c \<le> N) \<and>
     (\<forall>d c d' c'. L d = Some c \<longrightarrow> L d' = Some c' \<longrightarrow> d \<noteq> d' \<longrightarrow>
        {d - 8..<d + c} \<inter> {d' - 8..<d' + c'} = {})"

lemma payloads_mem: "i \<in> payloads L \<longleftrightarrow> (\<exists>d c. L d = Some c \<and> d \<le> i \<and> i < d + c)"
  by (force simp: payloads_def)

locale allocator =
  fixes inv :: "'s \<Rightarrow> arena \<Rightarrow> live \<Rightarrow> bool"
    and alloc :: "'s \<Rightarrow> arena \<Rightarrow> nat \<Rightarrow> ('s \<times> arena \<times> allocation option) option"
    and free_at :: "'s \<Rightarrow> arena \<Rightarrow> nat \<Rightarrow> ('s \<times> arena \<times> (error + unit)) option"
    and is_valid_offset :: "'s \<Rightarrow> nat \<Rightarrow> bool"
    and reset :: "'s \<Rightarrow> arena \<Rightarrow> ('s \<times> arena \<times> (error + unit)) option"
    and max_allocation :: "'s \<Rightarrow> nat option"
    and same_cfg :: "'s \<Rightarrow> 's \<Rightarrow> bool"
  assumes separate: "inv s ar L \<Longrightarrow> live_separate (alen ar) L"
    and finite_live: "inv s ar L \<Longrightarrow> finite (dom L)"
    and live_valid: "inv s ar L \<Longrightarrow> L d = Some c \<Longrightarrow> is_valid_offset s d"
    and payload: "inv s ar L \<Longrightarrow> same_outside (payloads L) ar ar' \<Longrightarrow> inv s ar' L"
    and alloc_total: "inv s ar L \<Longrightarrow> \<exists>s' ar' r. alloc s ar n = Some (s', ar', r)"
    and alloc_none: "inv s ar L \<Longrightarrow> alloc s ar n = Some (s', ar', None) \<Longrightarrow>
      ar' = ar \<and> inv s' ar L \<and> same_cfg s s'"
    and alloc_some: "inv s ar L \<Longrightarrow> alloc s ar n = Some (s', ar', Some a) \<Longrightarrow>
      data_offset a = block_offset a + 8 \<and> al_len a = n \<and> n \<le> al_cap a \<and> L (data_offset a) = None \<and>
      inv s' ar' (L(data_offset a \<mapsto> al_cap a)) \<and> same_cfg s s' \<and>
      same_outside {block_offset a..<data_offset a} ar ar'"
    and alloc_too_big: "inv s ar L \<Longrightarrow> max_allocation s = Some m \<Longrightarrow> m < n \<Longrightarrow>
      alloc s ar n = Some (s, ar, None)"
    and max_allocation_total: "inv s ar L \<Longrightarrow> \<exists>m. max_allocation s = Some m"
    and free_at_live: "inv s ar L \<Longrightarrow> L d = Some c \<Longrightarrow>
      \<exists>s' ar'. free_at s ar d = Some (s', ar', Inr ()) \<and> inv s' ar' (L(d := None)) \<and> same_cfg s s' \<and>
        same_outside {d - 8..<d - 4} ar ar'"
    and reset_ok: "inv s ar L \<Longrightarrow>
      \<exists>s'. reset s ar = Some (s', ar, Inr ()) \<and> inv s' ar Map.empty \<and> same_cfg s s'"
    and same_cfg_refl: "same_cfg s s"
    and same_cfg_trans: "same_cfg s s' \<Longrightarrow> same_cfg s' s'' \<Longrightarrow> same_cfg s s''"
    and same_cfg_valid: "same_cfg s s' \<Longrightarrow> is_valid_offset s' = is_valid_offset s"
    and same_cfg_max: "same_cfg s s' \<Longrightarrow> max_allocation s' = max_allocation s"
begin

lemma bounds: "inv s ar L \<Longrightarrow> L d = Some c \<Longrightarrow> 8 \<le> d \<and> d + c \<le> alen ar"
  using separate by (auto simp: live_separate_def)

lemma disjoint: "inv s ar L \<Longrightarrow> L d = Some c \<Longrightarrow> L d' = Some c' \<Longrightarrow> d \<noteq> d' \<Longrightarrow>
    {d - 8..<d + c} \<inter> {d' - 8..<d' + c'} = {}"
  using separate unfolding live_separate_def by blast

text \<open>A write inside one live payload keeps the invariant.\<close>

lemma write_payload:
  assumes "inv s ar L" "L d = Some c" "d \<le> i" "i + length bs \<le> d + c" "arena_put ar i bs = Some ar'"
  shows "inv s ar' L"
proof (rule payload [OF assms(1)])
  show "same_outside (payloads L) ar ar'"
    by (rule same_outside_mono [OF arena_put_frame [OF assms(5)]])
      (use assms(2-4) in \<open>force simp: payloads_mem\<close>)
qed

text \<open>Whatever a client does, the invariant holds.\<close>

lemma run_inv:
  assumes "inv s0 ar0 Map.empty" "client_run alloc free_at s0 ar0 s ar L"
  shows "inv s ar L"
  using assms(2)
proof induction
  case (hit s ar L n s' ar' a)
  then show ?case using alloc_some by blast
next
  case (miss s ar L n s' ar')
  then show ?case using alloc_none by blast
next
  case (fill s ar L d c i bs ar')
  then show ?case using write_payload by blast
next
  case (release s ar L d c s' ar' r)
  then show ?case using free_at_live [of s ar L d c] by (auto simp del: fun_upd_apply)
qed (use assms(1) in simp)

lemma run_cfg:
  assumes "inv s0 ar0 Map.empty" "client_run alloc free_at s0 ar0 s ar L"
  shows "same_cfg s0 s"
  using assms(2)
proof induction
  case (hit s ar L n s' ar' a)
  then show ?case using alloc_some run_inv [OF assms(1)] same_cfg_trans by blast
next
  case (miss s ar L n s' ar')
  then show ?case using alloc_none run_inv [OF assms(1)] same_cfg_trans by blast
next
  case (release s ar L d c s' ar' r)
  then show ?case
    using free_at_live [of s ar L d c] run_inv [OF assms(1)] same_cfg_trans by fastforce
qed (auto intro: same_cfg_refl)

lemma run_alen:
  assumes "inv s0 ar0 Map.empty" "client_run alloc free_at s0 ar0 s ar L"
  shows "alen ar = alen ar0"
  using assms(2)
proof induction
  case (hit s ar L n s' ar' a)
  then show ?case using alloc_some run_inv [OF assms(1)] same_outside_alen by metis
next
  case (miss s ar L n s' ar')
  then show ?case using alloc_none run_inv [OF assms(1)] by blast
next
  case (fill s ar L d c i bs ar')
  then show ?case using arena_put_frame same_outside_alen by metis
next
  case (release s ar L d c s' ar' r)
  then show ?case
    using free_at_live [of s ar L d c] run_inv [OF assms(1)] same_outside_alen by fastforce
qed simp

lemma run_separate:
  "inv s0 ar0 Map.empty \<Longrightarrow> client_run alloc free_at s0 ar0 s ar L \<Longrightarrow> live_separate (alen ar) L"
  using run_inv separate by blast

lemma run_progress:
  assumes "inv s0 ar0 Map.empty" "client_run alloc free_at s0 ar0 s ar L"
  shows "\<exists>s' ar' r. alloc s ar n = Some (s', ar', r)"
    and "L d = Some c \<Longrightarrow> \<exists>s' ar'. free_at s ar d = Some (s', ar', Inr ())"
  using run_inv [OF assms] alloc_total free_at_live by blast+

text \<open>Allocating and releasing leave every other payload byte alone.\<close>

lemma alloc_keeps_payload:
  assumes "inv s ar L" "alloc s ar n = Some (s', ar', r)" "L d = Some c" "d \<le> i" "i < d + c"
  shows "abytes ar' i = abytes ar i"
proof (cases r)
  case None
  then show ?thesis using alloc_none [OF assms(1), of n s' ar'] assms(2) by simp
next
  case (Some a)
  note a = alloc_some [OF assms(1) assms(2) [unfolded Some]]
  have "{d - 8..<d + c} \<inter> {data_offset a - 8..<data_offset a + al_cap a} = {}"
    by (rule disjoint [of s' ar' "L(data_offset a \<mapsto> al_cap a)"]) (use a assms(3) in auto)
  then have "i \<notin> {block_offset a..<data_offset a}"
    using a assms(4,5) by (auto simp: disjoint_iff)
  with a show ?thesis by (simp add: same_outside_def)
qed

lemma free_keeps_payload:
  assumes "inv s ar L" "L d = Some c" "free_at s ar d = Some (s', ar', r)"
    and "L d' = Some c'" "d' \<noteq> d" "d' \<le> i" "i < d' + c'"
  shows "abytes ar' i = abytes ar i"
proof -
  have "same_outside {d - 8..<d - 4} ar ar'" using free_at_live [OF assms(1,2)] assms(3) by auto
  moreover have "{d - 8..<d - 4} \<subseteq> {d - 8..<d + c}" by auto
  then have "i \<notin> {d - 8..<d - 4}"
    using disjoint [OF assms(1,2,4)] assms(5-7) by (auto simp: disjoint_iff)
  ultimately show ?thesis by (simp add: same_outside_def)
qed

text \<open>A block just handed out can be released again, and releasing it restores the live map.\<close>

lemma alloc_free:
  assumes "inv s ar L" "alloc s ar n = Some (s', ar', Some a)"
  shows "\<exists>s'' ar''. free_at s' ar' (data_offset a) = Some (s'', ar'', Inr ()) \<and> inv s'' ar'' L"
proof -
  note a = alloc_some [OF assms]
  have "inv s' ar' (L(data_offset a \<mapsto> al_cap a))" "(L(data_offset a \<mapsto> al_cap a)) (data_offset a) = Some (al_cap a)"
    using a by auto
  from free_at_live [OF this] a show ?thesis by (metis fun_upd_triv fun_upd_upd)
qed

end

end
