(* ===== verification/Dyadic.thy ===== *)
theory Dyadic
  imports Prelude
begin

text \<open>
  Tilings of an arena by dyadic blocks, the mathematics the buddy allocator rests on. A block
  \<open>(o, k)\<close> starts at offset \<open>o\<close> and spans \<open>u * 2^k\<close> bytes, where \<open>u\<close> is the smallest block. The
  main result, \<open>no_pair_no_slot\<close>, says that once no two free buddies below order \<open>n\<close> are left
  unmerged and no free block of order \<open>n\<close> or more exists, every aligned slot of order \<open>n\<close> meets a
  block in use.
\<close>

type_synonym block = "nat \<times> nat"

definition span :: "nat \<Rightarrow> block \<Rightarrow> nat set" where
  "span u b = {fst b..<fst b + u * 2 ^ snd b}"

definition aligned :: "nat \<Rightarrow> block \<Rightarrow> bool" where
  "aligned u b \<longleftrightarrow> u * 2 ^ snd b dvd fst b"

definition tiling :: "nat \<Rightarrow> nat \<Rightarrow> block set \<Rightarrow> bool" where
  "tiling u N T \<longleftrightarrow>
     (\<forall>b\<in>T. aligned u b) \<and>
     (\<forall>b\<in>T. \<forall>c\<in>T. b \<noteq> c \<longrightarrow> span u b \<inter> span u c = {}) \<and>
     (\<Union>b\<in>T. span u b) = {0..<N}"

text \<open>Two free buddies: the even-indexed block \<open>(o, k)\<close> and its right neighbour.\<close>

definition buddies :: "nat \<Rightarrow> block set \<Rightarrow> nat \<Rightarrow> nat \<Rightarrow> bool" where
  "buddies u F x k \<longleftrightarrow> (x, k) \<in> F \<and> (x + u * 2 ^ k, k) \<in> F \<and> u * 2 ^ Suc k dvd x"

lemma span_mem [simp]: "i \<in> span u (x, k) \<longleftrightarrow> x \<le> i \<and> i < x + u * 2 ^ k"
  by (simp add: span_def)

lemma aligned_iff [simp]: "aligned u (x, k) \<longleftrightarrow> u * 2 ^ k dvd x"
  by (simp add: aligned_def)

lemma buddies_mono: "buddies u F x k \<Longrightarrow> F \<subseteq> F' \<Longrightarrow> buddies u F' x k"
  by (auto simp: buddies_def)

lemma tilingD:
  assumes "tiling u N T"
  shows "b \<in> T \<Longrightarrow> aligned u b"
    and "b \<in> T \<Longrightarrow> c \<in> T \<Longrightarrow> i \<in> span u b \<Longrightarrow> i \<in> span u c \<Longrightarrow> b = c"
    and "b \<in> T \<Longrightarrow> span u b \<subseteq> {0..<N}"
    and "i < N \<Longrightarrow> \<exists>b\<in>T. i \<in> span u b"
proof -
  have un: "(\<Union>b\<in>T. span u b) = {0..<N}" using assms unfolding tiling_def by blast
  show "b \<in> T \<Longrightarrow> aligned u b" using assms unfolding tiling_def by blast
  show "b \<in> T \<Longrightarrow> c \<in> T \<Longrightarrow> i \<in> span u b \<Longrightarrow> i \<in> span u c \<Longrightarrow> b = c"
    using assms unfolding tiling_def by blast
  show "b \<in> T \<Longrightarrow> span u b \<subseteq> {0..<N}" using un by blast
  show "\<exists>b\<in>T. i \<in> span u b" if "i < N"
    using that un by (metis UN_iff atLeastLessThan_iff zero_le)
qed

lemma tiling_disjoint:
  "tiling u N T \<Longrightarrow> b \<in> T \<Longrightarrow> c \<in> T \<Longrightarrow> b \<noteq> c \<Longrightarrow> span u b \<inter> span u c = {}"
  by (simp add: tiling_def)

lemma tiling_bound:
  assumes "tiling u N T" "(x, k) \<in> T" "0 < u"
  shows "x + u * 2 ^ k \<le> N"
proof -
  have "0 < u * 2 ^ k" using assms(3) by simp
  then have "x + u * 2 ^ k - 1 \<in> span u (x, k)" by (simp only: span_mem) linarith
  then have "x + u * 2 ^ k - 1 < N" using tilingD(3) [OF assms(1,2)] by auto
  then show ?thesis using assms(3) by simp
qed

text \<open>Aligned dyadic blocks are nested or disjoint.\<close>

lemma aligned_nested:
  assumes "aligned u (x, k)" "aligned u (y, j)" "k \<le> j"
    and "i \<in> span u (x, k)" "i \<in> span u (y, j)"
  shows "span u (x, k) \<subseteq> span u (y, j)"
proof -
  let ?s = "u * 2 ^ k"
  have "0 < ?s" using assms(4) by (auto intro: Nat.gr0I)
  have sj: "u * 2 ^ j = ?s * 2 ^ (j - k)" using assms(3) by (simp flip: power_add)
  obtain a where x: "x = ?s * a" using assms(1) by auto
  obtain c where y: "y = ?s * c" using assms(2) sj by (metis aligned_iff dvd_def mult.assoc)
  have "?s * a < ?s * (c + 2 ^ (j - k))"
    using assms(4,5) by (auto simp: x y sj algebra_simps)
  then have "Suc a \<le> c + 2 ^ (j - k)" by (simp only: mult_less_cancel1 Suc_le_eq)
  then have hi: "?s * Suc a \<le> ?s * (c + 2 ^ (j - k))" by (rule mult_le_mono2)
  have "?s * c < ?s * Suc a"
    using assms(4,5) by (auto simp: x y sj algebra_simps)
  then have "c \<le> a" by (simp only: mult_less_cancel1 less_Suc_eq_le)
  then have "y \<le> x" unfolding x y by (rule mult_le_mono2)
  moreover have "x + ?s \<le> y + u * 2 ^ j" using hi by (simp add: x y sj algebra_simps)
  ultimately show ?thesis by auto
qed

section \<open>Splitting and merging\<close>

lemma span_Suc: "span u (x, Suc k) = span u (x, k) \<union> span u (x + u * 2 ^ k, k)"
  by (auto simp: algebra_simps)

lemma span_halves_disjoint: "span u (x, k) \<inter> span u (x + u * 2 ^ k, k) = {}"
  by auto

text \<open>Replacing a part of a tiling by another tiling of the same bytes.\<close>

lemma tiling_replace:
  assumes T: "tiling u N (A \<union> R)" and "A \<inter> R = {}"
    and al: "\<And>b. b \<in> R' \<Longrightarrow> aligned u b"
    and dj: "\<And>b c. b \<in> R' \<Longrightarrow> c \<in> R' \<Longrightarrow> b \<noteq> c \<Longrightarrow> span u b \<inter> span u c = {}"
    and un: "(\<Union>b\<in>R'. span u b) = (\<Union>b\<in>R. span u b)"
  shows "tiling u N (A \<union> R')"
proof -
  have cross: "span u b \<inter> span u c = {}" if "b \<in> A" "c \<in> R'" for b c
  proof -
    have "span u c \<subseteq> (\<Union>b\<in>R. span u b)" using that un by blast
    moreover have "span u b \<inter> span u d = {}" if "d \<in> R" for d
      using tiling_disjoint [OF T, of b d] that \<open>b \<in> A\<close> assms(2) by blast
    ultimately show ?thesis by blast
  qed
  have "span u b \<inter> span u c = {}" if "b \<in> A" "c \<in> A" "b \<noteq> c" for b c
    using tiling_disjoint [OF T] that by blast
  with dj cross have "\<forall>b\<in>A \<union> R'. \<forall>c\<in>A \<union> R'. b \<noteq> c \<longrightarrow> span u b \<inter> span u c = {}"
    by blast
  moreover have "(\<Union>b\<in>A \<union> R'. span u b) = {0..<N}"
    using T un unfolding tiling_def by (simp add: UN_Un)
  moreover have "\<forall>b\<in>A \<union> R'. aligned u b" using tilingD(1) [OF T] al by blast
  ultimately show ?thesis unfolding tiling_def by blast
qed

lemma tiling_split:
  assumes "tiling u N (insert (x, Suc k) A)" "(x, Suc k) \<notin> A"
  shows "tiling u N (insert (x, k) (insert (x + u * 2 ^ k, k) A))"
proof -
  have al: "u * 2 ^ Suc k dvd x" using tilingD(1) [OF assms(1)] by force
  have "tiling u N (A \<union> {(x, k), (x + u * 2 ^ k, k)})"
  proof (rule tiling_replace)
    show "tiling u N (A \<union> {(x, Suc k)})" using assms(1) by simp
    show "A \<inter> {(x, Suc k)} = {}" using assms(2) by simp
    have "u * 2 ^ k dvd x" using al by (metis dvd_mult_right mult.left_commute power_Suc)
    then show "aligned u b" if "b \<in> {(x, k), (x + u * 2 ^ k, k)}" for b
      using that by auto
    show "span u b \<inter> span u c = {}"
      if "b \<in> {(x, k), (x + u * 2 ^ k, k)}" "c \<in> {(x, k), (x + u * 2 ^ k, k)}" "b \<noteq> c" for b c
      using that span_halves_disjoint [of u x k] by blast
    show "(\<Union>b\<in>{(x, k), (x + u * 2 ^ k, k)}. span u b) = (\<Union>b\<in>{(x, Suc k)}. span u b)"
      by (simp add: span_Suc)
  qed
  then show ?thesis by (simp add: insert_commute)
qed

lemma tiling_merge:
  assumes "tiling u N (insert (x, k) (insert (x + u * 2 ^ k, k) A))" "u * 2 ^ Suc k dvd x"
    and "(x, k) \<notin> A" "(x + u * 2 ^ k, k) \<notin> A"
  shows "tiling u N (insert (x, Suc k) A)"
proof -
  have "tiling u N (A \<union> {(x, Suc k)})"
  proof (rule tiling_replace)
    show "tiling u N (A \<union> {(x, k), (x + u * 2 ^ k, k)})" using assms(1) by (simp add: insert_commute)
    show "A \<inter> {(x, k), (x + u * 2 ^ k, k)} = {}" using assms(3,4) by blast
    show "aligned u b" if "b \<in> {(x, Suc k)}" for b using that assms(2) by simp
    show "(\<Union>b\<in>{(x, Suc k)}. span u b) = (\<Union>b\<in>{(x, k), (x + u * 2 ^ k, k)}. span u b)"
      by (simp add: span_Suc)
  qed simp
  then show ?thesis by simp
qed

text \<open>Splitting a block of order \<open>f\<close> down to order \<open>n\<close> leaves one right half per level.\<close>

definition halves :: "nat \<Rightarrow> nat \<Rightarrow> nat \<Rightarrow> nat \<Rightarrow> block set" where
  "halves u x n f = (\<lambda>j. (x + u * 2 ^ j, j)) ` {n..<f}"

lemma tiling_halves:
  assumes "n \<le> f" "0 < u"
  shows "tiling u N (insert (x, f) A) \<Longrightarrow> (x, f) \<notin> A \<Longrightarrow>
    tiling u N (insert (x, n) (halves u x n f \<union> A)) \<and> (x, n) \<notin> halves u x n f \<union> A"
  using assms(1)
proof (induction n rule: inc_induct)
  case base
  then show ?case by (simp add: halves_def)
next
  case (step m)
  let ?A = "halves u x (Suc m) f \<union> A"
  have IH: "tiling u N (insert (x, Suc m) ?A)" "(x, Suc m) \<notin> ?A"
    using step by blast+
  have "{m..<f} = insert m {Suc m..<f}" using step.hyps by auto
  then have h: "halves u x m f = insert (x + u * 2 ^ m, m) (halves u x (Suc m) f)"
    by (simp add: halves_def)
  have "tiling u N (insert (x, m) (halves u x m f \<union> A))"
    using tiling_split [OF IH] h by simp
  moreover have "(x, m) \<notin> halves u x m f \<union> A"
  proof
    assume "(x, m) \<in> halves u x m f \<union> A"
    then have "(x, m) \<in> ?A" using h assms(2) by auto
    then have "(x, m) = (x, Suc m)"
      using tilingD(2) [OF IH(1), of "(x, m)" "(x, Suc m)" x] assms(2) by simp
    then show False by simp
  qed
  ultimately show ?case ..
qed

section \<open>Completeness of merging\<close>

lemma aligned_eq:
  assumes "aligned u (x, k)" "aligned u (y, k)" "i \<in> span u (x, k)" "i \<in> span u (y, k)"
  shows "x = y"
proof -
  have "span u (x, k) = span u (y, k)"
    using aligned_nested [of u x k y k i] aligned_nested [of u y k x k i] assms by blast
  moreover have "x < x + u * 2 ^ k" "y < y + u * 2 ^ k"
    using assms(3,4) by (metis span_mem order_le_less_trans)+
  ultimately show ?thesis
    using atLeastLessThan_eq_iff [of x "x + u * 2 ^ k" y "y + u * 2 ^ k"] by (simp add: span_def)
qed

lemma parent_exists:
  assumes "aligned u (x, k)" "0 < u"
  obtains p where "aligned u (p, Suc k)" "x = p \<or> x = p + u * 2 ^ k"
proof -
  obtain q where q: "x = u * 2 ^ k * q" using assms(1) by auto
  show thesis
  proof (cases "even q")
    case True
    then have "aligned u (x, Suc k)" by (auto simp: q elim!: evenE)
    then show thesis using that by blast
  next
    case False
    then obtain r where "q = 2 * r + 1" by (rule oddE)
    then have "x = u * 2 ^ Suc k * r + u * 2 ^ k" by (simp add: q algebra_simps)
    then show thesis using that [of "u * 2 ^ Suc k * r"] by simp
  qed
qed

text \<open>If a block of order \<open>k\<close> lies in a parent, a block of order at least \<open>k\<close> that covers the start of
  either half is that half.\<close>

lemma half_covered:
  assumes T: "tiling u N T" and "0 < u" and p: "aligned u (p, Suc k)"
    and x: "(x, k) \<in> T" "x = p \<or> x = p + u * 2 ^ k"
    and y: "y = p \<or> y = p + u * 2 ^ k"
    and b: "(y', j) \<in> T" "y \<in> span u (y', j)" "k \<le> j"
  shows "(y', j) = (y, k)"
proof -
  have zs: "0 < u * 2 ^ k" using \<open>0 < u\<close> by simp
  have pin: "x \<in> span u (p, Suc k)" "y \<in> span u (p, Suc k)"
    using x(2) y zs by (auto simp: algebra_simps)
  have yal: "aligned u (y, k)"
    using p y by (auto intro: dvd_trans [of "u * 2 ^ k" "u * 2 ^ Suc k"])
  have bal: "aligned u (y', j)" using tilingD(1) [OF T b(1)] .
  show ?thesis
  proof (cases "j = k")
    case True
    with yal bal b(2) zs show ?thesis using aligned_eq [of u y' k y y] by simp
  next
    case False
    with b(3) have "span u (p, Suc k) \<subseteq> span u (y', j)"
      using aligned_nested [OF p bal _ pin(2) b(2)] by simp
    with pin(1) zs have "(x, k) = (y', j)"
      using tilingD(2) [OF T x(1) b(1), of x] by auto
    with False show ?thesis by simp
  qed
qed

theorem no_pair_no_slot:
  assumes T: "tiling u N (F \<union> A)" and "0 < u"
    and low: "\<And>x k. (x, k) \<in> F \<Longrightarrow> k < n"
    and nopair: "\<And>x k. k < n \<Longrightarrow> \<not> buddies u F x k"
    and slot: "aligned u (s, n)" "s + u * 2 ^ n \<le> N"
  shows "\<exists>b\<in>A. span u b \<inter> span u (s, n) \<noteq> {}"
proof (rule ccontr)
  assume none: "\<not> ?thesis"
  let ?S = "span u (s, n)"
  have cover: "\<exists>y j. (y, j) \<in> F \<and> i \<in> span u (y, j)" if "i \<in> ?S" for i
  proof -
    have "i < N" using that slot(2) by auto
    then obtain b where "b \<in> F \<union> A" "i \<in> span u b" using tilingD(4) [OF T] by blast
    with none that show ?thesis by (cases b) blast
  qed
  have al: "aligned u b" if "b \<in> F" for b using tilingD(1) [OF T] that by blast
  have inside: "span u (x, k) \<subseteq> ?S" if "(x, k) \<in> F" "i \<in> span u (x, k)" "i \<in> ?S" for x k i
    using aligned_nested [OF al [OF that(1)] slot(1) _ that(2,3)] low [OF that(1)] by simp
  define P where "P k \<longleftrightarrow> (\<exists>x. (x, k) \<in> F \<and> span u (x, k) \<subseteq> ?S)" for k
  have "s \<in> ?S" using \<open>0 < u\<close> by simp
  then obtain k0 where "P k0" using cover inside unfolding P_def by metis
  define k where "k = (LEAST k. P k)"
  have "P k" unfolding k_def using \<open>P k0\<close> by (rule LeastI)
  then obtain x where x: "(x, k) \<in> F" "span u (x, k) \<subseteq> ?S" unfolding P_def by blast
  have "k < n" using low x(1) .
  obtain p where p: "aligned u (p, Suc k)" "x = p \<or> x = p + u * 2 ^ k"
    using parent_exists [OF al [OF x(1)] \<open>0 < u\<close>] .
  have pin: "x \<in> span u (p, Suc k)" using p(2) \<open>0 < u\<close> by (auto simp: algebra_simps)
  have "x \<in> ?S" using x(2) \<open>0 < u\<close> by (auto simp: subset_iff)
  then have par: "span u (p, Suc k) \<subseteq> ?S"
    using aligned_nested [OF p(1) slot(1) _ pin] \<open>k < n\<close> by simp
  have both: "(y, k) \<in> F" if y: "y = p \<or> y = p + u * 2 ^ k" for y
  proof -
    have "y \<in> span u (p, Suc k)" using y \<open>0 < u\<close> by (auto simp: algebra_simps)
    with par have "y \<in> ?S" by blast
    with cover obtain y' j where b: "(y', j) \<in> F" "y \<in> span u (y', j)" by blast
    then have "P j" using inside \<open>y \<in> ?S\<close> unfolding P_def by blast
    then have "k \<le> j" unfolding k_def by (rule Least_le)
    then have "(y', j) = (y, k)"
      using half_covered [OF T \<open>0 < u\<close> p(1) _ p(2) y _ b(2)] x(1) b(1) by blast
    with b(1) show ?thesis by simp
  qed
  have "buddies u F p k" unfolding buddies_def using both p(1) by simp
  with nopair \<open>k < n\<close> show False by blast
qed

end
