(* ===== verification/Buddy.thy ===== *)
theory Buddy
  imports Allocator Dyadic
begin

text \<open>
  The buddy allocator of \<open>src/v5/buddy.rs\<close>. Free lists are vectors used as stacks; a shift
  \<open>min_block << n\<close> is \<open>min_block * 2 ^ n\<close>. Coalescing is lazy: \<open>coalesce_until\<close> runs only when a
  request cannot be served and \<open>needs_coalesce\<close> is set.
\<close>

record buddy =
  b_arena_size :: nat
  b_min_block :: nat
  b_max_block :: nat
  b_min_shift :: nat
  b_max_order :: nat
  b_free :: "nat list list"
  b_needs_coalesce :: bool

section \<open>Construction\<close>

definition DEFAULT_MAX_BLOCK_SIZE :: nat where "DEFAULT_MAX_BLOCK_SIZE = 512 * 1024"
definition DEFAULT_MIN_BLOCK_SIZE :: nat where "DEFAULT_MIN_BLOCK_SIZE = 8 * 1024"

definition buddy_new_with_block_size :: "nat \<Rightarrow> nat \<Rightarrow> nat \<Rightarrow> error + buddy" where
  "buddy_new_with_block_size arena_size min_block max_block =
    (if \<not> is_power_of_two min_block \<or> \<not> is_power_of_two max_block then Inl BlockSizeNotPowerOfTwo
     else if min_block > max_block then Inl InvalidBlockSizeOrder
     else if min_block \<le> ALLOCATOR_HEADER_SIZE then Inl BlockTooSmallForHeader
     else if arena_size < max_block \<or> arena_size mod max_block \<noteq> 0 then Inl InvalidArenaSize
     else
       let min_shift = trailing_zeros min_block;
           max_order = trailing_zeros max_block - min_shift
       in Inr \<lparr> b_arena_size = arena_size, b_min_block = min_block, b_max_block = max_block,
                b_min_shift = min_shift, b_max_order = max_order,
                b_free = (replicate (Suc max_order) [])[max_order := step_by arena_size max_block],
                b_needs_coalesce = False \<rparr>)"

definition buddy_new :: "nat \<Rightarrow> error + buddy" where
  "buddy_new arena_size =
     buddy_new_with_block_size arena_size DEFAULT_MIN_BLOCK_SIZE DEFAULT_MAX_BLOCK_SIZE"

section \<open>Orders\<close>

definition order_for :: "buddy \<Rightarrow> nat \<Rightarrow> nat option" where
  "order_for b bytes =
     (if bytes \<le> b_min_block b then Some 0
      else checked_sub (bit_length (bytes - 1)) (b_min_shift b))"

definition order_for_capacity :: "buddy \<Rightarrow> nat \<Rightarrow> nat option option" where
  "order_for_capacity b cap =
     (case checked_add cap ALLOCATOR_HEADER_SIZE of
        None \<Rightarrow> Some None
      | Some block_size \<Rightarrow>
          if \<not> is_power_of_two block_size \<or> block_size < b_min_block b \<or> block_size > b_max_block b
          then Some None
          else map_option Some (checked_sub (trailing_zeros block_size) (b_min_shift b)))"

definition live_order :: "buddy \<Rightarrow> arena \<Rightarrow> nat \<Rightarrow> error + nat" where
  "live_order b ar off =
     (case read_header ar off of
        None \<Rightarrow> Inl InvalidOffset
      | Some (magic, ord) \<Rightarrow>
          if magic \<noteq> MAGIC then Inl NotAllocated
          else if ord > b_max_order b then Inl CorruptMetadata
          else if off AND (b_min_block b * 2 ^ ord - 1) \<noteq> 0 then Inl CorruptMetadata
          else Inr ord)"

section \<open>Coalescing\<close>

text \<open>The in-place scan over one sorted free list: \<open>i\<close> reads, \<open>kept\<close> writes, a pair of buddies goes
  to the next list.\<close>

function coalesce_scan :: "nat \<Rightarrow> nat list \<Rightarrow> nat list \<Rightarrow> nat \<Rightarrow> nat \<Rightarrow> nat list \<times> nat list" where
  "coalesce_scan block_size lst next_list kept i =
     (if i < length lst then
        if i + 1 < length lst \<and> (lst ! i) XOR block_size = lst ! (i + 1)
        then coalesce_scan block_size lst (next_list @ [lst ! i]) kept (i + 2)
        else coalesce_scan block_size (lst[kept := lst ! i]) next_list (kept + 1) (i + 1)
      else (take kept lst, next_list))"
  by pat_completeness auto
termination
  by (relation "measure (\<lambda>(_, lst, _, _, i). length lst - i)") auto

declare coalesce_scan.simps [simp del]

definition coalesce_order :: "nat \<Rightarrow> nat \<Rightarrow> nat list list \<Rightarrow> nat list list option" where
  "coalesce_order min_block ord fr =
     (if ord + 1 < length fr then
        if length (fr ! ord) < 2 then Some fr
        else let (lst, next_list) = coalesce_scan (min_block * 2 ^ ord) (sort (fr ! ord)) (fr ! (ord + 1)) 0 0
             in Some (fr[ord := lst, ord + 1 := next_list])
      else None)"

primrec coalesce_lists :: "nat \<Rightarrow> nat \<Rightarrow> nat list list \<Rightarrow> nat list list option" where
  "coalesce_lists min_block 0 fr = Some fr"
| "coalesce_lists min_block (Suc t) fr = do {
     fr' \<leftarrow> coalesce_lists min_block t fr;
     coalesce_order min_block t fr'
   }"

definition coalesce_until :: "buddy \<Rightarrow> nat \<Rightarrow> buddy option" where
  "coalesce_until b target = do {
     fr \<leftarrow> coalesce_lists (b_min_block b) target (b_free b);
     Some (b \<lparr> b_free := fr \<rparr>)
   }"

section \<open>Allocation and release\<close>

primrec find_free :: "nat list list \<Rightarrow> nat list \<Rightarrow> nat option option" where
  "find_free fr [] = Some None"
| "find_free fr (k # ks) = do {
     l \<leftarrow> vec_get fr k;
     if l \<noteq> [] then Some (Some k) else find_free fr ks
   }"

fun split_loop :: "nat \<Rightarrow> nat \<Rightarrow> nat \<Rightarrow> nat \<Rightarrow> nat list list \<Rightarrow> nat list list option" where
  "split_loop min_block ord off found fr =
     (if found > ord then do {
        fr' \<leftarrow> vec_push_at fr (found - 1) (off + min_block * 2 ^ (found - 1));
        split_loop min_block ord off (found - 1) fr'
      } else Some fr)"

declare split_loop.simps [simp del]

text \<open>\<open>alloc\<close> in two parts: find a non-empty list, coalescing lazily, and carve the block.\<close>

definition buddy_find :: "buddy \<Rightarrow> nat \<Rightarrow> (buddy \<times> nat option) option" where
  "buddy_find b ord = do {
     found \<leftarrow> find_free (b_free b) [ord..<Suc (b_max_order b)];
     if found = None \<and> b_needs_coalesce b then do {
       b' \<leftarrow> coalesce_until b ord;
       found' \<leftarrow> find_free (b_free b') [ord..<Suc (b_max_order b')];
       Some (if found' = None then b' \<lparr> b_needs_coalesce := False \<rparr> else b', found')
     } else Some (b, found)
   }"

definition buddy_carve :: "buddy \<Rightarrow> arena \<Rightarrow> nat \<Rightarrow> nat \<Rightarrow> nat \<Rightarrow>
    (buddy \<times> arena \<times> allocation option) option" where
  "buddy_carve b ar sz ord found = do {
     lst \<leftarrow> vec_get (b_free b) found;
     case vec_pop lst of
       (_, None) \<Rightarrow> Some (b, ar, None)
     | (rest, Some off) \<Rightarrow> do {
         fr \<leftarrow> vec_set (b_free b) found rest;
         fr' \<leftarrow> split_loop (b_min_block b) ord off found fr;
         ar' \<leftarrow> write_header ar off ord;
         cap \<leftarrow> checked_sub (b_min_block b * 2 ^ ord) ALLOCATOR_HEADER_SIZE;
         Some (b \<lparr> b_free := fr' \<rparr>, ar',
           Some \<lparr> block_offset = off, data_offset = off + ALLOCATOR_HEADER_SIZE,
                  al_len = sz, al_cap = cap \<rparr>)
       }
   }"

definition buddy_alloc :: "buddy \<Rightarrow> arena \<Rightarrow> nat \<Rightarrow> (buddy \<times> arena \<times> allocation option) option" where
  "buddy_alloc b ar sz =
     (if alen ar \<noteq> b_arena_size b \<or> sz = 0 then Some (b, ar, None)
      else do {
        limit \<leftarrow> checked_sub (b_max_block b) ALLOCATOR_HEADER_SIZE;
        if sz > limit then Some (b, ar, None)
        else do {
          ord \<leftarrow> order_for b (sz + ALLOCATOR_HEADER_SIZE);
          (b', found) \<leftarrow> buddy_find b ord;
          case found of
            None \<Rightarrow> Some (b', ar, None)
          | Some f \<Rightarrow> buddy_carve b' ar sz ord f
        }
      })"

definition buddy_max_allocation :: "buddy \<Rightarrow> nat option" where
  "buddy_max_allocation b = checked_sub (b_max_block b) ALLOCATOR_HEADER_SIZE"

definition buddy_release :: "buddy \<Rightarrow> arena \<Rightarrow> nat \<Rightarrow> nat \<Rightarrow> (buddy \<times> arena) option" where
  "buddy_release b ar off ord = do {
     ar' \<leftarrow> clear_magic ar off;
     fr \<leftarrow> vec_push_at (b_free b) ord off;
     Some (b \<lparr> b_free := fr, b_needs_coalesce := b_needs_coalesce b \<or> ord < b_max_order b \<rparr>, ar')
   }"

definition buddy_is_valid_offset :: "buddy \<Rightarrow> nat \<Rightarrow> bool" where
  "buddy_is_valid_offset b d \<longleftrightarrow>
     d \<ge> ALLOCATOR_HEADER_SIZE \<and> d - ALLOCATOR_HEADER_SIZE < b_arena_size b \<and>
     (d - ALLOCATOR_HEADER_SIZE) AND (b_min_block b - 1) = 0"

definition buddy_free_at :: "buddy \<Rightarrow> arena \<Rightarrow> nat \<Rightarrow> (buddy \<times> arena \<times> (error + unit)) option" where
  "buddy_free_at b ar d =
     (if alen ar \<noteq> b_arena_size b then Some (b, ar, Inl InvalidArenaSize)
      else if \<not> buddy_is_valid_offset b d then Some (b, ar, Inl InvalidOffset)
      else let off = d - ALLOCATOR_HEADER_SIZE in
        case live_order b ar off of
          Inl e \<Rightarrow> Some (b, ar, Inl e)
        | Inr ord \<Rightarrow> do {
            (b', ar') \<leftarrow> buddy_release b ar off ord;
            Some (b', ar', Inr ())
          })"

definition buddy_free :: "buddy \<Rightarrow> arena \<Rightarrow> allocation \<Rightarrow> (buddy \<times> arena \<times> (error + unit)) option" where
  "buddy_free b ar a =
     (if alen ar \<noteq> b_arena_size b then Some (b, ar, Inl InvalidArenaSize)
      else if block_offset a \<ge> b_arena_size b
        \<or> data_offset a \<noteq> block_offset a + ALLOCATOR_HEADER_SIZE
        \<or> data_offset a \<ge> b_arena_size b then Some (b, ar, Inl InvalidOffset)
      else if al_len a > al_cap a then Some (b, ar, Inl CorruptMetadata)
      else do {
        claimed \<leftarrow> order_for_capacity b (al_cap a);
        case claimed of
          None \<Rightarrow> Some (b, ar, Inl CorruptMetadata)
        | Some c \<Rightarrow>
            (case live_order b ar (block_offset a) of
               Inl e \<Rightarrow> Some (b, ar, Inl e)
             | Inr ord \<Rightarrow>
                 if c \<noteq> ord then Some (b, ar, Inl CorruptMetadata)
                 else do {
                   (b', ar') \<leftarrow> buddy_release b ar (block_offset a) ord;
                   Some (b', ar', Inr ())
                 })
      })"

definition buddy_available :: "buddy \<Rightarrow> nat" where
  "buddy_available b =
     (\<Sum>k\<leftarrow>[0..<length (b_free b)]. length (b_free b ! k) * (b_min_block b * 2 ^ k - ALLOCATOR_HEADER_SIZE))"

definition buddy_reset :: "buddy \<Rightarrow> arena \<Rightarrow> (buddy \<times> arena \<times> (error + unit)) option" where
  "buddy_reset b ar =
     (if alen ar \<noteq> b_arena_size b then Some (b, ar, Inl InvalidArenaSize)
      else do {
        fr \<leftarrow> vec_set (map (\<lambda>_. []) (b_free b)) (b_max_order b) (step_by (b_arena_size b) (b_max_block b));
        Some (b \<lparr> b_free := fr, b_needs_coalesce := False \<rparr>, ar, Inr ())
      })"

section \<open>The scan equals a structural pass\<close>

fun merge_pairs :: "nat \<Rightarrow> nat list \<Rightarrow> nat list \<times> nat list" where
  "merge_pairs z (x # y # zs) =
     (if x XOR z = y then (let (k, p) = merge_pairs z zs in (k, x # p))
      else (let (k, p) = merge_pairs z (y # zs) in (x # k, p)))"
| "merge_pairs z [x] = ([x], [])"
| "merge_pairs z [] = ([], [])"

lemma coalesce_scan_eq:
  "kept \<le> i \<Longrightarrow> coalesce_scan z lst nxt kept i =
     (take kept lst @ fst (merge_pairs z (drop i lst)), nxt @ snd (merge_pairs z (drop i lst)))"
proof (induction z lst nxt kept i rule: coalesce_scan.induct)
  case (1 z lst nxt kept i)
  show ?case
  proof (cases "i < length lst")
    case False
    then show ?thesis by (simp add: coalesce_scan.simps)
  next
    case i: True
    then have d: "drop i lst = lst ! i # drop (Suc i) lst" by (rule Cons_nth_drop_Suc [symmetric])
    show ?thesis
    proof (cases "i + 1 < length lst \<and> lst ! i XOR z = lst ! (i + 1)")
      case True
      then have d2: "drop (Suc i) lst = lst ! (i + 1) # drop (i + 2) lst"
        using Cons_nth_drop_Suc [of "Suc i" lst] by simp
      show ?thesis
        using "1.IH"(1) [OF i True] True i "1.prems"
        by (subst coalesce_scan.simps) (simp add: d d2 case_prod_unfold Let_def)
    next
      case False
      have "coalesce_scan z lst nxt kept i = coalesce_scan z (lst[kept := lst ! i]) nxt (kept + 1) (i + 1)"
        by (subst coalesce_scan.simps) (use i False in auto)
      also have "\<dots> = (take (kept + 1) (lst[kept := lst ! i]) @ fst (merge_pairs z (drop (i + 1) lst)),
          nxt @ snd (merge_pairs z (drop (i + 1) lst)))"
        using "1.IH"(2) [OF i False] "1.prems" by simp
      also have "take (kept + 1) (lst[kept := lst ! i]) = take kept lst @ [lst ! i]"
        using i "1.prems" by (simp add: take_Suc_conv_app_nth)
      finally have *: "coalesce_scan z lst nxt kept i =
        (take kept lst @ lst ! i # fst (merge_pairs z (drop (Suc i) lst)),
         nxt @ snd (merge_pairs z (drop (Suc i) lst)))" by simp
      show ?thesis
      proof (cases "i + 1 < length lst")
        case True
        then have "drop (Suc i) lst = lst ! (i + 1) # drop (i + 2) lst"
          using Cons_nth_drop_Suc [of "Suc i" lst] by simp
        with False True d * show ?thesis by (simp add: case_prod_unfold Let_def)
      next
        case False
        then have "drop (Suc i) lst = []" by simp
        with d * show ?thesis by simp
      qed
    qed
  qed
qed

text \<open>On a strictly sorted list of multiples of \<open>z = 2^m\<close> the pass removes exactly the buddy pairs.\<close>

definition merged :: "nat \<Rightarrow> nat list \<Rightarrow> nat list \<Rightarrow> nat list \<Rightarrow> bool" where
  "merged m l k p \<longleftrightarrow>
     set l = set k \<union> set p \<union> (\<lambda>x. x + 2 ^ m) ` set p \<and>
     distinct k \<and> distinct p \<and>
     set k \<inter> (set p \<union> (\<lambda>x. x + 2 ^ m) ` set p) = {} \<and>
     (\<forall>x\<in>set p. 2 ^ Suc m dvd x) \<and>
     (\<forall>x\<in>set k. 2 ^ Suc m dvd x \<longrightarrow> x + 2 ^ m \<notin> set k)"

lemma next_multiple:
  assumes "(z :: nat) dvd x" "z dvd y" "x < y" "y \<le> x + z"
  shows "y = x + z"
proof -
  have "z dvd y - x" using assms by (simp add: dvd_diff_nat)
  then have "z \<le> y - x" using assms(3) by (simp add: dvd_imp_le)
  with assms(3,4) show ?thesis by simp
qed

lemma xor_right_buddy:
  assumes "2 ^ m dvd x" "(x :: nat) < y"
  shows "x XOR 2 ^ m = y \<longleftrightarrow> 2 ^ Suc m dvd x \<and> y = x + 2 ^ m"
  using xor_pow2_aligned [OF assms(1)] assms(2) by auto

lemma merge_pairs_merged:
  "sorted_wrt (<) l \<Longrightarrow> \<forall>x\<in>set l. 2 ^ m dvd x \<Longrightarrow> merge_pairs (2 ^ m) l = (k, p) \<Longrightarrow> merged m l k p"
proof (induction "2 ^ m :: nat" l arbitrary: k p rule: merge_pairs.induct)
  case (1 x y zs)
  let ?z = "2 ^ m :: nat"
  have lt: "x < y" "\<forall>w\<in>set zs. y < w" using "1.prems"(1) by auto
  have dv: "?z dvd x" "?z dvd y" using "1.prems"(2) by auto
  show ?case
  proof (cases "x XOR ?z = y")
    case True
    then have y: "2 ^ Suc m dvd x" "y = x + ?z" using xor_right_buddy [OF dv(1) lt(1)] by auto
    obtain k0 p0 where m0: "merge_pairs ?z zs = (k0, p0)" by fastforce
    with "1.prems"(3) True have kp: "k = k0" "p = x # p0" by auto
    have IH: "merged m zs k0 p0" using "1.hyps"(1) [OF True _ _ m0] "1.prems" by simp
    then have "set zs = set k0 \<union> set p0 \<union> (\<lambda>x. x + ?z) ` set p0" unfolding merged_def by simp
    then have "set k0 \<subseteq> set zs" "set p0 \<subseteq> set zs" by simp_all blast+
    moreover have "x \<notin> set zs" "y \<notin> set zs" using lt by auto
    ultimately have nin: "x \<notin> set k0" "x \<notin> set p0" "y \<notin> set k0" by blast+
    note I = IH [unfolded merged_def]
    have "set (x # y # zs) = set k0 \<union> set (x # p0) \<union> (\<lambda>x. x + ?z) ` set (x # p0)"
      using I y(2) by (simp add: Un_insert_right insert_commute)
    moreover have "set k0 \<inter> (set (x # p0) \<union> (\<lambda>x. x + ?z) ` set (x # p0)) = {}"
      using I nin y(2) by (simp add: Int_Un_distrib)
    ultimately show ?thesis using I nin y(1) unfolding merged_def kp by simp
  next
    case False
    obtain k0 p0 where m0: "merge_pairs ?z (y # zs) = (k0, p0)" by fastforce
    with "1.prems"(3) False have kp: "k = x # k0" "p = p0" by auto
    have IH: "merged m (y # zs) k0 p0" using "1.hyps"(2) [OF False _ _ m0] "1.prems" by simp
    then have un: "set k0 \<union> set p0 \<union> (\<lambda>x. x + ?z) ` set p0 = insert y (set zs)"
      unfolding merged_def by simp
    have sub: "\<forall>w\<in>set k0 \<union> set p0 \<union> (\<lambda>x. x + ?z) ` set p0. x < w \<and> y \<le> w"
      unfolding un using lt by auto
    have "x + ?z \<notin> set k0" if "2 ^ Suc m dvd x"
    proof
      assume "x + ?z \<in> set k0"
      with sub have "y \<le> x + ?z" by blast
      with dv lt(1) have "y = x + ?z" by (rule next_multiple)
      with False that xor_right_buddy [OF dv(1) lt(1)] show False by simp
    qed
    moreover have "x \<notin> set k0" "x \<notin> set p0" "x \<notin> (\<lambda>x. x + ?z) ` set p0" using sub by blast+
    moreover have "\<forall>w\<in>set k0. w + ?z \<noteq> x" using sub by force
    ultimately show ?thesis using IH unfolding merged_def kp by simp
  qed
qed (auto simp: merged_def)

section \<open>Free lists and the tiling of the arena\<close>

definition free_set :: "nat list list \<Rightarrow> block set" where
  "free_set fr = {(x, k). k < length fr \<and> x \<in> set (fr ! k)}"

text \<open>The free lists together with the blocks in use, \<open>A\<close>, tile the arena.\<close>

definition lists_ok :: "nat \<Rightarrow> nat \<Rightarrow> nat list list \<Rightarrow> block set \<Rightarrow> bool" where
  "lists_ok u N fr A \<longleftrightarrow>
     (\<forall>k<length fr. distinct (fr ! k)) \<and> free_set fr \<inter> A = {} \<and> tiling u N (free_set fr \<union> A)"

lemma free_set_mem [simp]: "(x, k) \<in> free_set fr \<longleftrightarrow> k < length fr \<and> x \<in> set (fr ! k)"
  by (simp add: free_set_def)

lemma free_set_push: "k < length fr \<Longrightarrow> free_set (fr[k := fr ! k @ [x]]) = insert (x, k) (free_set fr)"
  by (auto simp: free_set_def nth_list_update split: if_splits)

lemma lists_ok_distinct_upd:
  "lists_ok u N fr A \<Longrightarrow> distinct l \<Longrightarrow> \<forall>j<length fr. distinct (fr[k := l] ! j)"
  by (cases "k < length fr") (auto simp: lists_ok_def nth_list_update)

lemma lists_ok_push:
  assumes ok: "lists_ok u N fr (insert (x, k) A)" and "(x, k) \<notin> A" and k: "k < length fr"
  shows "lists_ok u N (fr[k := fr ! k @ [x]]) A"
proof -
  have nin: "(x, k) \<notin> free_set fr" using ok unfolding lists_ok_def by blast
  then have "distinct (fr ! k @ [x])" using ok k by (auto simp: lists_ok_def)
  from lists_ok_distinct_upd [OF ok this]
  have d: "\<forall>j<length fr. distinct (fr[k := fr ! k @ [x]] ! j)" .
  show ?thesis
    using ok d assms(2) unfolding lists_ok_def by (simp add: free_set_push [OF k])
qed

lemma lists_ok_pop:
  assumes ok: "lists_ok u N fr A" and k: "k < length fr" and ne: "fr ! k \<noteq> []"
  defines "x \<equiv> last (fr ! k)"
  shows "lists_ok u N (fr[k := butlast (fr ! k)]) (insert (x, k) A)" and "(x, k) \<notin> A"
proof -
  have l: "fr ! k = butlast (fr ! k) @ [x]" using ne by (simp add: x_def)
  have "distinct (fr ! k)" using ok k by (simp add: lists_ok_def)
  then have d: "distinct (butlast (fr ! k))" "x \<notin> set (butlast (fr ! k))"
    using l by (metis distinct_append, metis disjoint_insert(1) distinct_append list.set(2))
  let ?fr = "fr[k := butlast (fr ! k)]"
  have fs: "free_set fr = insert (x, k) (free_set ?fr)"
    using free_set_push [of k ?fr x] k l by simp
  have nin: "(x, k) \<notin> free_set ?fr" using d k by simp
  show "(x, k) \<notin> A" using ok fs unfolding lists_ok_def by blast
  show "lists_ok u N ?fr (insert (x, k) A)"
    using ok fs nin lists_ok_distinct_upd [OF ok d(1), of k] unfolding lists_ok_def by simp
qed

lemma split_loop_ok:
  assumes "lists_ok u N fr (insert (x, f) A)" "(x, f) \<notin> A" "f \<le> length fr" "n \<le> f" "0 < u"
  shows "\<exists>fr'. split_loop u n x f fr = Some fr' \<and> length fr' = length fr \<and>
    free_set fr' = free_set fr \<union> halves u x n f \<and>
    lists_ok u N fr' (insert (x, n) A) \<and> (x, n) \<notin> A"
  using assms
proof (induction f arbitrary: fr)
  case 0
  then show ?case by (simp add: split_loop.simps halves_def)
next
  case (Suc f)
  show ?case
  proof (cases "n = Suc f")
    case True
    with Suc.prems show ?thesis by (simp add: split_loop.simps halves_def)
  next
    case False
    then have n: "n \<le> f" using Suc.prems(4) by simp
    let ?y = "x + u * 2 ^ f" and ?fr = "fr[f := fr ! f @ [x + u * 2 ^ f]]"
    have f: "f < length fr" using Suc.prems(3) by simp
    have T: "tiling u N (insert (x, Suc f) (free_set fr \<union> A))" "(x, Suc f) \<notin> free_set fr \<union> A"
      using Suc.prems(1,2) by (auto simp: lists_ok_def)
    note T' = tiling_split [OF T]
    have nin: "b \<notin> free_set fr \<union> A" if "x \<in> span u b \<or> ?y \<in> span u b" "b \<noteq> (x, Suc f)" for b
      using tilingD(2) [OF T(1), of b "(x, Suc f)" x] tilingD(2) [OF T(1), of b "(x, Suc f)" ?y]
        that \<open>0 < u\<close> by (auto simp: algebra_simps)
    have x: "(x, f) \<notin> free_set fr \<union> A" and y: "(?y, f) \<notin> free_set fr \<union> A"
      using nin [of "(x, f)"] nin [of "(?y, f)"] \<open>0 < u\<close> by auto
    have "lists_ok u N fr (insert (?y, f) (insert (x, f) A))"
      using Suc.prems(1) T' x y unfolding lists_ok_def by (simp add: insert_commute)
    moreover have "(?y, f) \<notin> insert (x, f) A" using y \<open>0 < u\<close> by simp
    ultimately have ok: "lists_ok u N ?fr (insert (x, f) A)" using f by (rule lists_ok_push)
    have h: "halves u x n (Suc f) = insert (?y, f) (halves u x n f)"
      using n by (auto simp: halves_def le_Suc_eq atLeastLessThanSuc)
    have "split_loop u n x (Suc f) fr = split_loop u n x f ?fr"
      using False n f by (subst split_loop.simps) (simp add: vec_push_at_def)
    moreover have "(x, f) \<notin> A" "f \<le> length ?fr" using x f by auto
    ultimately show ?thesis
      using Suc.IH [OF ok _ _ n \<open>0 < u\<close>] free_set_push [OF f, of ?y] h by auto
  qed
qed

text \<open>Merging all buddy pairs of one order keeps the tiling and leaves no pair of that order.\<close>

lemma merged_tiling:
  assumes T: "tiling u N (R \<union> (\<lambda>x. (x, j)) ` set l)" and dj: "R \<inter> (\<lambda>x. (x, j)) ` set l = {}"
    and m: "merged m l k p" and u: "u * 2 ^ j = 2 ^ m"
  shows "tiling u N (R \<union> (\<lambda>x. (x, j)) ` set k \<union> (\<lambda>x. (x, Suc j)) ` set p)"
proof (rule tiling_replace [where R = "(\<lambda>x. (x, j)) ` (set p \<union> (\<lambda>x. x + 2 ^ m) ` set p)"])
  let ?P = "set p \<union> (\<lambda>x. x + 2 ^ m) ` set p"
  have l: "set l = set k \<union> ?P" and kp: "set k \<inter> ?P = {}"
    and ev: "\<forall>x\<in>set p. 2 ^ Suc m dvd x" using m by (auto simp: merged_def)
  show T1: "tiling u N (R \<union> (\<lambda>x. (x, j)) ` set k \<union> (\<lambda>x. (x, j)) ` ?P)"
    using T unfolding l by (simp add: image_Un Un_assoc)
  show "(R \<union> (\<lambda>x. (x, j)) ` set k) \<inter> (\<lambda>x. (x, j)) ` ?P = {}"
    using dj kp unfolding l by blast
  have sp: "span u (x, Suc j) = span u (x, j) \<union> span u (x + 2 ^ m, j)" for x
    using span_Suc [of u x j] u by simp
  show "aligned u b" if "b \<in> (\<lambda>x. (x, Suc j)) ` set p" for b
    using that ev u by (auto simp: mult.left_commute [of u])
  show "(\<Union>b\<in>(\<lambda>x. (x, Suc j)) ` set p. span u b) = (\<Union>b\<in>(\<lambda>x. (x, j)) ` ?P. span u b)"
    by (auto simp: sp simp del: span_mem)
  show "span u b \<inter> span u c = {}"
    if b: "b \<in> (\<lambda>x. (x, Suc j)) ` set p" and c: "c \<in> (\<lambda>x. (x, Suc j)) ` set p" and ne: "b \<noteq> c" for b c
  proof -
    obtain x y where x: "b = (x, Suc j)" "x \<in> set p" and y: "c = (y, Suc j)" "y \<in> set p"
      using b c by blast
    have odd: "\<not> 2 ^ Suc m dvd v + 2 ^ m" if "2 ^ Suc m dvd v" for v :: nat
      using that by (auto simp: dvd_add_right_iff dest!: dvd_imp_le)
    have xy: "x \<noteq> y" "x + 2 ^ m \<noteq> y" "x \<noteq> y + 2 ^ m"
      using ne x y ev odd by metis+
    have "span u (v, j) \<inter> span u (w, j) = {}" if "v = x \<or> v = x + 2 ^ m" "w = y \<or> w = y + 2 ^ m" for v w
    proof (rule tiling_disjoint [OF T1])
      show "(v, j) \<in> R \<union> (\<lambda>x. (x, j)) ` set k \<union> (\<lambda>x. (x, j)) ` ?P"
        "(w, j) \<in> R \<union> (\<lambda>x. (x, j)) ` set k \<union> (\<lambda>x. (x, j)) ` ?P" using that x(2) y(2) by auto
      show "(v, j) \<noteq> (w, j)" using that xy by auto
    qed
    then show ?thesis unfolding x y sp by blast
  qed
qed

lemma lists_ok_merge:
  assumes ok: "lists_ok u N fr A" and u: "u * 2 ^ j = 2 ^ m" and j: "Suc j < length fr"
    and m: "merged m l k p" and l: "set l = set (fr ! j)"
  defines "fr' \<equiv> fr[j := k, Suc j := fr ! Suc j @ p]"
  shows "lists_ok u N fr' A" and "\<not> buddies u (free_set fr') x j"
proof -
  have "0 < u" using u by (cases u) auto
  let ?R = "{b \<in> free_set fr. snd b \<noteq> j} \<union> A"
  have T: "tiling u N (free_set fr \<union> A)" and dA: "free_set fr \<inter> A = {}"
    and dist: "\<forall>i<length fr. distinct (fr ! i)" using ok by (auto simp: lists_ok_def)
  have old: "free_set fr = {b \<in> free_set fr. snd b \<noteq> j} \<union> (\<lambda>x. (x, j)) ` set l"
    using j by (auto simp: l)
  have new: "free_set fr' = {b \<in> free_set fr. snd b \<noteq> j} \<union> (\<lambda>x. (x, j)) ` set k \<union> (\<lambda>x. (x, Suc j)) ` set p"
    using j by (auto simp: fr'_def nth_list_update split: if_splits)
  have sub: "set k \<subseteq> set (fr ! j)" "set p \<subseteq> set (fr ! j)" using m l by (auto simp: merged_def)
  have fresh: "(x, Suc j) \<notin> free_set fr \<union> A" if "x \<in> set p" for x
    using tilingD(2) [OF T, of "(x, j)" "(x, Suc j)" x] that sub(2) j \<open>0 < u\<close> by auto
  have "?R \<union> (\<lambda>x. (x, j)) ` set l = free_set fr \<union> A" using old by blast
  moreover have "?R \<inter> (\<lambda>x. (x, j)) ` set l = {}" using old dA by auto
  ultimately have "tiling u N (?R \<union> (\<lambda>x. (x, j)) ` set k \<union> (\<lambda>x. (x, Suc j)) ` set p)"
    using merged_tiling [OF _ _ m u] T by simp
  then have "tiling u N (free_set fr' \<union> A)" by (simp add: new Un_ac)
  moreover have "(\<lambda>x. (x, j)) ` set k \<subseteq> free_set fr" using sub(1) j by auto
  then have "free_set fr' \<inter> A = {}"
    using dA fresh unfolding new by blast
  moreover have "distinct (fr' ! i)" if "i < length fr'" for i
    using that dist m fresh j by (auto simp: fr'_def nth_list_update merged_def)
  ultimately show "lists_ok u N fr' A" unfolding lists_ok_def by blast
  show "\<not> buddies u (free_set fr') x j"
    using m u j by (auto simp: buddies_def merged_def fr'_def mult.left_commute [of u])
qed

lemma coalesce_order_ok:
  assumes ok: "lists_ok u N fr A" and u: "u = 2 ^ s" and j: "Suc j < length fr"
  obtains fr' where "coalesce_order u j fr = Some fr'" "length fr' = length fr"
    "lists_ok u N fr' A" "\<forall>x. \<not> buddies u (free_set fr') x j"
    "\<forall>i. i \<noteq> j \<longrightarrow> i \<noteq> Suc j \<longrightarrow> fr' ! i = fr ! i"
proof (cases "length (fr ! j) < 2")
  case True
  have "\<not> buddies u (free_set fr) x j" for x
  proof
    assume "buddies u (free_set fr) x j"
    then have "x \<in> set (fr ! j)" "x + u * 2 ^ j \<in> set (fr ! j)" by (auto simp: buddies_def)
    moreover have "x \<noteq> x + u * 2 ^ j" using u by simp
    moreover from this have "card {x, x + u * 2 ^ j} = 2" by (simp only: card_2_iff) blast
    ultimately have "2 \<le> card (set (fr ! j))"
      using card_mono [of "set (fr ! j)" "{x, x + u * 2 ^ j}"] by simp
    with True card_length [of "fr ! j"] show False by simp
  qed
  with True ok j that [of fr] show thesis by (simp add: coalesce_order_def)
next
  case False
  let ?l = "sort (fr ! j)"
  obtain k p where kp: "merge_pairs (u * 2 ^ j) ?l = (k, p)" by fastforce
  let ?fr = "fr[j := k, Suc j := fr ! Suc j @ p]"
  have z: "u * 2 ^ j = 2 ^ (s + j)" by (simp add: u power_add)
  have T: "tiling u N (free_set fr \<union> A)" and "distinct (fr ! j)"
    using ok j by (auto simp: lists_ok_def)
  have "\<forall>x\<in>set ?l. 2 ^ (s + j) dvd x"
    using tilingD(1) [OF T] j z by (metis (no_types, lifting) Suc_lessD UnI1 aligned_iff free_set_mem set_sort)
  moreover have "sorted_wrt (<) ?l" using \<open>distinct (fr ! j)\<close> by (simp add: strict_sorted_iff)
  ultimately have m: "merged (s + j) ?l k p" using kp z by (intro merge_pairs_merged) auto
  have "coalesce_scan (u * 2 ^ j) ?l (fr ! Suc j) 0 0 = (k, fr ! Suc j @ p)"
    using coalesce_scan_eq [of 0 0] kp by simp
  then have run: "coalesce_order u j fr = Some ?fr"
    using False j by (simp add: coalesce_order_def)
  show thesis
    by (rule that [OF run]) (use lists_ok_merge [OF ok z j m] in auto)
qed
text \<open>The whole pass: no pair of an order below the target survives, lists above it are unchanged.\<close>

lemma buddies_list_cong: "fr' ! k = fr ! k \<Longrightarrow> length fr' = length fr \<Longrightarrow>
    buddies u (free_set fr') x k = buddies u (free_set fr) x k"
  by (simp add: buddies_def)

lemma coalesce_lists_ok:
  assumes "lists_ok u N fr A" "u = 2 ^ s" "t < length fr"
  shows "\<exists>fr'. coalesce_lists u t fr = Some fr' \<and> length fr' = length fr \<and> lists_ok u N fr' A \<and>
    (\<forall>k<t. \<forall>x. \<not> buddies u (free_set fr') x k) \<and> (\<forall>i>t. fr' ! i = fr ! i)"
  using assms(3)
proof (induction t)
  case (Suc t)
  then obtain fr1 where 1: "coalesce_lists u t fr = Some fr1" "length fr1 = length fr"
    "lists_ok u N fr1 A" "\<forall>k<t. \<forall>x. \<not> buddies u (free_set fr1) x k" "\<forall>i>t. fr1 ! i = fr ! i" by auto
  with Suc.prems obtain fr2 where 2: "coalesce_order u t fr1 = Some fr2" "length fr2 = length fr1"
    "lists_ok u N fr2 A" "\<forall>x. \<not> buddies u (free_set fr2) x t"
    "\<forall>i. i \<noteq> t \<longrightarrow> i \<noteq> Suc t \<longrightarrow> fr2 ! i = fr1 ! i"
    using coalesce_order_ok [OF 1(3) assms(2), of t] by metis
  have "\<not> buddies u (free_set fr2) x k" if "k < Suc t" for x k
    using that 1(4) 2 buddies_list_cong [of fr2 k fr1] by (cases "k = t") auto
  with 1 2 show ?case by auto
qed (use assms in auto)

section \<open>Invariant\<close>

definition buddy_cfg :: "buddy \<Rightarrow> bool" where
  "buddy_cfg b \<longleftrightarrow>
     b_min_block b = 2 ^ b_min_shift b \<and> b_max_block b = 2 ^ (b_min_shift b + b_max_order b) \<and>
     ALLOCATOR_HEADER_SIZE < b_min_block b \<and>
     0 < b_arena_size b \<and> b_max_block b dvd b_arena_size b \<and> b_arena_size b \<le> usize_max \<and>
     length (b_free b) = Suc (b_max_order b)"

definition live_set :: "(nat \<rightharpoonup> nat) \<Rightarrow> block set" where
  "live_set M = {(x, k). M x = Some k}"

text \<open>\<open>M\<close> is the ghost map of live blocks, block offset to order. Free and live blocks tile the arena,
  every live block carries its header, and while \<open>needs_coalesce\<close> is unset no two free buddies
  below the maximum order wait to be merged.\<close>

definition buddy_ok :: "buddy \<Rightarrow> arena \<Rightarrow> (nat \<rightharpoonup> nat) \<Rightarrow> bool" where
  "buddy_ok b ar M \<longleftrightarrow>
     buddy_cfg b \<and> alen ar = b_arena_size b \<and>
     lists_ok (b_min_block b) (b_arena_size b) (b_free b) (live_set M) \<and>
     (\<forall>x k. M x = Some k \<longrightarrow> k \<le> b_max_order b \<and> read_header ar x = Some (MAGIC, k)) \<and>
     (\<not> b_needs_coalesce b \<longrightarrow>
        (\<forall>k<b_max_order b. \<forall>x. \<not> buddies (b_min_block b) (free_set (b_free b)) x k))"

definition buddy_shape :: "buddy \<Rightarrow> nat \<times> nat \<times> nat \<times> nat \<times> nat" where
  "buddy_shape b = (b_arena_size b, b_min_block b, b_max_block b, b_min_shift b, b_max_order b)"

lemma live_set_mem [simp]: "(x, k) \<in> live_set M \<longleftrightarrow> M x = Some k"
  by (simp add: live_set_def)

lemma live_set_upd: "M x = None \<Longrightarrow> live_set (M(x \<mapsto> k)) = insert (x, k) (live_set M)"
  by (auto simp: live_set_def split: if_splits)

lemma live_set_del: "M x = Some k \<Longrightarrow> live_set M = insert (x, k) (live_set (M(x := None)))"
  by (auto simp: live_set_def split: if_splits)

lemma live_set_empty [simp]: "live_set Map.empty = {}"
  by (auto simp: live_set_def)

lemma buddy_okD:
  assumes "buddy_ok b ar M"
  shows "buddy_cfg b" "alen ar = b_arena_size b"
    "lists_ok (b_min_block b) (b_arena_size b) (b_free b) (live_set M)"
    "M x = Some k \<Longrightarrow> k \<le> b_max_order b" "M x = Some k \<Longrightarrow> read_header ar x = Some (MAGIC, k)"
    "\<not> b_needs_coalesce b \<Longrightarrow> k < b_max_order b \<Longrightarrow>
      \<not> buddies (b_min_block b) (free_set (b_free b)) x k"
  using assms by (auto simp: buddy_ok_def)

lemma buddy_cfgD:
  assumes "buddy_cfg b"
  shows "0 < b_min_block b" "8 < b_min_block b" "length (b_free b) = Suc (b_max_order b)"
    "b_max_block b = b_min_block b * 2 ^ b_max_order b" "b_max_order b < 64"
    "b_max_block b \<le> b_arena_size b" "b_min_block b \<le> b_max_block b"
proof -
  show "0 < b_min_block b" "8 < b_min_block b" "length (b_free b) = Suc (b_max_order b)"
    "b_max_block b = b_min_block b * 2 ^ b_max_order b"
    using assms by (auto simp: buddy_cfg_def ALLOCATOR_HEADER_SIZE_def power_add)
  show le: "b_max_block b \<le> b_arena_size b"
    using assms by (auto simp: buddy_cfg_def intro: dvd_imp_le)
  have "2 ^ (b_min_shift b + b_max_order b) < (2 :: nat) ^ 64"
    using assms le by (auto simp: buddy_cfg_def usize_max_def)
  then have "b_min_shift b + b_max_order b < 64" by (rule power_less_imp_less_exp [rotated]) simp
  then show "b_max_order b < 64" by simp
  show "b_min_block b \<le> b_max_block b"
    using assms by (simp add: buddy_cfg_def)
qed

lemma buddy_cfg_shape:
  "buddy_cfg b \<Longrightarrow> buddy_shape b' = buddy_shape b \<Longrightarrow> length (b_free b') = length (b_free b) \<Longrightarrow> buddy_cfg b'"
  by (auto simp: buddy_cfg_def buddy_shape_def)

lemma buddy_okI:
  assumes "buddy_cfg b0" "buddy_shape b = buddy_shape b0" "length (b_free b) = length (b_free b0)"
    and "alen ar = b_arena_size b0" "lists_ok (b_min_block b0) (b_arena_size b0) (b_free b) (live_set M)"
    and "\<And>x k. M x = Some k \<Longrightarrow> k \<le> b_max_order b0 \<and> read_header ar x = Some (MAGIC, k)"
    and "\<And>x k. \<not> b_needs_coalesce b \<Longrightarrow> k < b_max_order b0 \<Longrightarrow>
      \<not> buddies (b_min_block b0) (free_set (b_free b)) x k"
  shows "buddy_ok b ar M"
proof -
  have "buddy_cfg b" using assms(1-3) by (rule buddy_cfg_shape)
  moreover have "b_arena_size b = b_arena_size b0" "b_min_block b = b_min_block b0"
    "b_max_order b = b_max_order b0" using assms(2) by (auto simp: buddy_shape_def)
  ultimately show ?thesis unfolding buddy_ok_def using assms(4-7) by auto
qed

section \<open>Orders fit requests\<close>

lemma order_for_spec:
  assumes "buddy_cfg b" "n \<le> b_max_block b"
  obtains k where "order_for b n = Some k" "k \<le> b_max_order b" "n \<le> b_min_block b * 2 ^ k"
    "\<And>j. n \<le> b_min_block b * 2 ^ j \<Longrightarrow> k \<le> j"
proof (cases "n \<le> b_min_block b")
  case True
  then show thesis using that [of 0] by (simp add: order_for_def)
next
  case False
  let ?s = "b_min_shift b" and ?l = "bit_length (n - 1)"
  have u: "b_min_block b * 2 ^ j = 2 ^ (?s + j)" for j
    using assms(1) by (simp add: buddy_cfg_def power_add)
  have fits: "n \<le> b_min_block b * 2 ^ j \<longleftrightarrow> ?l \<le> ?s + j" for j
    using False by (auto simp: u bit_length_le_iff)
  have "\<not> ?l \<le> ?s" using False fits [of 0] by simp
  then have "order_for b n = Some (?l - ?s)" using False by (simp add: order_for_def)
  moreover have "?l - ?s \<le> b_max_order b"
    using fits [of "b_max_order b"] assms buddy_cfgD(4) [OF assms(1)] by simp
  ultimately show thesis
    using that [of "?l - ?s"] fits \<open>\<not> ?l \<le> ?s\<close> by auto
qed

lemma find_free_eq:
  "\<forall>k\<in>set ks. k < length fr \<Longrightarrow> find_free fr ks = Some (List.find (\<lambda>k. fr ! k \<noteq> []) ks)"
  by (induction ks) (auto simp: vec_get_def)

lemma find_free_cases:
  assumes "c \<le> length fr"
  obtains (miss) "find_free fr [a..<c] = Some None" "\<And>k. a \<le> k \<Longrightarrow> k < c \<Longrightarrow> fr ! k = []"
  | (hit) f where "find_free fr [a..<c] = Some (Some f)" "a \<le> f" "f < c" "fr ! f \<noteq> []"
proof -
  have *: "find_free fr [a..<c] = Some (List.find (\<lambda>k. fr ! k \<noteq> []) [a..<c])"
    using assms by (intro find_free_eq) auto
  show thesis
  proof (cases "List.find (\<lambda>k. fr ! k \<noteq> []) [a..<c]")
    case None
    with * show thesis by (intro miss) (auto simp: find_None_iff)
  next
    case (Some f)
    with * show thesis by (intro hit) (auto simp: find_Some_iff)
  qed
qed

section \<open>Allocation\<close>

text \<open>\<open>slot_free\<close>: the aligned range of order \<open>k\<close> at \<open>x\<close> lies in the arena and meets no live block.\<close>

definition slot_free :: "buddy \<Rightarrow> (nat \<rightharpoonup> nat) \<Rightarrow> nat \<Rightarrow> nat \<Rightarrow> bool" where
  "slot_free b M k x \<longleftrightarrow>
     b_min_block b * 2 ^ k dvd x \<and> x + b_min_block b * 2 ^ k \<le> b_arena_size b \<and>
     (\<forall>y j. M y = Some j \<longrightarrow> span (b_min_block b) (y, j) \<inter> span (b_min_block b) (x, k) = {})"

lemma no_slot:
  assumes ok: "buddy_ok b ar M" and "k \<le> b_max_order b"
    and empty: "\<And>j. k \<le> j \<Longrightarrow> j \<le> b_max_order b \<Longrightarrow> b_free b ! j = []"
    and nopair: "\<And>x j. j < k \<Longrightarrow> \<not> buddies (b_min_block b) (free_set (b_free b)) x j"
  shows "\<not> slot_free b M k x"
proof
  assume s: "slot_free b M k x"
  note c = buddy_cfgD [OF buddy_okD(1) [OF ok]]
  have T: "tiling (b_min_block b) (b_arena_size b) (free_set (b_free b) \<union> live_set M)"
    using buddy_okD(3) [OF ok] by (simp add: lists_ok_def)
  have "\<exists>c\<in>live_set M. span (b_min_block b) c \<inter> span (b_min_block b) (x, k) \<noteq> {}"
  proof (rule no_pair_no_slot [OF T c(1) _ nopair])
    show "j < k" if "(y, j) \<in> free_set (b_free b)" for y j
      using that empty [of j] c(3) by (cases "k \<le> j") auto
  qed (use s in \<open>auto simp: slot_free_def\<close>)
  with s show False by (auto simp: slot_free_def live_set_def simp del: span_mem)
qed

lemma coalesce_until_ok:
  assumes ok: "buddy_ok b ar M" and k: "k \<le> b_max_order b" and nc: "b_needs_coalesce b"
  obtains fr where "coalesce_until b k = Some (b \<lparr> b_free := fr \<rparr>)" "buddy_ok (b \<lparr> b_free := fr \<rparr>) ar M"
    "\<forall>j<k. \<forall>x. \<not> buddies (b_min_block b) (free_set fr) x j"
proof -
  have l: "lists_ok (b_min_block b) (b_arena_size b) (b_free b) (live_set M)"
    by (rule buddy_okD(3) [OF ok])
  have u: "b_min_block b = 2 ^ b_min_shift b"
    using buddy_okD(1) [OF ok] by (simp add: buddy_cfg_def)
  obtain fr where fr: "coalesce_lists (b_min_block b) k (b_free b) = Some fr"
    "length fr = length (b_free b)" "lists_ok (b_min_block b) (b_arena_size b) fr (live_set M)"
    "\<forall>j<k. \<forall>x. \<not> buddies (b_min_block b) (free_set fr) x j"
    using coalesce_lists_ok [OF l u, of k] k buddy_cfgD(3) [OF buddy_okD(1) [OF ok]] by auto
  have "buddy_ok (b \<lparr> b_free := fr \<rparr>) ar M"
    by (rule buddy_okI [of b]) (use buddy_okD(1-5) [OF ok] fr(2,3) nc in \<open>auto simp: buddy_shape_def\<close>)
  with that [of fr] fr(1,4) show thesis by (simp add: coalesce_until_def)
qed

lemma buddy_find_cases:
  assumes ok: "buddy_ok b ar M" and k: "k \<le> b_max_order b"
  obtains (none) b' where "buddy_find b k = Some (b', None)" "buddy_ok b' ar M"
      "buddy_shape b' = buddy_shape b" "\<And>x. \<not> slot_free b M k x"
  | (some) b' f where "buddy_find b k = Some (b', Some f)" "buddy_ok b' ar M"
      "buddy_shape b' = buddy_shape b" "k \<le> f" "f \<le> b_max_order b" "b_free b' ! f \<noteq> []"
proof -
  have len: "Suc (b_max_order b) \<le> length (b_free b)"
    using buddy_cfgD(3) [OF buddy_okD(1) [OF ok]] by simp
  then show thesis
  proof (cases rule: find_free_cases [where a = k])
    case (hit f)
    then show thesis using some [of b f] ok by (simp add: buddy_find_def del: upt_Suc)
  next
    case miss
    show thesis
    proof (cases "b_needs_coalesce b")
      case False
      have "\<not> slot_free b M k x" for x
        by (rule no_slot [OF ok k]) (use miss(2) buddy_okD(6) [OF ok False] k in auto)
      with miss(1) False ok none [of b] show thesis by (simp add: buddy_find_def del: upt_Suc)
    next
      case True
      obtain fr where fr: "coalesce_until b k = Some (b \<lparr> b_free := fr \<rparr>)"
        "buddy_ok (b \<lparr> b_free := fr \<rparr>) ar M"
        "\<forall>j<k. \<forall>x. \<not> buddies (b_min_block b) (free_set fr) x j"
        using coalesce_until_ok [OF ok k True] .
      let ?b = "b \<lparr> b_free := fr \<rparr>"
      have "Suc (b_max_order b) \<le> length fr"
        using buddy_cfgD(3) [OF buddy_okD(1) [OF fr(2)]] by simp
      then show thesis
      proof (cases rule: find_free_cases [where a = k])
        case (hit f)
        then show thesis
          using some [of ?b f] fr miss(1) True by (simp add: buddy_find_def buddy_shape_def del: upt_Suc)
      next
        case m: miss
        have pairs: "\<not> buddies (b_min_block b) (free_set fr) x j" if "j < b_max_order b" for x j
          using fr(3) m(2) [of j] that by (cases "j < k") (auto simp: buddies_def)
        have "\<not> slot_free ?b M k x" for x
          by (rule no_slot [OF fr(2)]) (use k m(2) fr(3) in auto)
        then have "\<not> slot_free b M k x" for x by (simp add: slot_free_def)
        moreover have "buddy_ok (?b \<lparr> b_needs_coalesce := False \<rparr>) ar M"
          by (rule buddy_okI [OF buddy_okD(1) [OF fr(2)]])
            (use buddy_okD(2-5) [OF fr(2)] pairs in \<open>auto simp: buddy_shape_def\<close>)
        ultimately show thesis
          using none [of "?b \<lparr> b_needs_coalesce := False \<rparr>"] fr(1) miss(1) m(1) True
          by (simp add: buddy_find_def buddy_shape_def del: upt_Suc)
      qed
    qed
  qed
qed

lemma live_bound:
  assumes "buddy_ok b ar M" "M x = Some k"
  shows "x + b_min_block b * 2 ^ k \<le> b_arena_size b" "b_min_block b * 2 ^ k dvd x"
    "b_min_block b \<le> b_min_block b * 2 ^ k" "x + 8 < x + b_min_block b * 2 ^ k"
proof -
  have T: "tiling (b_min_block b) (b_arena_size b) (free_set (b_free b) \<union> live_set M)"
    using buddy_okD(3) [OF assms(1)] by (simp add: lists_ok_def)
  have u: "8 < b_min_block b" using buddy_cfgD(2) [OF buddy_okD(1) [OF assms(1)]] .
  show "x + b_min_block b * 2 ^ k \<le> b_arena_size b"
    using tiling_bound [OF T, of x k] assms(2) u by simp
  show "b_min_block b * 2 ^ k dvd x" using tilingD(1) [OF T, of "(x, k)"] assms(2) by simp
  show *: "b_min_block b \<le> b_min_block b * 2 ^ k" by simp
  show "x + 8 < x + b_min_block b * 2 ^ k" using u * by linarith
qed

lemma live_disjoint:
  assumes "buddy_ok b ar M" "M x = Some k" "M y = Some j" "x \<noteq> y"
  shows "{x..<x + b_min_block b * 2 ^ k} \<inter> {y..<y + b_min_block b * 2 ^ j} = {}"
proof -
  have T: "tiling (b_min_block b) (b_arena_size b) (free_set (b_free b) \<union> live_set M)"
    using buddy_okD(3) [OF assms(1)] by (simp add: lists_ok_def)
  show ?thesis using tiling_disjoint [OF T, of "(x, k)" "(y, j)"] assms(2-4) by (simp add: span_def)
qed

text \<open>Splitting creates no pair of free buddies.\<close>

lemma halves_no_pair:
  assumes ok: "lists_ok u N fr (insert (x, n) A)" and F: "free_set fr = F \<union> halves u x n f"
    and al: "u * 2 ^ f dvd x" and "0 < u" and b: "buddies u (free_set fr) y j"
  shows "buddies u F y j"
proof -
  let ?z = "u * 2 ^ j"
  have T: "tiling u N (insert (x, n) (free_set fr \<union> A))" and dj: "(x, n) \<notin> free_set fr"
    using ok by (auto simp: lists_ok_def)
  have y: "(y, j) \<in> free_set fr" "(y + ?z, j) \<in> free_set fr" "u * 2 ^ Suc j dvd y"
    using b by (auto simp: buddies_def)
  have "(y, j) \<notin> halves u x n f"
  proof
    assume "(y, j) \<in> halves u x n f"
    then have y': "y = x + ?z" "j < f" by (auto simp: halves_def)
    have "u * 2 ^ Suc j dvd u * 2 ^ f" using y'(2) by (intro mult_dvd_mono le_imp_power_dvd) auto
    then have "u * 2 ^ Suc j dvd x" using al by (rule dvd_trans)
    then have "u * 2 ^ Suc j dvd ?z" using y(3) y'(1) by (simp add: dvd_add_right_iff)
    then have "u * 2 ^ Suc j \<le> ?z" using \<open>0 < u\<close> by (simp add: dvd_imp_le)
    then show False using \<open>0 < u\<close> by simp
  qed
  moreover have "(y + ?z, j) \<notin> halves u x n f"
  proof
    assume "(y + ?z, j) \<in> halves u x n f"
    then have "y = x" by (auto simp: halves_def)
    then have "(x, j) = (x, n)" using tilingD(2) [OF T, of "(x, j)" "(x, n)" x] y(1) \<open>0 < u\<close> by auto
    with dj y(1) \<open>y = x\<close> show False by simp
  qed
  ultimately show ?thesis using y F by (auto simp: buddies_def)
qed

lemma carve_lists:
  assumes ok: "buddy_ok b ar M" and "k \<le> f" and f: "f \<le> b_max_order b" and ne: "b_free b ! f \<noteq> []"
  defines "x \<equiv> last (b_free b ! f)" and "fr \<equiv> (b_free b)[f := butlast (b_free b ! f)]"
  obtains fr' where "split_loop (b_min_block b) k x f fr = Some fr'" "length fr' = length (b_free b)"
    "lists_ok (b_min_block b) (b_arena_size b) fr' (live_set (M(x \<mapsto> k)))" "M x = None" "slot_free b M k x"
    "\<forall>y j. buddies (b_min_block b) (free_set fr') y j \<longrightarrow> buddies (b_min_block b) (free_set (b_free b)) y j"
proof -
  let ?u = "b_min_block b" and ?N = "b_arena_size b"
  note c = buddy_cfgD [OF buddy_okD(1) [OF ok]]
  have fl: "f < length (b_free b)" using f c(3) by simp
  have pop: "lists_ok ?u ?N fr (insert (x, f) (live_set M))" "(x, f) \<notin> live_set M"
    using lists_ok_pop [OF buddy_okD(3) [OF ok] fl ne] by (auto simp: x_def fr_def)
  obtain fr' where sp: "split_loop ?u k x f fr = Some fr'" "length fr' = length fr"
    "free_set fr' = free_set fr \<union> halves ?u x k f"
    "lists_ok ?u ?N fr' (insert (x, k) (live_set M))" "(x, k) \<notin> live_set M"
    using split_loop_ok [OF pop _ assms(2) c(1)] fl by (auto simp: fr_def)
  have T: "tiling ?u ?N (free_set fr' \<union> insert (x, k) (live_set M))" using sp(4) by (simp add: lists_ok_def)
  have Mx: "M x = None"
  proof (rule ccontr)
    assume "M x \<noteq> None"
    then obtain j where "M x = Some j" by auto
    then have "(x, j) = (x, k)" using tilingD(2) [OF T, of "(x, j)" "(x, k)" x] c(1) by auto
    with \<open>M x = Some j\<close> sp(5) show False by simp
  qed
  have "span ?u (y, j) \<inter> span ?u (x, k) = {}" if "M y = Some j" for y j
    using tiling_disjoint [OF T, of "(y, j)" "(x, k)"] that sp(5) by fastforce
  then have slot: "slot_free b M k x"
    using tilingD(1) [OF T, of "(x, k)"] tiling_bound [OF T, of x k] c(1) by (simp add: slot_free_def del: span_mem)
  have "?u * 2 ^ f dvd x"
    using pop(1) tilingD(1) [of ?u ?N "free_set fr \<union> insert (x, f) (live_set M)" "(x, f)"]
    by (simp add: lists_ok_def)
  moreover have "free_set fr \<subseteq> free_set (b_free b)"
    using fl by (auto simp: fr_def nth_list_update in_set_butlastD split: if_splits)
  ultimately have "buddies ?u (free_set fr') y j \<Longrightarrow> buddies ?u (free_set (b_free b)) y j" for y j
    using halves_no_pair [OF sp(4,3) _ c(1), of y j] buddies_mono by blast
  with that [of fr'] sp Mx slot live_set_upd [of M x k, OF Mx] show thesis by (simp add: fr_def)
qed

lemma buddy_carve_ok:
  assumes ok: "buddy_ok b ar M" and kf: "k \<le> f" and f: "f \<le> b_max_order b" and ne: "b_free b ! f \<noteq> []"
  defines "x \<equiv> last (b_free b ! f)"
  shows "\<exists>b' ar'. buddy_carve b ar sz k f = Some (b', ar',
      Some \<lparr> block_offset = x, data_offset = x + 8, al_len = sz, al_cap = b_min_block b * 2 ^ k - 8 \<rparr>) \<and>
    buddy_ok b' ar' (M(x \<mapsto> k)) \<and> buddy_shape b' = buddy_shape b \<and> same_outside {x..<x + 8} ar ar' \<and>
    M x = None \<and> slot_free b M k x"
proof -
  let ?u = "b_min_block b" and ?N = "b_arena_size b"
  note c = buddy_cfgD [OF buddy_okD(1) [OF ok]]
  have fl: "f < length (b_free b)" using f c(3) by simp
  obtain fr' where fr: "split_loop ?u k x f ((b_free b)[f := butlast (b_free b ! f)]) = Some fr'"
    "length fr' = length (b_free b)" "lists_ok ?u ?N fr' (live_set (M(x \<mapsto> k)))" "M x = None" "slot_free b M k x"
    "\<forall>y j. buddies ?u (free_set fr') y j \<longrightarrow> buddies ?u (free_set (b_free b)) y j"
    using carve_lists [OF ok kf f ne] unfolding x_def .
  have "?u \<le> ?u * 2 ^ k" by simp
  then have hd: "x + 8 < x + ?u * 2 ^ k" using c(2) by linarith
  then have "x + 8 \<le> alen ar" using fr(5) buddy_okD(2) [OF ok] by (simp add: slot_free_def)
  then obtain ar' where w: "write_header ar x k = Some ar'" by (rule write_header_total)
  have hdr: "j \<le> b_max_order b \<and> read_header ar' y = Some (MAGIC, j)" if "(M(x \<mapsto> k)) y = Some j" for y j
  proof (cases "y = x")
    case True
    have "k < 2 ^ 32" using kf f c(5) by (simp add: less_trans [of k 64])
    with True that read_write_header [OF w] buddy_okD(1,2) [OF ok] kf f show ?thesis
      by (simp add: buddy_cfg_def)
  next
    case False
    with that have y: "M y = Some j" by simp
    have "{y..<y + 8} \<inter> {x..<x + 8} = {}"
      using fr(5) y live_bound(4) [OF ok y] hd unfolding slot_free_def span_def by fastforce
    with y buddy_okD(4,5) [OF ok y] read_header_frame [OF write_header_frame [OF w]] show ?thesis by simp
  qed
  let ?b = "b \<lparr> b_free := fr' \<rparr>"
  have "buddy_ok ?b ar' (M(x \<mapsto> k))"
  proof (rule buddy_okI [of b])
    show "\<not> buddies ?u (free_set (b_free ?b)) y j" if "\<not> b_needs_coalesce ?b" "j < b_max_order b" for y j
      using fr(6) buddy_okD(6) [OF ok _ that(2)] that(1) by auto
  qed (use hdr fr(2,3) buddy_okD(1,2) [OF ok] same_outside_alen [OF write_header_frame [OF w]]
       in \<open>auto simp: buddy_shape_def simp del: fun_upd_apply\<close>)
  moreover have "buddy_carve b ar sz k f = Some (?b, ar',
      Some \<lparr> block_offset = x, data_offset = x + 8, al_len = sz, al_cap = ?u * 2 ^ k - 8 \<rparr>)"
    using fl ne fr(1) w hd
    by (simp add: buddy_carve_def vec_get_def vec_pop_def vec_set_def checked_sub_def ALLOCATOR_HEADER_SIZE_def x_def)
  ultimately show ?thesis
    using fr(4,5) write_header_frame [OF w] by (auto simp: buddy_shape_def)
qed

text \<open>The outcome of \<open>alloc\<close> for a request the arena can serve in principle: the block has the smallest
  order that fits, and the request fails exactly when no slot of that order is free of live blocks.\<close>

lemma buddy_alloc_cases:
  assumes ok: "buddy_ok b ar M" and sz: "0 < sz" "sz + 8 \<le> b_max_block b"
  obtains (none) b' k where "buddy_alloc b ar sz = Some (b', ar, None)" "buddy_ok b' ar M"
      "buddy_shape b' = buddy_shape b" "order_for b (sz + 8) = Some k" "\<And>x. \<not> slot_free b M k x"
  | (some) b' ar' k x where
      "buddy_alloc b ar sz = Some (b', ar', Some \<lparr> block_offset = x, data_offset = x + 8, al_len = sz,
         al_cap = b_min_block b * 2 ^ k - 8 \<rparr>)"
      "buddy_ok b' ar' (M(x \<mapsto> k))" "buddy_shape b' = buddy_shape b" "same_outside {x..<x + 8} ar ar'"
      "M x = None" "slot_free b M k x" "order_for b (sz + 8) = Some k" "sz \<le> b_min_block b * 2 ^ k - 8"
proof -
  obtain k where k: "order_for b (sz + 8) = Some k" "k \<le> b_max_order b" "sz + 8 \<le> b_min_block b * 2 ^ k"
    using order_for_spec [OF buddy_okD(1) [OF ok] sz(2)] by metis
  have "\<not> b_max_block b - 8 < sz" "8 \<le> b_max_block b" using sz by simp_all
  then have red: "buddy_alloc b ar sz = do {
      (b', found) \<leftarrow> buddy_find b k;
      case found of None \<Rightarrow> Some (b', ar, None) | Some f \<Rightarrow> buddy_carve b' ar sz k f }"
    using sz(1) k(1) buddy_okD(2) [OF ok]
    by (simp add: buddy_alloc_def ALLOCATOR_HEADER_SIZE_def checked_sub_def)
  show thesis
  proof (cases rule: buddy_find_cases [OF ok k(2)])
    case (1 b')
    then show thesis using none [of b' k] red k(1) by simp
  next
    case (2 b' f)
    have eq: "b_min_block b' = b_min_block b" "b_max_order b' = b_max_order b" "b_arena_size b' = b_arena_size b"
      using 2(3) by (auto simp: buddy_shape_def)
    then show thesis
      using buddy_carve_ok [OF 2(2,4) _ 2(6), of sz] 2 red k some by (auto simp: slot_free_def)
  qed
qed

section \<open>A fresh arena\<close>

lemma init_lists:
  fixes q :: nat
  assumes mx: "u * 2 ^ m = mx" and "0 < u"
  defines "fr \<equiv> (replicate (Suc m) [])[m := map (\<lambda>i. i * mx) [0..<q]]"
  shows "lists_ok u (q * mx) fr {}" and "k < m \<Longrightarrow> \<not> buddies u (free_set fr) x k"
proof -
  have "0 < mx" using mx \<open>0 < u\<close> by auto
  have len: "length fr = Suc m" by (simp add: fr_def del: replicate_Suc)
  have at: "fr ! j = (if j = m then map (\<lambda>i. i * mx) [0..<q] else [])" if "j < Suc m" for j
    using that by (simp add: fr_def nth_list_update del: replicate_Suc)
  have fs: "free_set fr = (\<lambda>i. (i * mx, m)) ` {0..<q}"
    using \<open>0 < mx\<close> by (auto simp: len at less_Suc_eq image_iff split: if_splits)
  have dist: "\<forall>j<length fr. distinct (fr ! j)"
    using \<open>0 < mx\<close> by (auto simp: len at distinct_map inj_on_def)
  have sp: "span u (i * mx, m) = {i * mx..<i * mx + mx}" for i by (simp add: span_def mx)
  have "tiling u (q * mx) (free_set fr)"
    unfolding tiling_def fs
  proof (intro conjI ballI impI)
    show "aligned u b" if "b \<in> (\<lambda>i. (i * mx, m)) ` {0..<q}" for b using that mx by auto
    show "span u b \<inter> span u c = {}"
      if b: "b \<in> (\<lambda>i. (i * mx, m)) ` {0..<q}" and c: "c \<in> (\<lambda>i. (i * mx, m)) ` {0..<q}" and "b \<noteq> c" for b c
    proof -
      obtain i j where ij: "b = (i * mx, m)" "c = (j * mx, m)" using b c by blast
      with \<open>b \<noteq> c\<close> have "i \<noteq> j" by blast
      have "Suc i \<le> j \<or> Suc j \<le> i" using \<open>i \<noteq> j\<close> by linarith
      then have "i * mx + mx \<le> j * mx \<or> j * mx + mx \<le> i * mx"
        by (metis add.commute mult_Suc mult_le_mono1)
      then show ?thesis unfolding ij sp by (simp only: disjoint_iff atLeastLessThan_iff) linarith
    qed
    show "(\<Union>b\<in>(\<lambda>i. (i * mx, m)) ` {0..<q}. span u b) = {0..<q * mx}"
    proof (intro set_eqI iffI)
      fix v assume "v \<in> {0..<q * mx}"
      then have "v div mx < q" using \<open>0 < mx\<close> by (simp add: div_less_iff_less_mult)
      moreover have "v div mx * mx \<le> v" by (rule div_times_less_eq_dividend)
      moreover have "v < v div mx * mx + mx" using \<open>0 < mx\<close> by (metis add.commute dividend_less_div_times)
      ultimately have "v \<in> span u (v div mx * mx, m)" "v div mx < q" by (simp_all add: mx)
      then show "v \<in> (\<Union>b\<in>(\<lambda>i. (i * mx, m)) ` {0..<q}. span u b)"
        by (auto simp del: span_mem)
    next
      fix v assume "v \<in> (\<Union>b\<in>(\<lambda>i. (i * mx, m)) ` {0..<q}. span u b)"
      then obtain i where "i < q" "v < i * mx + mx" by (auto simp: sp simp del: span_mem)
      moreover have "i * mx + mx \<le> q * mx" by (metis Suc_leI \<open>i < q\<close> add.commute mult_Suc mult_le_mono1)
      ultimately show "v \<in> {0..<q * mx}" by simp
    qed
  qed
  then show "lists_ok u (q * mx) fr {}" using dist by (simp add: lists_ok_def)
  show "k < m \<Longrightarrow> \<not> buddies u (free_set fr) x k" by (auto simp: buddies_def fs)
qed

lemma buddy_new_ok:
  assumes new: "buddy_new_with_block_size N mn mx = Inr b" and "N \<le> usize_max" and "alen ar = N"
  shows "buddy_ok b ar Map.empty"
    and "b_arena_size b = N" "b_min_block b = mn" "b_max_block b = mx"
proof -
  have c: "is_power_of_two mn" "is_power_of_two mx" "mn \<le> mx" "8 < mn" "mx \<le> N" "mx dvd N"
    using new by (auto simp: buddy_new_with_block_size_def ALLOCATOR_HEADER_SIZE_def dvd_eq_mod_eq_0 Let_def
        split: if_splits)
  obtain s t where st: "mn = 2 ^ s" "mx = 2 ^ t" using c by (auto simp: is_power_of_two_iff)
  have "s \<le> t" using c(3) st by simp
  obtain q where q: "N = q * mx" using c(6) by (metis dvd_def mult.commute)
  have sb: "step_by N mx = map (\<lambda>i. i * mx) [0..<q]"
    using step_by_multiple [of mx q] c(3,4) q by simp
  have b: "b = \<lparr> b_arena_size = N, b_min_block = mn, b_max_block = mx, b_min_shift = s, b_max_order = t - s,
      b_free = (replicate (Suc (t - s)) [])[t - s := map (\<lambda>i. i * mx) [0..<q]], b_needs_coalesce = False \<rparr>"
    using new c sb
    by (simp add: buddy_new_with_block_size_def ALLOCATOR_HEADER_SIZE_def dvd_eq_mod_eq_0 Let_def st
        del: replicate_Suc)
  then show "b_arena_size b = N" "b_min_block b = mn" "b_max_block b = mx" by simp_all
  have mxs: "mn * 2 ^ (t - s) = mx" using \<open>s \<le> t\<close> st by (simp flip: power_add)
  have "0 < mn" using c(4) by simp
  note i = init_lists(1) [OF mxs this, of q] init_lists(2) [OF mxs this, of _ q]
  show "buddy_ok b ar Map.empty"
    unfolding buddy_ok_def buddy_cfg_def
    using i c assms(2,3) st \<open>s \<le> t\<close> by (auto simp: b q ALLOCATOR_HEADER_SIZE_def simp del: replicate_Suc)
qed

section \<open>Release and reset\<close>

lemma buddy_valid_offset_iff:
  assumes "buddy_cfg b"
  shows "buddy_is_valid_offset b d \<longleftrightarrow> 8 \<le> d \<and> d - 8 < b_arena_size b \<and> b_min_block b dvd d - 8"
  using assms and_mask_eq_0_iff [of "d - 8" "b_min_shift b"]
  by (simp add: buddy_is_valid_offset_def ALLOCATOR_HEADER_SIZE_def buddy_cfg_def)

lemma live_order_live:
  assumes ok: "buddy_ok b ar M" and M: "M x = Some k"
  shows "live_order b ar x = Inr k"
proof -
  have "b_min_block b * 2 ^ k = 2 ^ (b_min_shift b + k)"
    using buddy_okD(1) [OF ok] by (simp add: buddy_cfg_def power_add)
  then have "x AND (b_min_block b * 2 ^ k - 1) = 0"
    using and_mask_eq_0_iff [of x "b_min_shift b + k"] live_bound(2) [OF ok M] by simp
  with buddy_okD(4,5) [OF ok M] show ?thesis by (simp add: live_order_def)
qed

lemma live_valid_offset:
  assumes ok: "buddy_ok b ar M" and M: "M x = Some k"
  shows "buddy_is_valid_offset b (x + 8)"
proof -
  have "b_min_block b dvd x" using live_bound(2) [OF ok M] by (rule dvd_mult_left)
  moreover have "x < b_arena_size b" using live_bound(1,4) [OF ok M] by simp
  ultimately show ?thesis using buddy_valid_offset_iff [OF buddy_okD(1) [OF ok]] by simp
qed

lemma buddy_release_ok:
  assumes ok: "buddy_ok b ar M" and M: "M x = Some k"
  obtains b' ar' where "buddy_release b ar x k = Some (b', ar')" "buddy_ok b' ar' (M(x := None))"
    "buddy_shape b' = buddy_shape b" "same_outside {x..<x + 4} ar ar'"
proof -
  have k: "k < length (b_free b)"
    using buddy_okD(4) [OF ok M] buddy_cfgD(3) [OF buddy_okD(1) [OF ok]] by simp
  have "x + 8 \<le> alen ar" using live_bound(1,4) [OF ok M] buddy_okD(2) [OF ok] by simp
  then obtain ar' where ar': "clear_magic ar x = Some ar'" by (rule clear_magic_total)
  note fr = clear_magic_frame [OF ar']
  let ?b = "b \<lparr> b_free := (b_free b)[k := b_free b ! k @ [x]],
               b_needs_coalesce := b_needs_coalesce b \<or> k < b_max_order b \<rparr>"
  have ls: "live_set M = insert (x, k) (live_set (M(x := None)))" using M by (rule live_set_del)
  have nin: "(x, k) \<notin> live_set (M(x := None))" by simp
  have "buddy_ok ?b ar' (M(x := None))"
  proof (rule buddy_okI [of b])
    show "lists_ok (b_min_block b) (b_arena_size b) (b_free ?b) (live_set (M(x := None)))"
      using lists_ok_push [OF _ nin k] buddy_okD(3) [OF ok] ls by simp
    show "j \<le> b_max_order b \<and> read_header ar' y = Some (MAGIC, j)" if "(M(x := None)) y = Some j" for y j
    proof -
      have y: "M y = Some j" "y \<noteq> x" using that by (auto split: if_splits)
      have "{y..<y + 8} \<inter> {x..<x + 4} = {}"
        using live_disjoint [OF ok y(1) M y(2)] live_bound(4) [OF ok y(1)] live_bound(4) [OF ok M]
        by (auto simp: disjoint_iff)
      then show ?thesis using read_header_frame [OF fr] buddy_okD(4,5) [OF ok y(1)] by simp
    qed
    show "\<not> buddies (b_min_block b) (free_set (b_free ?b)) y j"
      if "\<not> b_needs_coalesce ?b" "j < b_max_order b" for y j
    proof -
      have "free_set (b_free ?b) = insert (x, k) (free_set (b_free b))" "k \<noteq> j"
        using that free_set_push [OF k] by auto
      then show ?thesis using buddy_okD(6) [OF ok, of j y] that by (auto simp: buddies_def)
    qed
  qed (use buddy_okD(1,2) [OF ok] same_outside_alen [OF fr] in \<open>auto simp: buddy_shape_def\<close>)
  moreover have "buddy_release b ar x k = Some (?b, ar')"
    using ar' k by (simp add: buddy_release_def vec_push_at_def)
  ultimately show thesis using that fr by (auto simp: buddy_shape_def)
qed

lemma buddy_free_at_live:
  assumes ok: "buddy_ok b ar M" and M: "M x = Some k"
  obtains b' ar' where "buddy_free_at b ar (x + 8) = Some (b', ar', Inr ())"
    "buddy_ok b' ar' (M(x := None))" "buddy_shape b' = buddy_shape b" "same_outside {x..<x + 4} ar ar'"
proof -
  obtain b' ar' where r: "buddy_release b ar x k = Some (b', ar')" "buddy_ok b' ar' (M(x := None))"
    "buddy_shape b' = buddy_shape b" "same_outside {x..<x + 4} ar ar'"
    using buddy_release_ok [OF ok M] .
  have "buddy_free_at b ar (x + 8) = Some (b', ar', Inr ())"
    using r(1) live_valid_offset [OF ok M] live_order_live [OF ok M] buddy_okD(2) [OF ok]
    by (simp add: buddy_free_at_def ALLOCATOR_HEADER_SIZE_def)
  with that r show thesis by blast
qed

lemma buddy_reset_ok:
  assumes cfg: "buddy_cfg b" and len: "alen ar = b_arena_size b"
  obtains b' where "buddy_reset b ar = Some (b', ar, Inr ())" "buddy_ok b' ar Map.empty"
    "buddy_shape b' = buddy_shape b"
proof -
  let ?m = "b_max_order b" and ?mx = "b_max_block b"
  obtain q where q: "b_arena_size b = q * ?mx"
    using cfg by (auto simp: buddy_cfg_def elim!: dvdE)
  note c = buddy_cfgD [OF cfg]
  have mx: "b_min_block b * 2 ^ ?m = ?mx" using c(4) by simp
  have sb: "step_by (b_arena_size b) ?mx = map (\<lambda>i. i * ?mx) [0..<q]"
    using c(1,7) by (simp add: q step_by_multiple)
  have cl: "map (\<lambda>_. []) (b_free b) = (replicate (Suc ?m) [] :: nat list list)"
    using c(3) by (simp add: map_replicate_const del: replicate_Suc)
  let ?b = "b \<lparr> b_free := (replicate (Suc ?m) [])[?m := map (\<lambda>i. i * ?mx) [0..<q]], b_needs_coalesce := False \<rparr>"
  have "buddy_ok ?b ar Map.empty"
    by (rule buddy_okI [of b])
      (use init_lists(1) [OF mx c(1), of q] init_lists(2) [OF mx c(1), of _ q] cfg len c(3) q
       in \<open>auto simp: buddy_shape_def simp del: replicate_Suc\<close>)
  moreover have "buddy_reset b ar = Some (?b, ar, Inr ())"
    using len by (simp add: buddy_reset_def sb cl vec_set_def del: replicate_Suc)
  ultimately show thesis using that by (simp add: buddy_shape_def)
qed

text \<open>Writing into payloads of live blocks does not disturb the allocator.\<close>

lemma buddy_ok_payload:
  assumes ok: "buddy_ok b ar M"
    and fr: "same_outside (\<Union>(x, k)\<in>live_set M. {x + 8..<x + b_min_block b * 2 ^ k}) ar ar'"
  shows "buddy_ok b ar' M"
proof (rule buddy_okI [of b])
  show "j \<le> b_max_order b \<and> read_header ar' y = Some (MAGIC, j)" if M: "M y = Some j" for y j
  proof -
    have "{y..<y + 8} \<inter> {x + 8..<x + b_min_block b * 2 ^ k} = {}" if "M x = Some k" for x k
      using live_disjoint [OF ok M that] live_bound(4) [OF ok M] M that
      by (cases "x = y") (auto simp: disjoint_iff)
    then have "{y..<y + 8} \<inter> (\<Union>(x, k)\<in>live_set M. {x + 8..<x + b_min_block b * 2 ^ k}) = {}"
      unfolding live_set_def by blast
    from read_header_frame [OF fr this] show ?thesis using buddy_okD(4,5) [OF ok M] by simp
  qed
qed (use buddy_okD [OF ok] same_outside_alen [OF fr] in auto)

section \<open>The buddy allocator implements the interface\<close>

definition live_payload :: "nat \<Rightarrow> (nat \<rightharpoonup> nat) \<Rightarrow> live" where
  "live_payload u M d = (if d < 8 then None else map_option (\<lambda>k. u * 2 ^ k - 8) (M (d - 8)))"

definition buddy_inv :: "buddy \<Rightarrow> arena \<Rightarrow> live \<Rightarrow> bool" where
  "buddy_inv b ar L \<longleftrightarrow> (\<exists>M. buddy_ok b ar M \<and> L = live_payload (b_min_block b) M)"

definition buddy_same :: "buddy \<Rightarrow> buddy \<Rightarrow> bool" where
  "buddy_same b b' \<longleftrightarrow> buddy_shape b' = buddy_shape b"

lemma live_payload_Some:
  "live_payload u M d = Some c \<longleftrightarrow> (\<exists>x k. d = x + 8 \<and> M x = Some k \<and> c = u * 2 ^ k - 8)"
  by (auto simp: live_payload_def intro: exI [of _ "d - 8"])

lemma live_payload_upd: "live_payload u (M(x \<mapsto> k)) = (live_payload u M)(x + 8 \<mapsto> u * 2 ^ k - 8)"
  by (auto simp: live_payload_def fun_eq_iff)

lemma live_payload_del: "live_payload u (M(x := None)) = (live_payload u M)(x + 8 := None)"
  by (auto simp: live_payload_def fun_eq_iff)

lemma live_payload_empty [simp]: "live_payload u Map.empty = Map.empty"
  by (auto simp: live_payload_def)

lemma live_payload_add [simp]: "live_payload u M (x + 8) = map_option (\<lambda>k. u * 2 ^ k - 8) (M x)"
  by (simp add: live_payload_def)

lemma buddy_invI: "buddy_ok b ar M \<Longrightarrow> buddy_inv b ar (live_payload (b_min_block b) M)"
  by (auto simp: buddy_inv_def)

lemma buddy_same_block: "buddy_shape b' = buddy_shape b \<Longrightarrow> b_min_block b' = b_min_block b"
  by (simp add: buddy_shape_def)

lemma buddy_separate:
  assumes ok: "buddy_ok b ar M"
  shows "live_separate (alen ar) (live_payload (b_min_block b) M)"
proof -
  have sz: "8 \<le> d \<and> d + c = d - 8 + b_min_block b * 2 ^ k \<and> d + c \<le> alen ar"
    if "d = x + 8" "M x = Some k" "c = b_min_block b * 2 ^ k - 8" for d c x k
    using live_bound(1,4) [OF ok that(2)] that buddy_okD(2) [OF ok] by simp
  show ?thesis
    unfolding live_separate_def live_payload_Some
  proof (intro conjI allI impI; elim exE conjE)
    fix d c d' c' x k x' k'
    assume x: "d = x + 8" "M x = Some k" "c = b_min_block b * 2 ^ k - 8"
      and x': "d' = x' + 8" "M x' = Some k'" "c' = b_min_block b * 2 ^ k' - 8" and "d \<noteq> d'"
    then show "{d - 8..<d + c} \<inter> {d' - 8..<d' + c'} = {}"
      using live_disjoint [OF ok x(2) x'(2)] sz [OF x] sz [OF x'] by simp
  qed (use sz in auto)
qed

lemma buddy_finite: "buddy_ok b ar M \<Longrightarrow> finite (dom (live_payload (b_min_block b) M))"
proof -
  assume ok: "buddy_ok b ar M"
  have "dom (live_payload (b_min_block b) M) \<subseteq> {..<alen ar + 1}"
    using buddy_separate [OF ok] by (auto simp: live_separate_def dest!: spec)
  then show ?thesis by (rule finite_subset) simp
qed

lemma buddy_payload:
  assumes "buddy_inv b ar L" "same_outside (payloads L) ar ar'"
  shows "buddy_inv b ar' L"
proof -
  obtain M where M: "buddy_ok b ar M" "L = live_payload (b_min_block b) M" using assms(1) by (auto simp: buddy_inv_def)
  have "payloads L \<subseteq> (\<Union>(x, k)\<in>live_set M. {x + 8..<x + b_min_block b * 2 ^ k})"
  proof
    fix i assume "i \<in> payloads L"
    then obtain x k where x: "M x = Some k" "x + 8 \<le> i" "i < x + 8 + (b_min_block b * 2 ^ k - 8)"
      by (auto simp: payloads_mem M(2) live_payload_Some)
    then have "(x, k) \<in> live_set M" "i \<in> {x + 8..<x + b_min_block b * 2 ^ k}"
      using live_bound(4) [OF M(1) x(1)] by auto
    then show "i \<in> (\<Union>(x, k)\<in>live_set M. {x + 8..<x + b_min_block b * 2 ^ k})" by blast
  qed
  then have "buddy_ok b ar' M"
    using buddy_ok_payload [OF M(1)] same_outside_mono [OF assms(2)] by blast
  with M(2) show ?thesis by (auto simp: buddy_inv_def)
qed

lemma buddy_alloc_reject:
  assumes "buddy_ok b ar M" "sz = 0 \<or> b_max_block b < sz + 8"
  shows "buddy_alloc b ar sz = Some (b, ar, None)"
  using buddy_okD(2) [OF assms(1)] buddy_cfgD(2,7) [OF buddy_okD(1) [OF assms(1)]] assms(2)
  by (auto simp: buddy_alloc_def ALLOCATOR_HEADER_SIZE_def checked_sub_def)

lemma buddy_alloc_outcome:
  assumes "buddy_inv b ar L"
  shows "\<exists>b' ar' r. buddy_alloc b ar n = Some (b', ar', r) \<and> buddy_same b b' \<and>
    (case r of
       None \<Rightarrow> ar' = ar \<and> buddy_inv b' ar L
     | Some a \<Rightarrow> data_offset a = block_offset a + 8 \<and> al_len a = n \<and> n \<le> al_cap a \<and> L (data_offset a) = None \<and>
         buddy_inv b' ar' (L(data_offset a \<mapsto> al_cap a)) \<and>
         same_outside {block_offset a..<data_offset a} ar ar')"
proof -
  obtain M where ok: "buddy_ok b ar M" and L: "L = live_payload (b_min_block b) M"
    using assms by (auto simp: buddy_inv_def)
  show ?thesis
  proof (cases "n = 0 \<or> b_max_block b < n + 8")
    case True
    with buddy_alloc_reject [OF ok] assms show ?thesis by (simp add: buddy_same_def)
  next
    case False
    then have "0 < n" "n + 8 \<le> b_max_block b" by auto
    with ok show ?thesis
    proof (cases rule: buddy_alloc_cases)
      case (none b' k)
      then show ?thesis
        using buddy_invI [OF none(2)] L buddy_same_block [OF none(3)] by (simp add: buddy_same_def)
    next
      case (some b' ar' k x)
      then show ?thesis
        using buddy_invI [OF some(2)] L buddy_same_block [OF some(3)]
        by (simp add: buddy_same_def live_payload_upd)
    qed
  qed
qed

lemma buddy_free_at_payload:
  assumes "buddy_inv b ar L" "L d = Some c"
  shows "\<exists>b' ar'. buddy_free_at b ar d = Some (b', ar', Inr ()) \<and> buddy_inv b' ar' (L(d := None)) \<and>
    buddy_same b b' \<and> same_outside {d - 8..<d - 4} ar ar'"
proof -
  obtain M where ok: "buddy_ok b ar M" and L: "L = live_payload (b_min_block b) M"
    using assms by (auto simp: buddy_inv_def)
  obtain x k where x: "d = x + 8" "M x = Some k" using assms(2) by (auto simp: L live_payload_Some)
  obtain b' ar' where r: "buddy_free_at b ar (x + 8) = Some (b', ar', Inr ())"
    "buddy_ok b' ar' (M(x := None))" "buddy_shape b' = buddy_shape b" "same_outside {x..<x + 4} ar ar'"
    using buddy_free_at_live [OF ok x(2)] .
  show ?thesis
    using r buddy_invI [OF r(2)] buddy_same_block [OF r(3)]
    by (auto simp: x(1) L buddy_same_def live_payload_del add.commute)
qed

interpretation bd: allocator buddy_inv buddy_alloc buddy_free_at buddy_is_valid_offset buddy_reset
  buddy_max_allocation buddy_same
proof (unfold_locales, goal_cases)
  case (1 s ar L)
  then show ?case using buddy_separate by (auto simp: buddy_inv_def)
next
  case (2 s ar L)
  then show ?case using buddy_finite by (auto simp: buddy_inv_def)
next
  case (3 s ar L d c)
  then show ?case using live_valid_offset by (auto simp: buddy_inv_def live_payload_Some)
next
  case (4 s ar L ar')
  then show ?case by (rule buddy_payload)
next
  case (5 s ar L n)
  then show ?case using buddy_alloc_outcome by blast
next
  case (6 s ar L n s' ar')
  then show ?case using buddy_alloc_outcome [of s ar L n] by auto
next
  case (7 s ar L n s' ar' a)
  then show ?case using buddy_alloc_outcome [of s ar L n] by (auto simp del: fun_upd_apply)
next
  case (8 s ar L m n)
  then show ?case
    using buddy_alloc_reject [of s ar _ n]
    by (auto simp: buddy_inv_def buddy_max_allocation_def ALLOCATOR_HEADER_SIZE_def)
next
  case (9 s ar L)
  then show ?case
    using buddy_cfgD(2,7) [of s]
    by (auto simp: buddy_inv_def buddy_max_allocation_def ALLOCATOR_HEADER_SIZE_def checked_sub_def dest!: buddy_okD(1))
next
  case (10 s ar L d c)
  then show ?case by (rule buddy_free_at_payload)
next
  case (11 s ar L)
  then obtain M where M: "buddy_ok s ar M" by (auto simp: buddy_inv_def)
  obtain b' where b': "buddy_reset s ar = Some (b', ar, Inr ())" "buddy_ok b' ar Map.empty"
    "buddy_shape b' = buddy_shape s" using buddy_reset_ok [OF buddy_okD(1,2) [OF M]] .
  with buddy_invI [OF b'(2)] show ?case by (simp add: buddy_same_def)
qed (auto simp: buddy_same_def buddy_shape_def buddy_is_valid_offset_def buddy_max_allocation_def)

section \<open>Accounting\<close>

lemma tiling_sum:
  assumes "tiling u N T" "0 < u"
  shows "finite T" "(\<Sum>b\<in>T. u * 2 ^ snd b) = N"
proof -
  have inj: "inj_on fst T"
  proof (rule inj_onI)
    fix b c assume "b \<in> T" "c \<in> T" "fst b = fst c"
    then show "b = c" using tilingD(2) [OF assms(1), of b c "fst b"] assms(2) by (cases b; cases c) auto
  qed
  have "fst ` T \<subseteq> {0..<N}"
    using tilingD(3) [OF assms(1)] assms(2) by (force simp: span_def subset_iff)
  then show fin: "finite T" using inj by (meson finite_atLeastLessThan finite_imageD finite_subset)
  have "N = card (\<Union>b\<in>T. span u b)" using assms(1) by (simp add: tiling_def)
  also have "\<dots> = (\<Sum>b\<in>T. card (span u b))"
    using fin tiling_disjoint [OF assms(1)] by (intro card_UN_disjoint) (auto simp: span_def)
  also have "\<dots> = (\<Sum>b\<in>T. u * 2 ^ snd b)" by (simp add: span_def)
  finally show "(\<Sum>b\<in>T. u * 2 ^ snd b) = N" by simp
qed

lemma free_set_sum:
  assumes "\<forall>k<length fr. distinct (fr ! k)"
  shows "(\<Sum>b\<in>free_set fr. f (snd b)) = (\<Sum>k\<leftarrow>[0..<length fr]. length (fr ! k) * (f k :: nat))"
proof -
  have eq: "free_set fr = (\<Union>k\<in>{0..<length fr}. (\<lambda>x. (x, k)) ` set (fr ! k))" by (auto simp: free_set_def)
  have "(\<Sum>b\<in>free_set fr. f (snd b)) = (\<Sum>k\<in>{0..<length fr}. \<Sum>b\<in>(\<lambda>x. (x, k)) ` set (fr ! k). f (snd b))"
    unfolding eq by (rule sum.UNION_disjoint) auto
  also have "\<dots> = (\<Sum>k\<in>{0..<length fr}. length (fr ! k) * f k)"
    using assms by (intro sum.cong) (auto simp: sum.reindex inj_on_def distinct_card)
  finally show ?thesis by (simp add: sum_list_distinct_conv_sum_set)
qed

lemma buddy_account:
  assumes ok: "buddy_ok b ar M"
  defines "L \<equiv> live_payload (b_min_block b) M"
  shows "buddy_available b + 8 * (\<Sum>l\<leftarrow>b_free b. length l) + (\<Sum>d\<in>dom L. the (L d) + 8) = b_arena_size b"
proof -
  let ?u = "b_min_block b" and ?F = "free_set (b_free b)"
  note c = buddy_cfgD [OF buddy_okD(1) [OF ok]] and l = buddy_okD(3) [OF ok]
  have T: "tiling ?u (b_arena_size b) (?F \<union> live_set M)" "?F \<inter> live_set M = {}"
    and dist: "\<forall>k<length (b_free b). distinct (b_free b ! k)" using l by (auto simp: lists_ok_def)
  have fin: "finite ?F" "finite (live_set M)" using tiling_sum(1) [OF T(1) c(1)] by auto
  have ge: "8 \<le> ?u * 2 ^ k" for k using c(2) by (simp add: order_trans [of 8 ?u])
  have "(\<Sum>b\<in>?F. ?u * 2 ^ snd b) = (\<Sum>k\<leftarrow>[0..<length (b_free b)]. length (b_free b ! k) * (?u * 2 ^ k))"
    by (rule free_set_sum [OF dist])
  also have "\<dots> = (\<Sum>k\<leftarrow>[0..<length (b_free b)]. length (b_free b ! k) * (?u * 2 ^ k - 8) + 8 * length (b_free b ! k))"
    using ge by (intro arg_cong [of _ _ sum_list] map_cong refl) (simp add: algebra_simps)
  also have "\<dots> = buddy_available b + (\<Sum>k\<leftarrow>[0..<length (b_free b)]. 8 * length (b_free b ! k))"
    by (simp add: buddy_available_def ALLOCATOR_HEADER_SIZE_def sum_list_addf)
  also have "(\<Sum>k\<leftarrow>[0..<length (b_free b)]. 8 * length (b_free b ! k)) = 8 * (\<Sum>l\<leftarrow>b_free b. length l)"
    by (simp add: sum_list_const_mult map_upt_nth [of "\<lambda>l. length l"])
  finally have F: "(\<Sum>b\<in>?F. ?u * 2 ^ snd b) = buddy_available b + 8 * (\<Sum>l\<leftarrow>b_free b. length l)" .
  have "(\<Sum>d\<in>dom L. the (L d) + 8) = (\<Sum>b\<in>live_set M. ?u * 2 ^ snd b)"
  proof (rule sum.reindex_bij_witness [where i = "\<lambda>b. fst b + 8" and j = "\<lambda>d. (d - 8, the (M (d - 8)))"])
  qed (use ge in \<open>auto simp: L_def live_payload_def live_set_def split: if_splits\<close>)
  with F tiling_sum(2) [OF T(1) c(1)] sum.union_disjoint [OF fin T(2), of "\<lambda>b. ?u * 2 ^ snd b"] show ?thesis
    by simp
qed

section \<open>Properties\<close>

text \<open>Reachable states: everything below is about an allocator built by
  \<open>new_with_block_size\<close> and driven by a client.\<close>

definition buddy_reach :: "nat \<Rightarrow> nat \<Rightarrow> nat \<Rightarrow> buddy \<Rightarrow> arena \<Rightarrow> live \<Rightarrow> bool" where
  "buddy_reach N mn mx b ar L \<longleftrightarrow> N \<le> usize_max \<and>
     (\<exists>b0 ar0. buddy_new_with_block_size N mn mx = Inr b0 \<and> alen ar0 = N \<and>
        client_run buddy_alloc buddy_free_at b0 ar0 b ar L)"

lemma buddy_reachI:
  "buddy_new_with_block_size N mn mx = Inr b0 \<Longrightarrow> N \<le> usize_max \<Longrightarrow> alen ar0 = N \<Longrightarrow>
   client_run buddy_alloc buddy_free_at b0 ar0 b ar L \<Longrightarrow> buddy_reach N mn mx b ar L"
  by (auto simp: buddy_reach_def)

lemma buddy_reachD:
  assumes "buddy_reach N mn mx b ar L"
  obtains M where "buddy_ok b ar M" "L = live_payload mn M" "b_arena_size b = N" "b_min_block b = mn"
    "b_max_block b = mx" "alen ar = N"
proof -
  obtain b0 ar0 where n: "buddy_new_with_block_size N mn mx = Inr b0" "N \<le> usize_max" "alen ar0 = N"
    and run: "client_run buddy_alloc buddy_free_at b0 ar0 b ar L"
    using assms by (auto simp: buddy_reach_def)
  note new = buddy_new_ok [OF n]
  have i0: "buddy_inv b0 ar0 Map.empty" using buddy_invI [OF new(1)] by simp
  have "buddy_same b0 b" using bd.run_cfg [OF i0 run] .
  then have "b_arena_size b = N" "b_min_block b = mn" "b_max_block b = mx"
    using new(2-4) by (auto simp: buddy_same_def buddy_shape_def)
  moreover obtain M where "buddy_ok b ar M" "L = live_payload (b_min_block b) M"
    using bd.run_inv [OF i0 run] by (auto simp: buddy_inv_def)
  ultimately show thesis using that buddy_okD(2) by metis
qed

lemma order_for_least:
  assumes "buddy_cfg b" "n \<le> b_max_block b"
  shows "order_for b n = Some (LEAST k. n \<le> b_min_block b * 2 ^ k)"
proof -
  obtain k where k: "order_for b n = Some k" "n \<le> b_min_block b * 2 ^ k"
    "\<And>j. n \<le> b_min_block b * 2 ^ j \<Longrightarrow> k \<le> j" using order_for_spec [OF assms] by metis
  then have "(LEAST k. n \<le> b_min_block b * 2 ^ k) = k" by (intro Least_equality)
  with k(1) show ?thesis by simp
qed

lemma slot_free_live:
  assumes "buddy_ok b ar M"
  shows "slot_free b M k x \<longleftrightarrow>
    b_min_block b * 2 ^ k dvd x \<and> x + b_min_block b * 2 ^ k \<le> b_arena_size b \<and>
    (\<forall>d c. live_payload (b_min_block b) M d = Some c \<longrightarrow>
       {d - 8..<d + c} \<inter> {x..<x + b_min_block b * 2 ^ k} = {})"
proof -
  let ?u = "b_min_block b"
  have eq: "{y..<y + 8 + (?u * 2 ^ j - 8)} = {y..<y + ?u * 2 ^ j}" if "M y = Some j" for y j
    using live_bound(4) [OF assms that] by simp
  have "(\<forall>d c. live_payload ?u M d = Some c \<longrightarrow> {d - 8..<d + c} \<inter> S = {}) \<longleftrightarrow>
      (\<forall>y j. M y = Some j \<longrightarrow> {y..<y + ?u * 2 ^ j} \<inter> S = {})" for S
  proof (intro iffI allI impI)
    fix y j assume H: "\<forall>d c. live_payload ?u M d = Some c \<longrightarrow> {d - 8..<d + c} \<inter> S = {}" and y: "M y = Some j"
    then have "{y + 8 - 8..<y + 8 + (?u * 2 ^ j - 8)} \<inter> S = {}" using live_payload_Some by blast
    then show "{y..<y + ?u * 2 ^ j} \<inter> S = {}" using eq [OF y] by simp
  next
    fix d c assume H: "\<forall>y j. M y = Some j \<longrightarrow> {y..<y + ?u * 2 ^ j} \<inter> S = {}" and "live_payload ?u M d = Some c"
    then obtain y j where y: "d = y + 8" "M y = Some j" "c = ?u * 2 ^ j - 8" by (auto simp: live_payload_Some)
    then show "{d - 8..<d + c} \<inter> S = {}" using H eq [OF y(2)] by simp
  qed
  then show ?thesis by (simp add: slot_free_def span_def del: Int_atLeastLessThan)
qed

text \<open>C10. A request is refused exactly when it has to be: with \<open>z\<close> the smallest block size that holds
  the request and its header, \<open>alloc\<close> fails if and only if every naturally aligned range of \<open>z\<close> bytes in
  the arena meets a live block. Deferring coalescing never costs an allocation.\<close>

theorem buddy_alloc_complete:
  assumes "buddy_reach N mn mx b ar L" and "0 < sz" and "sz + 8 \<le> mx"
  shows "(\<exists>b' ar'. buddy_alloc b ar sz = Some (b', ar', None)) \<longleftrightarrow>
    (let z = mn * 2 ^ (LEAST k. sz + 8 \<le> mn * 2 ^ k) in
     \<not> (\<exists>x. z dvd x \<and> x + z \<le> N \<and> (\<forall>d c. L d = Some c \<longrightarrow> {d - 8..<d + c} \<inter> {x..<x + z} = {})))"
proof -
  obtain M where M: "buddy_ok b ar M" "L = live_payload mn M" "b_arena_size b = N" "b_min_block b = mn"
    "b_max_block b = mx" using buddy_reachD [OF assms(1)] by metis
  have k: "order_for b (sz + 8) = Some (LEAST k. sz + 8 \<le> mn * 2 ^ k)"
    using order_for_least [OF buddy_okD(1) [OF M(1)], of "sz + 8"] assms(3) M(4,5) by simp
  have "0 < sz" "sz + 8 \<le> b_max_block b" using assms M by auto
  with M(1) show ?thesis
    by (cases rule: buddy_alloc_cases) (use k M slot_free_live [OF M(1)] in \<open>auto simp: Let_def\<close>)
qed

text \<open>C11. Whatever a client allocates, writes and frees, live blocks (headers included) stay inside the
  arena and disjoint, no request makes the allocator panic, and every live block can be released.\<close>

theorem buddy_client_safe:
  assumes "buddy_reach N mn mx b ar L"
  shows "live_separate N L \<and>
    (\<forall>n. \<exists>b' ar' r. buddy_alloc b ar n = Some (b', ar', r)) \<and>
    (\<forall>d\<in>dom L. \<exists>b' ar'. buddy_free_at b ar d = Some (b', ar', Inr ()))"
proof -
  obtain M where M: "buddy_ok b ar M" "L = live_payload mn M" "b_min_block b = mn" "alen ar = N"
    using buddy_reachD [OF assms] by metis
  then have i: "buddy_inv b ar L" by (auto simp: buddy_inv_def)
  have "live_separate N L" using bd.separate [OF i] M(4) by simp
  with bd.alloc_total [OF i] bd.free_at_live [OF i] show ?thesis by blast
qed

text \<open>C13. Releasing the same block twice is detected: right after a successful release the same offset is
  refused as not allocated, and nothing changes.\<close>

theorem buddy_double_free:
  assumes "buddy_free_at b ar d = Some (b', ar', Inr ())"
  shows "buddy_free_at b' ar' d = Some (b', ar', Inl NotAllocated)"
proof -
  let ?x = "d - ALLOCATOR_HEADER_SIZE"
  obtain k where len: "alen ar = b_arena_size b" and v: "buddy_is_valid_offset b d"
    and lo: "live_order b ar ?x = Inr k" and rel: "buddy_release b ar ?x k = Some (b', ar')"
    using assms by (auto simp: buddy_free_at_def Let_def bind_eq_Some_conv split: if_splits sum.splits)
  have cm: "clear_magic ar ?x = Some ar'" and sh: "buddy_shape b' = buddy_shape b"
    using rel by (auto simp: buddy_release_def bind_eq_Some_conv buddy_shape_def)
  have al: "alen ar' = alen ar" using clear_magic_frame [OF cm] by (rule same_outside_alen)
  obtain m0 v0 where "read_header ar ?x = Some (m0, v0)"
    using lo by (auto simp: live_order_def split: option.splits)
  then obtain m1 v1 where r: "read_header ar' ?x = Some (m1, v1)"
    using al by (auto simp: read_header_def arena_get_def bind_eq_Some_conv split: if_splits)
  have "m1 \<noteq> MAGIC" using read_clear_magic [OF cm r] by (simp add: MAGIC_def)
  with r have "live_order b' ar' ?x = Inl NotAllocated" by (simp add: live_order_def)
  with len al v sh show ?thesis
    by (simp add: buddy_free_at_def buddy_is_valid_offset_def buddy_shape_def)
qed

text \<open>A release that is refused, whatever offset a peer sends, changes neither the free lists nor a
  byte of the arena.\<close>

theorem buddy_refused_release:
  "buddy_free_at b ar d = Some (b', ar', Inl e) \<Longrightarrow> b' = b \<and> ar' = ar"
  by (auto simp: buddy_free_at_def Let_def bind_eq_Some_conv split: if_splits sum.splits)

text \<open>C14. The free lists account for the arena: payload bytes reported available, a header per free block,
  and the live blocks with their headers add up to the arena size.\<close>

theorem buddy_available_account:
  assumes "buddy_reach N mn mx b ar L"
  shows "buddy_available b + 8 * (\<Sum>l\<leftarrow>b_free b. length l) + (\<Sum>d\<in>dom L. the (L d) + 8) = N"
proof -
  obtain M where M: "buddy_ok b ar M" "L = live_payload mn M" "b_arena_size b = N" "b_min_block b = mn"
    using buddy_reachD [OF assms] by metis
  show ?thesis using buddy_account [OF M(1)] M(2-4) by simp
qed

text \<open>C12. Once everything is released, the allocator serves any request up to one maximum block again, in
  whatever order and sizes the arena had been carved.\<close>

theorem buddy_no_leftover_fragmentation:
  assumes "buddy_reach N mn mx b ar Map.empty" "0 < sz" "sz + 8 \<le> mx"
  shows "\<exists>b' ar' a. buddy_alloc b ar sz = Some (b', ar', Some a) \<and> sz \<le> al_cap a"
proof -
  obtain M where M: "buddy_ok b ar M" "Map.empty = live_payload mn M" "b_arena_size b = N" "b_min_block b = mn"
    "b_max_block b = mx" using buddy_reachD [OF assms(1)] by metis
  have L0: "live_payload mn M d = None" for d using M(2) by metis
  have "slot_free b M k 0" if "k \<le> b_max_order b" for k
  proof -
    have "b_min_block b * 2 ^ k \<le> b_max_block b"
      using buddy_cfgD(4) [OF buddy_okD(1) [OF M(1)]] that by simp
    then have "b_min_block b * 2 ^ k \<le> b_arena_size b"
      using buddy_cfgD(6) [OF buddy_okD(1) [OF M(1)]] by simp
    then show ?thesis
      using slot_free_live [OF M(1), of k 0] M(4) L0 by simp
  qed
  moreover have "0 < sz" "sz + 8 \<le> b_max_block b" using assms M by auto
  moreover have "order_for b (sz + 8) = Some k \<Longrightarrow> k \<le> b_max_order b" for k
    using order_for_spec [OF buddy_okD(1) [OF M(1)], of "sz + 8"] \<open>sz + 8 \<le> b_max_block b\<close> by (metis option.inject)
  ultimately show ?thesis
    by (cases rule: buddy_alloc_cases [OF M(1), of sz]) auto
qed

text \<open>C15. The in-place scan of one free list removes exactly the pairs of buddies: what it keeps and the
  two halves of what it moves up partition the list, and no pair is left among what it keeps.\<close>

theorem coalesce_scan_correct:
  assumes "sorted_wrt (<) l" "\<forall>x\<in>set l. 2 ^ m dvd x"
  shows "\<exists>k p. coalesce_scan (2 ^ m) l nxt 0 0 = (k, nxt @ p) \<and> merged m l k p"
proof -
  obtain k p where kp: "merge_pairs (2 ^ m) l = (k, p)" by fastforce
  then have "coalesce_scan (2 ^ m) l nxt 0 0 = (k, nxt @ p)" using coalesce_scan_eq [of 0 0] by simp
  with merge_pairs_merged [OF assms kp] show ?thesis by blast
qed

text \<open>The two ways to release a block agree: on the allocation \<open>alloc\<close> returned, \<open>free\<close> does what
  \<open>free_at\<close> does with its data offset.\<close>

theorem buddy_free_agrees:
  assumes "buddy_reach N mn mx b ar L" "buddy_alloc b ar sz = Some (b', ar', Some a)"
  shows "buddy_free b' ar' a = buddy_free_at b' ar' (data_offset a)"
proof -
  obtain M where M: "buddy_ok b ar M" using buddy_reachD [OF assms(1)] by metis
  have "\<not> (sz = 0 \<or> b_max_block b < sz + 8)"
  proof
    assume "sz = 0 \<or> b_max_block b < sz + 8"
    from buddy_alloc_reject [OF M this] assms(2) show False by simp
  qed
  then have sz: "0 < sz" "sz + 8 \<le> b_max_block b" by auto
  from M sz obtain k x where
    a: "a = \<lparr> block_offset = x, data_offset = x + 8, al_len = sz, al_cap = b_min_block b * 2 ^ k - 8 \<rparr>"
    and ok: "buddy_ok b' ar' (M(x \<mapsto> k))" and sh: "buddy_shape b' = buddy_shape b"
    and cap: "sz \<le> b_min_block b * 2 ^ k - 8"
    by (cases rule: buddy_alloc_cases) (use assms(2) in auto)
  let ?M = "M(x \<mapsto> k)"
  have x: "?M x = Some k" by simp
  have u: "b_min_block b' = b_min_block b" using sh by (rule buddy_same_block)
  note c = buddy_cfgD [OF buddy_okD(1) [OF ok]]
  have p: "b_min_block b * 2 ^ k = 2 ^ (b_min_shift b' + k)"
    using buddy_okD(1) [OF ok] u by (simp add: buddy_cfg_def power_add)
  have le: "b_min_block b * 2 ^ k \<le> b_max_block b'" "8 < b_min_block b * 2 ^ k"
    using buddy_okD(4) [OF ok x] c(4) live_bound(4) [OF ok x] u by simp_all
  have "b_max_block b' \<le> usize_max" using buddy_okD(1) [OF ok] c(6) unfolding buddy_cfg_def by linarith
  have "al_cap a + 8 = 2 ^ (b_min_shift b' + k)" using le(2) p by (simp add: a)
  moreover have "2 ^ (b_min_shift b' + k) \<le> b_max_block b'" using le(1) p by simp
  moreover have "b_min_block b' \<le> 2 ^ (b_min_shift b' + k)" using live_bound(3) [OF ok x] p u by simp
  ultimately have "order_for_capacity b' (al_cap a) = Some (Some k)"
    using \<open>b_max_block b' \<le> usize_max\<close>
    by (simp add: order_for_capacity_def ALLOCATOR_HEADER_SIZE_def checked_add_def is_power_of_two_def checked_sub_def)
  moreover have "live_order b' ar' x = Inr k" by (rule live_order_live [OF ok x])
  moreover have "x + 8 < b_arena_size b'" using live_bound(1,4) [OF ok x] by simp
  ultimately show ?thesis
    using live_valid_offset [OF ok x] buddy_okD(2) [OF ok] cap
    by (simp add: buddy_free_def buddy_free_at_def a ALLOCATOR_HEADER_SIZE_def)
qed

section \<open>Witnesses on a 64-byte arena\<close>

definition ex_buddy :: buddy where
  "ex_buddy = \<lparr> b_arena_size = 64, b_min_block = 16, b_max_block = 32, b_min_shift = 4, b_max_order = 1,
     b_free = [[], [0, 32]], b_needs_coalesce = False \<rparr>"

definition ex_arena :: arena where
  "ex_arena = \<lparr> alen = 64, abytes = (\<lambda>_. 0) \<rparr>"

lemma ex_new: "buddy_new_with_block_size 64 16 32 = Inr ex_buddy"
  by (simp add: buddy_new_with_block_size_def ex_buddy_def is_power_of_two_def count_ones.simps
    trailing_zeros.simps ALLOCATOR_HEADER_SIZE_def step_by_def upt_rec)

lemma ex_reach: "buddy_reach 64 16 32 ex_buddy ex_arena Map.empty"
  by (rule buddy_reachI [OF ex_new, rotated 2], rule client_run.start) (simp_all add: ex_arena_def usize_max_def)

lemma ex_alloc: "\<exists>b ar. buddy_alloc ex_buddy ex_arena 24 =
    Some (b, ar, Some \<lparr> block_offset = 32, data_offset = 40, al_len = 24, al_cap = 24 \<rparr>)"
  by (simp add: buddy_alloc_def ex_buddy_def ex_arena_def order_for_def bit_length.simps buddy_find_def
      buddy_carve_def vec_get_def vec_set_def vec_pop_def upt_rec checked_sub_def ALLOCATOR_HEADER_SIZE_def
      split_loop.simps write_header_def arena_put_def MAGIC_SIZE_def)

lemma ex_inv: "buddy_inv ex_buddy ex_arena Map.empty"
  using buddy_invI [OF buddy_new_ok(1) [OF ex_new, of ex_arena]] by (simp add: ex_arena_def usize_max_def)

lemma ex_reach_one: "\<exists>b ar. buddy_reach 64 16 32 b ar [40 \<mapsto> 24]"
proof -
  obtain b ar where a: "buddy_alloc ex_buddy ex_arena 24 =
      Some (b, ar, Some \<lparr> block_offset = 32, data_offset = 40, al_len = 24, al_cap = 24 \<rparr>)"
    using ex_alloc by blast
  have "client_run buddy_alloc buddy_free_at ex_buddy ex_arena b ar [40 \<mapsto> 24]"
    using client_run.hit [of buddy_alloc buddy_free_at, OF client_run.start a] by simp
  then have "buddy_reach 64 16 32 b ar [40 \<mapsto> 24]"
    by (rule buddy_reachI [OF ex_new, rotated 2]) (simp_all add: ex_arena_def usize_max_def)
  then show ?thesis by blast
qed

theorem buddy_alloc_complete_witness:
  "buddy_reach 64 16 32 ex_buddy ex_arena Map.empty \<and>
   \<not> (\<exists>b' ar'. buddy_alloc ex_buddy ex_arena 24 = Some (b', ar', None))"
proof -
  have k: "(LEAST k. (24 :: nat) + 8 \<le> 16 * 2 ^ k) = 1"
  proof (rule Least_equality)
    show "1 \<le> k" if "(24 :: nat) + 8 \<le> 16 * 2 ^ k" for k using that by (cases k) auto
  qed simp
  have "\<not> (\<exists>b' ar'. buddy_alloc ex_buddy ex_arena 24 = Some (b', ar', None))"
    using buddy_alloc_complete [OF ex_reach, of 24] unfolding k by (auto simp: Let_def intro: exI [of _ 0])
  with ex_reach show ?thesis by blast
qed

theorem buddy_client_safe_witness:
  "\<exists>b ar. buddy_reach 64 16 32 b ar [40 \<mapsto> 24] \<and> live_separate 64 [40 \<mapsto> 24] \<and>
    (\<exists>b' ar'. buddy_free_at b ar 40 = Some (b', ar', Inr ()))"
proof -
  obtain b ar where r: "buddy_reach 64 16 32 b ar [40 \<mapsto> 24]" using ex_reach_one by blast
  from buddy_client_safe [OF r] r show ?thesis by auto
qed

theorem buddy_double_free_witness:
  "\<exists>b ar a b' ar'. buddy_alloc ex_buddy ex_arena 24 = Some (b, ar, Some a) \<and>
    buddy_free_at b ar (data_offset a) = Some (b', ar', Inr ()) \<and>
    buddy_free_at b' ar' (data_offset a) = Some (b', ar', Inl NotAllocated)"
proof -
  obtain b ar a where a: "buddy_alloc ex_buddy ex_arena 24 = Some (b, ar, Some a)" using ex_alloc by blast
  obtain b' ar' where f: "buddy_free_at b ar (data_offset a) = Some (b', ar', Inr ())"
    using bd.alloc_free [OF ex_inv a] by blast
  from a f buddy_double_free [OF f] show ?thesis by blast
qed

theorem buddy_refused_release_witness:
  "buddy_free_at ex_buddy ex_arena 7 = Some (ex_buddy, ex_arena, Inl InvalidOffset)"
proof -
  have "buddy_free_at ex_buddy ex_arena 7 = Some (ex_buddy, ex_arena, Inl InvalidOffset)"
    by (simp add: buddy_free_at_def buddy_is_valid_offset_def ex_buddy_def ex_arena_def ALLOCATOR_HEADER_SIZE_def)
  with buddy_refused_release [OF this] show ?thesis by simp
qed

theorem buddy_available_account_witness:
  "buddy_reach 64 16 32 ex_buddy ex_arena Map.empty \<and>
   buddy_available ex_buddy + 8 * (\<Sum>l\<leftarrow>b_free ex_buddy. length l) = 64"
  using buddy_available_account [OF ex_reach] ex_reach by simp

theorem buddy_no_leftover_fragmentation_witness:
  "\<exists>b' ar' a. buddy_alloc ex_buddy ex_arena 24 = Some (b', ar', Some a) \<and> 24 \<le> al_cap a"
  using buddy_no_leftover_fragmentation [OF ex_reach, of 24] by simp

theorem coalesce_scan_correct_witness:
  "\<exists>k p. coalesce_scan (2 ^ 4) [0, 16, 32, 64] [] 0 0 = (k, [] @ p) \<and> merged 4 [0, 16, 32, 64] k p"
  by (rule coalesce_scan_correct) simp_all

theorem buddy_free_agrees_witness:
  "\<exists>b ar a. buddy_alloc ex_buddy ex_arena 24 = Some (b, ar, Some a) \<and>
    buddy_free b ar a = buddy_free_at b ar (data_offset a)"
proof -
  obtain b ar a where a: "buddy_alloc ex_buddy ex_arena 24 = Some (b, ar, Some a)" using ex_alloc by blast
  with buddy_free_agrees [OF ex_reach a] show ?thesis by blast
qed

end
