(* ===== verification/Fixed.thy ===== *)
theory Fixed
  imports Allocator
begin

text \<open>
  The three-class slab allocator of \<open>src/v5/fixed.rs\<close>. The arrays \<open>[usize; 3]\<close> are lists of length
  three; an arithmetic overflow or underflow in \<open>build\<close> is a panic.
\<close>

record size_percent_pair =
  sp_size :: nat
  sp_percent :: nat

record fixed =
  f_arena_size :: nat
  f_sizes :: "nat list"
  f_usable :: "nat list"
  f_free_lists :: "nat list list"
  f_starts :: "nat list"
  f_counts :: "nat list"

definition DEFAULT_SMALL_SIZE :: nat where "DEFAULT_SMALL_SIZE = 8 * 1024"
definition DEFAULT_MEDIUM_SIZE :: nat where "DEFAULT_MEDIUM_SIZE = 64 * 1024"
definition DEFAULT_LARGE_SIZE :: nat where "DEFAULT_LARGE_SIZE = 128 * 1024"
definition SMALL_PERCENT :: nat where "SMALL_PERCENT = 50"
definition MEDIUM_PERCENT :: nat where "MEDIUM_PERCENT = 30"

section \<open>Construction\<close>

definition initialize_free_lists :: "fixed \<Rightarrow> fixed" where
  "initialize_free_lists f =
     f \<lparr> f_free_lists := map (\<lambda>c. map (\<lambda>i. f_starts f ! c + i * f_sizes f ! c) [0..<f_counts f ! c]) [0..<3] \<rparr>"

definition fixed_build :: "nat \<Rightarrow> nat \<Rightarrow> nat \<Rightarrow> nat \<Rightarrow> nat \<Rightarrow> nat \<Rightarrow> (error + fixed) option" where
  "fixed_build arena_len small medium large small_percent medium_percent =
    (if small \<le> ALLOCATOR_HEADER_SIZE \<or> medium \<le> ALLOCATOR_HEADER_SIZE \<or> large \<le> ALLOCATOR_HEADER_SIZE
     then Some (Inl BlockTooSmallForHeader)
     else if small > medium \<or> medium > large then Some (Inl InvalidBlockSizeOrder)
     else do {
       sp \<leftarrow> checked_mul arena_len small_percent;
       let small_region = sp div 100 div small * small;
       mp \<leftarrow> checked_mul arena_len medium_percent;
       let medium_region = mp div 100 div medium * medium;
       r1 \<leftarrow> checked_sub arena_len small_region;
       remaining \<leftarrow> checked_sub r1 medium_region;
       let large_region = remaining div large * large;
       if small_region = 0 \<or> medium_region = 0 \<or> large_region = 0 then Some (Inl InvalidArenaSize)
       else Some (Inr (initialize_free_lists
         \<lparr> f_arena_size = arena_len,
           f_sizes = [small, medium, large],
           f_usable = [small - ALLOCATOR_HEADER_SIZE, medium - ALLOCATOR_HEADER_SIZE, large - ALLOCATOR_HEADER_SIZE],
           f_free_lists = [[], [], []],
           f_starts = [0, small_region, small_region + medium_region],
           f_counts = [small_region div small, medium_region div medium, large_region div large] \<rparr>))
     })"

definition fixed_new_with_sizes :: "nat \<Rightarrow> nat \<Rightarrow> nat \<Rightarrow> nat \<Rightarrow> (error + fixed) option" where
  "fixed_new_with_sizes arena_len small medium large =
     fixed_build arena_len small medium large SMALL_PERCENT MEDIUM_PERCENT"

definition fixed_new :: "nat \<Rightarrow> (error + fixed) option" where
  "fixed_new arena_len =
     fixed_new_with_sizes arena_len DEFAULT_SMALL_SIZE DEFAULT_MEDIUM_SIZE DEFAULT_LARGE_SIZE"

definition fixed_new_from_config :: "nat \<Rightarrow> size_percent_pair list \<Rightarrow> (error + fixed) option" where
  "fixed_new_from_config arena_len classes =
     (if length classes \<noteq> 3 then Some (Inl InvalidSizeClassConfiguration)
      else let percent = (\<Sum>c\<leftarrow>classes. sp_percent c) in
        if percent \<ge> 2 ^ 32 then None
        else if percent \<noteq> 100 then Some (Inl InvalidSizeClassConfiguration)
        else fixed_build arena_len (sp_size (classes ! 0)) (sp_size (classes ! 1)) (sp_size (classes ! 2))
               (sp_percent (classes ! 0)) (sp_percent (classes ! 1)))"

section \<open>Allocation and release\<close>

text \<open>\<open>(class..3).find_map\<close> over \<open>alloc_from_class\<close>: the first class with a free block gives its last.\<close>

primrec alloc_from_classes :: "nat list list \<Rightarrow> nat list \<Rightarrow> (nat \<times> nat \<times> nat list list) option" where
  "alloc_from_classes fl [] = None"
| "alloc_from_classes fl (c # cs) =
     (case vec_pop (fl ! c) of
        (rest, Some off) \<Rightarrow> Some (c, off, fl[c := rest])
      | (_, None) \<Rightarrow> alloc_from_classes fl cs)"

definition class_for_size :: "fixed \<Rightarrow> nat \<Rightarrow> nat option" where
  "class_for_size f sz =
     (if sz \<le> f_usable f ! 0 then Some 0
      else if sz \<le> f_usable f ! 1 then Some 1
      else if sz \<le> f_usable f ! 2 then Some 2
      else None)"

definition fixed_alloc :: "fixed \<Rightarrow> arena \<Rightarrow> nat \<Rightarrow> (fixed \<times> arena \<times> allocation option) option" where
  "fixed_alloc f ar sz =
     (if alen ar \<noteq> f_arena_size f \<or> sz = 0 then Some (f, ar, None)
      else case class_for_size f sz of
        None \<Rightarrow> Some (f, ar, None)
      | Some class0 \<Rightarrow>
          (case alloc_from_classes (f_free_lists f) [class0..<3] of
             None \<Rightarrow> Some (f, ar, None)
           | Some (c, off, fl) \<Rightarrow> do {
               ar' \<leftarrow> write_header ar off sz;
               Some (f \<lparr> f_free_lists := fl \<rparr>, ar',
                 Some \<lparr> block_offset = off, data_offset = off + ALLOCATOR_HEADER_SIZE,
                        al_len = sz, al_cap = f_usable f ! c \<rparr>)
             }))"

definition fixed_max_allocation :: "fixed \<Rightarrow> nat option" where
  "fixed_max_allocation f = Some (f_usable f ! 2)"

primrec class_search :: "fixed \<Rightarrow> nat \<Rightarrow> nat list \<Rightarrow> nat option" where
  "class_search f off [] = None"
| "class_search f off (c # cs) =
     (if off \<ge> f_starts f ! c \<and> off < f_starts f ! c + f_counts f ! c * f_sizes f ! c then
        if (off - f_starts f ! c) mod (f_sizes f ! c) = 0 then Some c else None
      else class_search f off cs)"

definition class_for_offset :: "fixed \<Rightarrow> nat \<Rightarrow> nat option" where
  "class_for_offset f off = class_search f off (rev [0..<3])"

definition fixed_free_at :: "fixed \<Rightarrow> arena \<Rightarrow> nat \<Rightarrow> (fixed \<times> arena \<times> (error + unit)) option" where
  "fixed_free_at f ar d =
     (if alen ar \<noteq> f_arena_size f then Some (f, ar, Inl InvalidArenaSize)
      else case checked_sub d ALLOCATOR_HEADER_SIZE of
        None \<Rightarrow> Some (f, ar, Inl InvalidOffset)
      | Some off \<Rightarrow>
          (case class_for_offset f off of
             None \<Rightarrow> Some (f, ar, Inl InvalidOffset)
           | Some c \<Rightarrow>
               (case read_header ar off of
                  None \<Rightarrow> Some (f, ar, Inl InvalidOffset)
                | Some (magic, _) \<Rightarrow>
                    if magic \<noteq> MAGIC then Some (f, ar, Inl NotAllocated)
                    else do {
                      ar' \<leftarrow> clear_magic ar off;
                      fl \<leftarrow> vec_push_at (f_free_lists f) c off;
                      Some (f \<lparr> f_free_lists := fl \<rparr>, ar', Inr ())
                    })))"

definition fixed_free :: "fixed \<Rightarrow> arena \<Rightarrow> allocation \<Rightarrow> (fixed \<times> arena \<times> (error + unit)) option" where
  "fixed_free f ar a = fixed_free_at f ar (data_offset a)"

definition fixed_is_valid_offset :: "fixed \<Rightarrow> nat \<Rightarrow> bool" where
  "fixed_is_valid_offset f d =
     (case checked_sub d ALLOCATOR_HEADER_SIZE of
        None \<Rightarrow> False
      | Some off \<Rightarrow> class_for_offset f off \<noteq> None)"

definition fixed_available :: "fixed \<Rightarrow> nat" where
  "fixed_available f = (\<Sum>c\<leftarrow>[0..<3]. length (f_free_lists f ! c) * f_usable f ! c)"

definition fixed_reset :: "fixed \<Rightarrow> arena \<Rightarrow> (fixed \<times> arena \<times> (error + unit)) option" where
  "fixed_reset f ar =
     (if alen ar \<noteq> f_arena_size f then Some (f, ar, Inl InvalidArenaSize)
      else Some (initialize_free_lists f, ar, Inr ()))"

definition available_blocks :: "fixed \<Rightarrow> nat list" where
  "available_blocks f = map length (f_free_lists f)"

section \<open>Layout\<close>

definition fixed_cfg :: "fixed \<Rightarrow> bool" where
  "fixed_cfg f \<longleftrightarrow>
     length (f_sizes f) = 3 \<and> length (f_counts f) = 3 \<and> length (f_free_lists f) = 3 \<and>
     f_usable f = map (\<lambda>s. s - 8) (f_sizes f) \<and>
     (\<forall>c<3. 8 < f_sizes f ! c) \<and> sorted (f_sizes f) \<and>
     f_starts f = [0, f_counts f ! 0 * f_sizes f ! 0,
                   f_counts f ! 0 * f_sizes f ! 0 + f_counts f ! 1 * f_sizes f ! 1] \<and>
     f_starts f ! 2 + f_counts f ! 2 * f_sizes f ! 2 \<le> f_arena_size f \<and>
     f_arena_size f \<le> usize_max"

definition blocks :: "fixed \<Rightarrow> nat \<Rightarrow> nat set" where
  "blocks f c = (\<lambda>i. f_starts f ! c + i * f_sizes f ! c) ` {0..<f_counts f ! c}"

text \<open>\<open>S\<close> is the ghost set of live block offsets.\<close>

definition fixed_ok :: "fixed \<Rightarrow> arena \<Rightarrow> nat set \<Rightarrow> bool" where
  "fixed_ok f ar S \<longleftrightarrow>
     fixed_cfg f \<and> alen ar = f_arena_size f \<and>
     (\<forall>c<3. distinct (f_free_lists f ! c) \<and> set (f_free_lists f ! c) = blocks f c - S) \<and>
     S \<subseteq> (\<Union>c<3. blocks f c) \<and>
     (\<forall>x\<in>S. \<exists>v. read_header ar x = Some (MAGIC, v))"

lemma less_3: "(c :: nat) < 3 \<longleftrightarrow> c = 0 \<or> c = 1 \<or> c = 2"
  by auto

lemma fixed_cfgD:
  assumes "fixed_cfg f"
  shows "length (f_free_lists f) = 3" "length (f_sizes f) = 3"
    "c < 3 \<Longrightarrow> 8 < f_sizes f ! c" "c < 3 \<Longrightarrow> f_usable f ! c = f_sizes f ! c - 8"
    "c < 3 \<Longrightarrow> f_starts f ! c + f_counts f ! c * f_sizes f ! c \<le> f_arena_size f"
    "c < j \<Longrightarrow> j < 3 \<Longrightarrow> f_starts f ! c + f_counts f ! c * f_sizes f ! c \<le> f_starts f ! j"
    "c \<le> j \<Longrightarrow> j < 3 \<Longrightarrow> f_sizes f ! c \<le> f_sizes f ! j"
proof -
  show "c < j \<Longrightarrow> j < 3 \<Longrightarrow> f_starts f ! c + f_counts f ! c * f_sizes f ! c \<le> f_starts f ! j"
  proof -
    assume "c < j" "j < 3"
    then have "(c = 0 \<and> j = 1) \<or> (c = 0 \<and> j = 2) \<or> (c = 1 \<and> j = 2)" by auto
    then show ?thesis using assms by (auto simp: fixed_cfg_def)
  qed
qed (use assms in \<open>auto simp: fixed_cfg_def less_3 sorted_iff_nth_mono\<close>)

lemma blocks_mem: "x \<in> blocks f c \<longleftrightarrow> (\<exists>i<f_counts f ! c. x = f_starts f ! c + i * f_sizes f ! c)"
  by (auto simp: blocks_def)

lemma block_bounds:
  assumes "fixed_cfg f" "c < 3" "x \<in> blocks f c"
  shows "f_starts f ! c \<le> x" "x + f_sizes f ! c \<le> f_starts f ! c + f_counts f ! c * f_sizes f ! c"
proof -
  obtain i where i: "x = f_starts f ! c + i * f_sizes f ! c" "i < f_counts f ! c"
    using assms(3) blocks_mem by blast
  then show "f_starts f ! c \<le> x" by simp
  have "Suc i * f_sizes f ! c \<le> f_counts f ! c * f_sizes f ! c" using i(2) by (intro mult_le_mono1) simp
  then show "x + f_sizes f ! c \<le> f_starts f ! c + f_counts f ! c * f_sizes f ! c"
    using i(1) by (simp add: add.commute)
qed

lemma block_in_arena:
  assumes "fixed_cfg f" "c < 3" "x \<in> blocks f c"
  shows "x + f_sizes f ! c \<le> f_arena_size f" "x + 8 < x + f_sizes f ! c"
  using block_bounds [OF assms] fixed_cfgD(3,5) [OF assms(1), of c] assms(2) by auto

text \<open>Distinct blocks, of the same or of different classes, do not overlap.\<close>

lemma blocks_disjoint:
  assumes cfg: "fixed_cfg f" and c: "c < 3" "x \<in> blocks f c" and j: "j < 3" "y \<in> blocks f j" and ne: "x \<noteq> y"
  shows "{x..<x + f_sizes f ! c} \<inter> {y..<y + f_sizes f ! j} = {}"
proof -
  have "x + f_sizes f ! c \<le> y \<or> y + f_sizes f ! j \<le> x"
  proof (cases "c = j")
    case True
    let ?s = "f_sizes f ! c"
    obtain i k where i: "x = f_starts f ! c + i * ?s" and k: "y = f_starts f ! c + k * ?s"
      using c(2) j(2) True by (auto simp: blocks_def)
    have "Suc i \<le> k \<or> Suc k \<le> i" using ne i k by (metis nat_neq_iff Suc_leI)
    then have "Suc i * ?s \<le> k * ?s \<or> Suc k * ?s \<le> i * ?s" by (metis mult_le_mono1)
    then show ?thesis using i k True by (metis (no_types, lifting) add.assoc add.commute mult_Suc nat_add_left_cancel_le)
  next
    case False
    then have "c < j \<or> j < c" by auto
    then show ?thesis
      using block_bounds [OF cfg c] block_bounds [OF cfg j] fixed_cfgD(6) [OF cfg, of c j]
        fixed_cfgD(6) [OF cfg, of j c] c(1) j(1) by linarith
  qed
  then show ?thesis by auto
qed

lemma block_class_unique:
  assumes "fixed_cfg f" "c < 3" "x \<in> blocks f c" "j < 3" "x \<in> blocks f j"
  shows "c = j"
proof (rule ccontr)
  assume "c \<noteq> j"
  then have "c < j \<or> j < c" by auto
  then show False
    using block_bounds [OF assms(1-3)] block_bounds [OF assms(1,4,5)] fixed_cfgD(6) [OF assms(1), of c j]
      fixed_cfgD(6) [OF assms(1), of j c] fixed_cfgD(3) [OF assms(1,2)] fixed_cfgD(3) [OF assms(1,4)] assms(2,4)
    by linarith
qed

text \<open>\<open>class_for_offset\<close> recognises exactly the block boundaries.\<close>

lemma class_search_Some:
  assumes "class_search f x cs = Some c"
  shows "c \<in> set cs \<and> x \<in> blocks f c"
  using assms
proof (induction cs)
  case (Cons k ks)
  show ?case
  proof (cases "f_starts f ! k \<le> x \<and> x < f_starts f ! k + f_counts f ! k * f_sizes f ! k")
    case True
    with Cons.prems have m: "(x - f_starts f ! k) mod f_sizes f ! k = 0" "c = k" by (auto split: if_splits)
    define i where "i = (x - f_starts f ! k) div f_sizes f ! k"
    have "x - f_starts f ! k = i * f_sizes f ! k" using m(1) by (auto simp: i_def)
    with True have x: "x = f_starts f ! k + i * f_sizes f ! k" by linarith
    with True have "i * f_sizes f ! k < f_counts f ! k * f_sizes f ! k" by linarith
    then have "i < f_counts f ! k" by simp
    with x m(2) show ?thesis by (auto simp: blocks_def)
  next
    case False
    with Cons show ?thesis by auto
  qed
qed simp

lemma class_for_offset_block:
  assumes cfg: "fixed_cfg f" and c: "c < 3" "x \<in> blocks f c"
  shows "class_for_offset f x = Some c"
proof -
  note b = block_bounds [OF cfg c] and s = fixed_cfgD(3) [OF cfg c(1)]
  have inn: "f_starts f ! c \<le> x" "x < f_starts f ! c + f_counts f ! c * f_sizes f ! c"
    using b s by linarith+
  have m: "(x - f_starts f ! c) mod f_sizes f ! c = 0" using c(2) by (auto simp: blocks_def)
  have out: "\<not> (f_starts f ! j \<le> x \<and> x < f_starts f ! j + f_counts f ! j * f_sizes f ! j)" if "c < j" "j < 3" for j
    using fixed_cfgD(6) [OF cfg that] inn by linarith
  have "rev [0..<3] = [2, 1, 0 :: nat]" by (simp add: upt_rec)
  then show ?thesis
    using inn m out [of 1] out [of 2] c(1) unfolding class_for_offset_def less_3 by auto
qed

lemma class_for_offset_iff:
  assumes "fixed_cfg f"
  shows "class_for_offset f x = Some c \<longleftrightarrow> c < 3 \<and> x \<in> blocks f c"
  using class_search_Some [of f x "rev [0..<3]" c] class_for_offset_block [OF assms]
  by (auto simp: class_for_offset_def)

section \<open>Operations keep the invariant\<close>

lemma fixed_okD:
  assumes "fixed_ok f ar S"
  shows "fixed_cfg f" "alen ar = f_arena_size f" "c < 3 \<Longrightarrow> distinct (f_free_lists f ! c)"
    "c < 3 \<Longrightarrow> set (f_free_lists f ! c) = blocks f c - S"
    "x \<in> S \<Longrightarrow> \<exists>c<3. x \<in> blocks f c" "x \<in> S \<Longrightarrow> \<exists>v. read_header ar x = Some (MAGIC, v)"
  using assms by (auto simp: fixed_ok_def)

definition fixed_shape :: "fixed \<Rightarrow> nat \<times> nat list \<times> nat list \<times> nat list \<times> nat list" where
  "fixed_shape f = (f_arena_size f, f_sizes f, f_usable f, f_starts f, f_counts f)"

lemma fixed_shape_cong:
  assumes "fixed_shape f' = fixed_shape f"
  shows "blocks f' c = blocks f c" "f_sizes f' = f_sizes f" "f_usable f' = f_usable f" "f_arena_size f' = f_arena_size f"
    "fixed_cfg f \<Longrightarrow> length (f_free_lists f') = 3 \<Longrightarrow> fixed_cfg f'"
    "class_for_offset f' = class_for_offset f"
proof -
  have cs: "class_search f' x cs = class_search f x cs" for x cs
    using assms by (induction cs) (auto simp: fixed_shape_def)
  then show "class_for_offset f' = class_for_offset f" by (auto simp: class_for_offset_def fun_eq_iff)
qed (use assms in \<open>auto simp: fixed_shape_def blocks_def fixed_cfg_def\<close>)

lemma fixed_live_disjoint:
  assumes ok: "fixed_ok f ar S" and "x \<in> S" "x \<noteq> y" "c < 3" "y \<in> blocks f c"
  shows "{x..<x + 8} \<inter> {y..<y + 8} = {}"
proof -
  obtain j where j: "j < 3" "x \<in> blocks f j" using fixed_okD(5) [OF ok assms(2)] by blast
  note cfg = fixed_okD(1) [OF ok]
  show ?thesis
    using blocks_disjoint [OF cfg j assms(4,5,3)] block_in_arena(2) [OF cfg j] block_in_arena(2) [OF cfg assms(4,5)]
    by (auto simp: disjoint_iff)
qed

lemma alloc_from_classes_cases:
  obtains (none) "alloc_from_classes fl cs = None" "\<forall>c\<in>set cs. fl ! c = []"
  | (some) c as bs where "cs = as @ c # bs" "\<forall>j\<in>set as. fl ! j = []" "fl ! c \<noteq> []"
      "alloc_from_classes fl cs = Some (c, last (fl ! c), fl[c := butlast (fl ! c)])"
proof (induction cs arbitrary: thesis)
  case (Cons k ks)
  show thesis
  proof (cases "fl ! k = []")
    case True
    then have eq: "alloc_from_classes fl (k # ks) = alloc_from_classes fl ks" by (simp add: vec_pop_def)
    show thesis
    proof (rule Cons.IH)
      show thesis if "alloc_from_classes fl ks = None" "\<forall>c\<in>set ks. fl ! c = []"
        using that True eq by (intro Cons.prems(1)) auto
      show thesis if "ks = as @ c # bs" "\<forall>j\<in>set as. fl ! j = []" "fl ! c \<noteq> []"
        "alloc_from_classes fl ks = Some (c, last (fl ! c), fl[c := butlast (fl ! c)])" for c as bs
        using that True eq by (intro Cons.prems(2) [of "k # as" c bs]) auto
    qed
  next
    case False
    then show thesis by (intro Cons.prems(2) [of "[]" k ks]) (auto simp: vec_pop_def)
  qed
qed simp

lemma fixed_take_ok:
  assumes ok: "fixed_ok f ar S" and c: "c < 3" and ne: "f_free_lists f ! c \<noteq> []"
  defines "x \<equiv> last (f_free_lists f ! c)"
  obtains ar' where "write_header ar x v = Some ar'" "x \<in> blocks f c" "x \<notin> S"
    "fixed_ok (f \<lparr> f_free_lists := (f_free_lists f)[c := butlast (f_free_lists f ! c)] \<rparr>) ar' (insert x S)"
    "same_outside {x..<x + 8} ar ar'"
proof -
  let ?l = "f_free_lists f ! c" and ?f = "f \<lparr> f_free_lists := (f_free_lists f)[c := butlast (f_free_lists f ! c)] \<rparr>"
  note cfg = fixed_okD(1) [OF ok]
  have "x \<in> set ?l" using ne by (simp add: x_def)
  then have x: "x \<in> blocks f c" "x \<notin> S" using fixed_okD(4) [OF ok c] by auto
  have l: "?l = butlast ?l @ [x]" using ne by (simp add: x_def)
  then have bl: "distinct (butlast ?l)" "set (butlast ?l) = set ?l - {x}"
    using fixed_okD(3) [OF ok c] by (metis distinct_butlast, metis Diff_insert_absorb Un_insert_right append_Nil2 distinct_append list.set(1,2) not_distinct_conv_prefix set_append sup_bot.right_neutral)
  obtain ar' where w: "write_header ar x v = Some ar'"
    using write_header_total [of x ar v] block_in_arena [OF cfg c x(1)] fixed_okD(2) [OF ok] by auto
  note fr = write_header_frame [OF w]
  have len: "length (f_free_lists f) = 3" by (rule fixed_cfgD(1) [OF cfg])
  have sh: "fixed_shape ?f = fixed_shape f" by (simp add: fixed_shape_def)
  have "fixed_ok ?f ar' (insert x S)"
    unfolding fixed_ok_def
  proof (intro conjI)
    show "fixed_cfg ?f" using fixed_shape_cong(5) [OF sh cfg] len by simp
    show "alen ar' = f_arena_size ?f" using same_outside_alen [OF fr] fixed_okD(2) [OF ok] by simp
    have nin: "x \<notin> blocks f j" if "j < 3" "j \<noteq> c" for j
      using block_class_unique [OF cfg c x(1) that(1)] that(2) by auto
    then show "\<forall>j<3. distinct (f_free_lists ?f ! j) \<and> set (f_free_lists ?f ! j) = blocks ?f j - insert x S"
      using bl fixed_okD(3,4) [OF ok] c len by (auto simp: fixed_shape_cong(1) [OF sh] nth_list_update)
    show "insert x S \<subseteq> (\<Union>c<3. blocks ?f c)"
      using fixed_okD(5) [OF ok] x(1) c by (auto simp: fixed_shape_cong(1) [OF sh])
    show "\<forall>y\<in>insert x S. \<exists>v. read_header ar' y = Some (MAGIC, v)"
    proof
      fix y assume "y \<in> insert x S"
      show "\<exists>v. read_header ar' y = Some (MAGIC, v)"
      proof (cases "y = x")
        case True
        then show ?thesis using read_write_header [OF w] cfg fixed_okD(2) [OF ok] by (auto simp: fixed_cfg_def)
      next
        case False
        with \<open>y \<in> insert x S\<close> have "y \<in> S" by simp
        with False show ?thesis
          using read_header_frame [OF fr fixed_live_disjoint [OF ok \<open>y \<in> S\<close> _ c x(1)]] fixed_okD(6) [OF ok] by auto
      qed
    qed
  qed
  with that w x fr show thesis by blast
qed

lemma fixed_free_at_live:
  assumes ok: "fixed_ok f ar S" and x: "x \<in> S"
  obtains f' ar' where "fixed_free_at f ar (x + 8) = Some (f', ar', Inr ())" "fixed_ok f' ar' (S - {x})"
    "fixed_shape f' = fixed_shape f" "same_outside {x..<x + 4} ar ar'"
proof -
  note cfg = fixed_okD(1) [OF ok]
  obtain c where c: "c < 3" "x \<in> blocks f c" using fixed_okD(5) [OF ok x] by blast
  obtain v where v: "read_header ar x = Some (MAGIC, v)" using fixed_okD(6) [OF ok x] by blast
  have len: "length (f_free_lists f) = 3" by (rule fixed_cfgD(1) [OF cfg])
  have "x + 8 \<le> alen ar" using block_in_arena [OF cfg c] fixed_okD(2) [OF ok] by simp
  then obtain ar' where cm: "clear_magic ar x = Some ar'" by (rule clear_magic_total)
  note fr = clear_magic_frame [OF cm]
  let ?f = "f \<lparr> f_free_lists := (f_free_lists f)[c := f_free_lists f ! c @ [x]] \<rparr>"
  have sh: "fixed_shape ?f = fixed_shape f" by (simp add: fixed_shape_def)
  have run: "fixed_free_at f ar (x + 8) = Some (?f, ar', Inr ())"
    using fixed_okD(2) [OF ok] class_for_offset_block [OF cfg c] v cm c(1) len
    by (simp add: fixed_free_at_def ALLOCATOR_HEADER_SIZE_def checked_sub_def vec_push_at_def)
  have "fixed_ok ?f ar' (S - {x})"
    unfolding fixed_ok_def
  proof (intro conjI)
    show "fixed_cfg ?f" using fixed_shape_cong(5) [OF sh cfg] len by simp
    show "alen ar' = f_arena_size ?f" using same_outside_alen [OF fr] fixed_okD(2) [OF ok] by simp
    have nin: "x \<notin> blocks f j" if "j < 3" "j \<noteq> c" for j
      using block_class_unique [OF cfg c that(1)] that(2) by auto
    show "\<forall>j<3. distinct (f_free_lists ?f ! j) \<and> set (f_free_lists ?f ! j) = blocks ?f j - (S - {x})"
    proof (intro allI impI)
      fix j :: nat assume j: "j < 3"
      show "distinct (f_free_lists ?f ! j) \<and> set (f_free_lists ?f ! j) = blocks ?f j - (S - {x})"
      proof (cases "j = c")
        case True
        then show ?thesis
          using fixed_okD(3,4) [OF ok c(1)] c len x by (auto simp: fixed_shape_cong(1) [OF sh])
      next
        case False
        then show ?thesis
          using fixed_okD(3,4) [OF ok j] nin [OF j False] by (auto simp: fixed_shape_cong(1) [OF sh])
      qed
    qed
    show "S - {x} \<subseteq> (\<Union>c<3. blocks ?f c)"
      using fixed_okD(5) [OF ok] by (auto simp: fixed_shape_cong(1) [OF sh])
    show "\<forall>y\<in>S - {x}. \<exists>v. read_header ar' y = Some (MAGIC, v)"
    proof
      fix y assume y: "y \<in> S - {x}"
      then have "{y..<y + 8} \<inter> {x..<x + 4} = {}"
        using fixed_live_disjoint [OF ok _ _ c, of y] by (auto simp: disjoint_iff)
      with y read_header_frame [OF fr] fixed_okD(6) [OF ok, of y] show "\<exists>v. read_header ar' y = Some (MAGIC, v)"
        by simp
    qed
  qed
  with that [OF run] sh fr show thesis by blast
qed

lemma initialize_ok:
  assumes cfg: "fixed_cfg f" and len: "alen ar = f_arena_size f"
  shows "fixed_ok (initialize_free_lists f) ar {}" "fixed_shape (initialize_free_lists f) = fixed_shape f"
proof -
  let ?f = "initialize_free_lists f"
  show sh: "fixed_shape ?f = fixed_shape f" by (simp add: initialize_free_lists_def fixed_shape_def)
  have "f_free_lists ?f ! c = map (\<lambda>i. f_starts f ! c + i * f_sizes f ! c) [0..<f_counts f ! c]" if "c < 3" for c
    using that by (simp add: initialize_free_lists_def)
  moreover have "inj_on (\<lambda>i. f_starts f ! c + i * f_sizes f ! c) A" if "c < 3" for c A
    using fixed_cfgD(3) [OF cfg that] by (auto simp: inj_on_def)
  ultimately have "distinct (f_free_lists ?f ! c) \<and> set (f_free_lists ?f ! c) = blocks f c" if "c < 3" for c
    using that by (simp add: distinct_map blocks_def)
  moreover have "length (f_free_lists ?f) = 3" by (simp add: initialize_free_lists_def)
  ultimately show "fixed_ok ?f ar {}"
    using fixed_shape_cong(4,5) [OF sh] cfg len by (auto simp: fixed_ok_def fixed_shape_cong(1) [OF sh])
qed

lemma fixed_reset_ok:
  assumes "fixed_cfg f" "alen ar = f_arena_size f"
  shows "fixed_reset f ar = Some (initialize_free_lists f, ar, Inr ())"
  using assms by (simp add: fixed_reset_def)

section \<open>The layout \<open>build\<close> produces\<close>

lemma fixed_build_ok:
  assumes b: "fixed_build N s m l sp mp = Some (Inr f)" and N: "N \<le> usize_max"
  shows "fixed_cfg f" "f_arena_size f = N" "f_sizes f = [s, m, l]"
    "f = initialize_free_lists f" "N - (f_starts f ! 2 + f_counts f ! 2 * l) < l" "\<forall>c<3. 0 < f_counts f ! c"
proof -
  have c: "8 < s" "8 < m" "8 < l" "s \<le> m" "m \<le> l"
    using b by (auto simp: fixed_build_def ALLOCATOR_HEADER_SIZE_def split: if_splits)
  define sr mr where "sr = N * sp div 100 div s * s" and "mr = N * mp div 100 div m * m"
  define rem where "rem = N - sr - mr"
  define lr where "lr = rem div l * l"
  have le: "sr \<le> N" "mr \<le> N - sr" and nz: "sr \<noteq> 0" "mr \<noteq> 0" "lr \<noteq> 0"
    and f: "f = initialize_free_lists \<lparr> f_arena_size = N, f_sizes = [s, m, l], f_usable = [s - 8, m - 8, l - 8],
      f_free_lists = [[], [], []], f_starts = [0, sr, sr + mr], f_counts = [sr div s, mr div m, lr div l] \<rparr>"
    using b c unfolding fixed_build_def
    by (auto simp: ALLOCATOR_HEADER_SIZE_def Let_def bind_eq_Some_conv sr_def mr_def lr_def rem_def split: if_splits)
  have dv: "sr div s * s = sr" "mr div m * m = mr" "lr div l * l = lr"
    using c by (simp_all add: sr_def mr_def lr_def)
  have lr: "lr \<le> rem" "rem - lr < l" using c by (simp_all add: lr_def modulo_nat_def [symmetric])
  show "f_arena_size f = N" "f_sizes f = [s, m, l]" "f = initialize_free_lists f"
    by (simp_all add: f initialize_free_lists_def)
  show "fixed_cfg f"
    using c dv le lr N by (auto simp: fixed_cfg_def f initialize_free_lists_def less_3 rem_def)
  show "N - (f_starts f ! 2 + f_counts f ! 2 * l) < l"
    using dv lr le by (simp add: f initialize_free_lists_def rem_def)
  show "\<forall>c<3. 0 < f_counts f ! c"
    using dv nz by (auto simp: f initialize_free_lists_def less_3 intro: Nat.gr0I)
qed

section \<open>The fixed allocator implements the interface\<close>

definition fixed_live :: "fixed \<Rightarrow> nat set \<Rightarrow> live" where
  "fixed_live f S d = (if 8 \<le> d \<and> d - 8 \<in> S then map_option (\<lambda>c. f_usable f ! c) (class_for_offset f (d - 8)) else None)"

definition fixed_inv :: "fixed \<Rightarrow> arena \<Rightarrow> live \<Rightarrow> bool" where
  "fixed_inv f ar L \<longleftrightarrow> (\<exists>S. fixed_ok f ar S \<and> L = fixed_live f S)"

definition fixed_same :: "fixed \<Rightarrow> fixed \<Rightarrow> bool" where
  "fixed_same f f' \<longleftrightarrow> fixed_shape f' = fixed_shape f"

lemma fixed_live_Some:
  assumes "fixed_ok f ar S"
  shows "fixed_live f S d = Some k \<longleftrightarrow> (\<exists>x c. d = x + 8 \<and> x \<in> S \<and> c < 3 \<and> x \<in> blocks f c \<and> k = f_usable f ! c)"
proof (cases "8 \<le> d")
  case True
  then obtain x where "d = x + 8" by (metis add.commute le_add_diff_inverse)
  then show ?thesis
    using class_for_offset_iff [OF fixed_okD(1) [OF assms]] by (auto simp: fixed_live_def)
qed (auto simp: fixed_live_def)

lemma fixed_live_shape: "fixed_shape f' = fixed_shape f \<Longrightarrow> fixed_live f' S = fixed_live f S"
  using fixed_shape_cong(3,6) [of f' f] by (auto simp: fixed_live_def fun_eq_iff)

lemma fixed_live_dom:
  assumes "fixed_ok f ar S"
  shows "fixed_live f S (x + 8) = None \<longleftrightarrow> x \<notin> S"
  using fixed_okD(5) [OF assms, of x] class_for_offset_block [OF fixed_okD(1) [OF assms], of _ x]
  by (auto simp: fixed_live_def)

lemma fixed_live_insert:
  assumes "fixed_cfg f" "c < 3" "x \<in> blocks f c"
  shows "fixed_live f (insert x S) = (fixed_live f S)(x + 8 \<mapsto> f_usable f ! c)"
  using class_for_offset_block [OF assms] by (auto simp: fixed_live_def fun_eq_iff)

lemma fixed_live_delete: "fixed_live f (S - {x}) = (fixed_live f S)(x + 8 := None)"
  by (auto simp: fixed_live_def fun_eq_iff)

lemma fixed_live_empty [simp]: "fixed_live f {} = Map.empty"
  by (auto simp: fixed_live_def)

lemma fixed_separate:
  assumes ok: "fixed_ok f ar S"
  shows "live_separate (alen ar) (fixed_live f S)"
proof -
  note cfg = fixed_okD(1) [OF ok]
  have sz: "x + 8 + f_usable f ! c = x + f_sizes f ! c" "x + 8 + f_usable f ! c \<le> alen ar"
    if "c < 3" "x \<in> blocks f c" for x c
    using block_in_arena [OF cfg that] fixed_cfgD(4) [OF cfg that(1)] fixed_okD(2) [OF ok] by simp_all
  show ?thesis
    unfolding live_separate_def fixed_live_Some [OF ok]
  proof (intro conjI allI impI; elim exE conjE)
    fix d k d' k' x c x' c'
    assume x: "d = x + 8" "c < 3" "x \<in> blocks f c" "k = f_usable f ! c"
      and x': "d' = x' + 8" "c' < 3" "x' \<in> blocks f c'" "k' = f_usable f ! c'" and "d \<noteq> d'"
    have e: "d + k = x + f_sizes f ! c" "d' + k' = x' + f_sizes f ! c'" "d - 8 = x" "d' - 8 = x'"
      using x x' sz(1) [OF x(2,3)] sz(1) [OF x'(2,3)] by simp_all
    have "x \<noteq> x'" using \<open>d \<noteq> d'\<close> x(1) x'(1) by simp
    then show "{d - 8..<d + k} \<inter> {d' - 8..<d' + k'} = {}"
      unfolding e by (rule blocks_disjoint [OF cfg x(2,3) x'(2,3)])
  qed (use sz in auto)
qed

lemma fixed_invE:
  assumes "fixed_inv f ar L"
  obtains S where "fixed_ok f ar S" "L = fixed_live f S"
  using assms by (auto simp: fixed_inv_def)

lemma fixed_invI: "fixed_ok f ar S \<Longrightarrow> fixed_shape f = fixed_shape f0 \<Longrightarrow> fixed_inv f ar (fixed_live f0 S)"
  unfolding fixed_inv_def by (metis fixed_live_shape)

lemma fixed_finite:
  assumes "fixed_ok f ar S"
  shows "finite (dom (fixed_live f S))"
proof (rule finite_subset)
  show "dom (fixed_live f S) \<subseteq> {..<alen ar + 1}"
    using fixed_separate [OF assms] by (auto simp: live_separate_def dest!: spec)
qed simp

lemma fixed_payload:
  assumes "fixed_inv f ar L" "same_outside (payloads L) ar ar'"
  shows "fixed_inv f ar' L"
proof -
  obtain S where S: "fixed_ok f ar S" "L = fixed_live f S" using fixed_invE [OF assms(1)] .
  have "read_header ar' x = read_header ar x" if x: "x \<in> S" for x
  proof (rule read_header_frame [OF assms(2)])
    obtain c where c: "c < 3" "x \<in> blocks f c" using fixed_okD(5) [OF S(1) x] by blast
    then have Lx: "L (x + 8) = Some (f_usable f ! c)" using x by (auto simp: S(2) fixed_live_Some [OF S(1)])
    have "i \<notin> {x..<x + 8}" if "L d = Some k" "d \<le> i" "i < d + k" for i d k
    proof (cases "d = x + 8")
      case False
      then have "{x..<x + 8 + f_usable f ! c} \<inter> {d - 8..<d + k} = {}"
        using fixed_separate [OF S(1)] Lx that(1) unfolding live_separate_def S(2) by (metis add_diff_cancel_right')
      then show ?thesis using that by (auto simp: disjoint_iff)
    qed (use that in auto)
    then show "{x..<x + 8} \<inter> payloads L = {}" by (auto simp: payloads_mem)
  qed
  then have "fixed_ok f ar' S"
    using S(1) same_outside_alen [OF assms(2)] by (simp add: fixed_ok_def)
  with S(2) show ?thesis by (auto simp: fixed_inv_def)
qed

lemma class_for_size_None:
  "fixed_cfg f \<Longrightarrow> class_for_size f sz = None \<longleftrightarrow> (\<forall>c<3. f_usable f ! c < sz)"
  by (auto simp: class_for_size_def less_3)

lemma usable_mono: "fixed_cfg f \<Longrightarrow> c \<le> j \<Longrightarrow> j < 3 \<Longrightarrow> f_usable f ! c \<le> f_usable f ! j"
  using fixed_cfgD(4) [of f c] fixed_cfgD(4) [of f j] fixed_cfgD(7) [of f c j] by simp

lemma class_for_size_Some:
  assumes "fixed_cfg f" "class_for_size f sz = Some c"
  shows "c < 3" "j < 3 \<Longrightarrow> sz \<le> f_usable f ! j \<longleftrightarrow> c \<le> j"
proof -
  have c: "c < 3" "sz \<le> f_usable f ! c" "\<And>j. j < c \<Longrightarrow> f_usable f ! j < sz"
    using assms(2) by (auto simp: class_for_size_def less_Suc_eq numeral_2_eq_2 split: if_splits)
  then show "c < 3" by simp
  show "sz \<le> f_usable f ! j \<longleftrightarrow> c \<le> j" if "j < 3"
    using c usable_mono [OF assms(1) _ that, of c] by (metis leD le_trans linorder_le_less_linear)
qed

text \<open>Outcome of \<open>alloc\<close>: either every block large enough is live, or the block comes from the first
  class, in ascending order, that is large enough and has a free block.\<close>

lemma fixed_alloc_cases:
  assumes ok: "fixed_ok f ar S" and sz: "0 < sz"
  obtains (refused) "fixed_alloc f ar sz = Some (f, ar, None)" "\<And>c. c < 3 \<Longrightarrow> sz \<le> f_usable f ! c \<Longrightarrow> blocks f c \<subseteq> S"
  | (granted) f' ar' c x where
      "fixed_alloc f ar sz = Some (f', ar', Some \<lparr> block_offset = x, data_offset = x + 8, al_len = sz,
         al_cap = f_usable f ! c \<rparr>)"
      "c < 3" "x \<in> blocks f c" "x \<notin> S" "sz \<le> f_usable f ! c" "fixed_ok f' ar' (insert x S)"
      "fixed_shape f' = fixed_shape f" "same_outside {x..<x + 8} ar ar'"
      "\<And>j. j < c \<Longrightarrow> sz \<le> f_usable f ! j \<Longrightarrow> blocks f j \<subseteq> S"
proof (cases "class_for_size f sz")
  case None
  then have "fixed_alloc f ar sz = Some (f, ar, None)" using sz by (simp add: fixed_alloc_def)
  then show thesis
    using refused class_for_size_None [OF fixed_okD(1) [OF ok], of sz] None by (metis leD)
next
  case (Some c0)
  note cs = class_for_size_Some [OF fixed_okD(1) [OF ok] Some]
  have full: "blocks f j \<subseteq> S" if "f_free_lists f ! j = []" "j < 3" for j
    using fixed_okD(4) [OF ok that(2)] that(1) by auto
  show thesis
  proof (cases rule: alloc_from_classes_cases [where fl = "f_free_lists f" and cs = "[c0..<3]"])
    case none
    have "fixed_alloc f ar sz = Some (f, ar, None)" using none(1) Some sz by (simp add: fixed_alloc_def)
    moreover have "blocks f j \<subseteq> S" if "j < 3" "sz \<le> f_usable f ! j" for j
      using full none(2) cs(2) [of j] that by auto
    ultimately show thesis by (rule refused)
  next
    case (some c as bs)
    have c: "c < 3" "c0 \<le> c" and as: "\<And>j. c0 \<le> j \<Longrightarrow> j < c \<Longrightarrow> j \<in> set as"
    proof -
      have "c \<in> set [c0..<3]" unfolding some(1) by simp
      then show "c < 3" "c0 \<le> c" by auto
      have srt: "sorted_wrt (<) (as @ c # bs)" unfolding some(1) [symmetric] by (rule sorted_wrt_upt)
      show "j \<in> set as" if "c0 \<le> j" "j < c" for j
      proof -
        have "j \<in> set (as @ c # bs)" unfolding some(1) [symmetric] using that \<open>c < 3\<close> by simp
        then show ?thesis using srt that(2) by (auto simp: sorted_wrt_append)
      qed
    qed
    let ?x = "last (f_free_lists f ! c)"
    obtain ar' where w: "write_header ar ?x sz = Some ar'" "?x \<in> blocks f c" "?x \<notin> S"
      "fixed_ok (f \<lparr> f_free_lists := (f_free_lists f)[c := butlast (f_free_lists f ! c)] \<rparr>) ar' (insert ?x S)"
      "same_outside {?x..<?x + 8} ar ar'"
      using fixed_take_ok [OF ok c(1) some(3)] .
    show thesis
    proof (rule granted [of _ ar' ?x c])
      show "fixed_alloc f ar sz = Some (f \<lparr> f_free_lists := (f_free_lists f)[c := butlast (f_free_lists f ! c)] \<rparr>, ar',
          Some \<lparr> block_offset = ?x, data_offset = ?x + 8, al_len = sz, al_cap = f_usable f ! c \<rparr>)"
        using some(4) Some sz w(1) fixed_okD(2) [OF ok] by (simp add: fixed_alloc_def ALLOCATOR_HEADER_SIZE_def)
      show "blocks f j \<subseteq> S" if "j < c" "sz \<le> f_usable f ! j" for j
        using full [of j] some(2) as [of j] cs(2) [of j] that c by simp
      show "sz \<le> f_usable f ! c" using cs(2) c by simp
    qed (use w c in \<open>auto simp: fixed_shape_def\<close>)
  qed
qed

lemma fixed_alloc_outcome:
  assumes "fixed_inv f ar L"
  shows "\<exists>f' ar' r. fixed_alloc f ar n = Some (f', ar', r) \<and> fixed_same f f' \<and>
    (case r of
       None \<Rightarrow> ar' = ar \<and> fixed_inv f' ar L
     | Some a \<Rightarrow> data_offset a = block_offset a + 8 \<and> al_len a = n \<and> n \<le> al_cap a \<and> L (data_offset a) = None \<and>
         fixed_inv f' ar' (L(data_offset a \<mapsto> al_cap a)) \<and>
         same_outside {block_offset a..<data_offset a} ar ar')"
proof -
  obtain S where ok: "fixed_ok f ar S" and L: "L = fixed_live f S" using fixed_invE [OF assms] .
  show ?thesis
  proof (cases "n = 0")
    case True
    then show ?thesis using assms by (simp add: fixed_alloc_def fixed_same_def)
  next
    case False
    then have "0 < n" by simp
    with ok show ?thesis
    proof (cases rule: fixed_alloc_cases)
      case refused
      then show ?thesis using assms by (simp add: fixed_same_def)
    next
      case (granted f' ar' c x)
      have "fixed_inv f' ar' (L(x + 8 \<mapsto> f_usable f ! c))"
        using fixed_invI [OF granted(6,7)] fixed_live_insert [OF fixed_okD(1) [OF ok] granted(2,3)] L by simp
      then show ?thesis
        using granted fixed_live_dom [OF ok, of x] L by (simp add: fixed_same_def)
    qed
  qed
qed

lemma fixed_free_at_payload:
  assumes "fixed_inv f ar L" "L d = Some k"
  shows "\<exists>f' ar'. fixed_free_at f ar d = Some (f', ar', Inr ()) \<and> fixed_inv f' ar' (L(d := None)) \<and>
    fixed_same f f' \<and> same_outside {d - 8..<d - 4} ar ar'"
proof -
  obtain S where ok: "fixed_ok f ar S" and L: "L = fixed_live f S" using fixed_invE [OF assms(1)] .
  obtain x where x: "d = x + 8" "x \<in> S" using assms(2) fixed_live_Some [OF ok] L by auto
  obtain f' ar' where r: "fixed_free_at f ar (x + 8) = Some (f', ar', Inr ())" "fixed_ok f' ar' (S - {x})"
    "fixed_shape f' = fixed_shape f" "same_outside {x..<x + 4} ar ar'"
    using fixed_free_at_live [OF ok x(2)] .
  have "fixed_inv f' ar' (L(x + 8 := None))"
    using fixed_invI [OF r(2,3)] fixed_live_delete L by simp
  then show ?thesis using r by (simp add: x(1) fixed_same_def add.commute [of 4])
qed

lemma fixed_alloc_too_big:
  assumes "fixed_inv f ar L" "f_usable f ! 2 < n"
  shows "fixed_alloc f ar n = Some (f, ar, None)"
proof -
  obtain S where ok: "fixed_ok f ar S" using fixed_invE [OF assms(1)] .
  have "f_usable f ! c < n" if "c < 3" for c
    using usable_mono [OF fixed_okD(1) [OF ok], of c 2] that assms(2) by simp
  then have "class_for_size f n = None" using class_for_size_None [OF fixed_okD(1) [OF ok]] by blast
  then show ?thesis by (simp add: fixed_alloc_def)
qed

interpretation fx: allocator fixed_inv fixed_alloc fixed_free_at fixed_is_valid_offset fixed_reset
  fixed_max_allocation fixed_same
proof (unfold_locales, goal_cases)
  case (1 s ar L)
  then show ?case using fixed_separate by (auto elim!: fixed_invE)
next
  case (2 s ar L)
  then show ?case using fixed_finite by (auto elim!: fixed_invE)
next
  case (3 s ar L d c)
  then obtain S where ok: "fixed_ok s ar S" and L: "L = fixed_live s S" using fixed_invE by blast
  show ?case
    using 3(2) class_for_offset_block [OF fixed_okD(1) [OF ok]] unfolding L fixed_live_Some [OF ok]
    by (auto simp: fixed_is_valid_offset_def checked_sub_def ALLOCATOR_HEADER_SIZE_def)
next
  case (4 s ar L ar')
  then show ?case by (rule fixed_payload)
next
  case (5 s ar L n)
  then show ?case using fixed_alloc_outcome by blast
next
  case (6 s ar L n s' ar')
  then show ?case using fixed_alloc_outcome [of s ar L n] by auto
next
  case (7 s ar L n s' ar' a)
  then show ?case using fixed_alloc_outcome [of s ar L n] by (auto simp del: fun_upd_apply)
next
  case (8 s ar L m n)
  then show ?case by (intro fixed_alloc_too_big) (auto simp: fixed_max_allocation_def)
next
  case (10 s ar L d c)
  then show ?case by (rule fixed_free_at_payload)
next
  case (11 s ar L)
  then obtain S where ok: "fixed_ok s ar S" using fixed_invE by blast
  note i = initialize_ok [OF fixed_okD(1,2) [OF ok]]
  show ?case
    using fixed_reset_ok [OF fixed_okD(1,2) [OF ok]] fixed_invI [OF i] i(2) by (simp add: fixed_same_def)
next
  case (14 s s')
  then show ?case
    using fixed_shape_cong(6) [of s' s] by (intro ext) (simp add: fixed_same_def fixed_is_valid_offset_def checked_sub_def)
qed (auto simp: fixed_same_def fixed_shape_def fixed_max_allocation_def)

section \<open>Properties\<close>

definition fixed_reach :: "nat \<Rightarrow> size_percent_pair list \<Rightarrow> fixed \<Rightarrow> arena \<Rightarrow> live \<Rightarrow> bool" where
  "fixed_reach N cs f ar L \<longleftrightarrow> N \<le> usize_max \<and>
     (\<exists>f0 ar0. fixed_new_from_config N cs = Some (Inr f0) \<and> alen ar0 = N \<and>
        client_run fixed_alloc fixed_free_at f0 ar0 f ar L)"

lemma fixed_config_build:
  "fixed_new_from_config N cs = Some (Inr f) \<Longrightarrow>
   fixed_build N (sp_size (cs ! 0)) (sp_size (cs ! 1)) (sp_size (cs ! 2))
     (sp_percent (cs ! 0)) (sp_percent (cs ! 1)) = Some (Inr f)"
  by (auto simp: fixed_new_from_config_def Let_def split: if_splits)

lemma fixed_reachI:
  "fixed_new_from_config N cs = Some (Inr f0) \<Longrightarrow> N \<le> usize_max \<Longrightarrow> alen ar0 = N \<Longrightarrow>
   client_run fixed_alloc fixed_free_at f0 ar0 f ar L \<Longrightarrow> fixed_reach N cs f ar L"
  by (auto simp: fixed_reach_def)

lemma fixed_new_inv:
  assumes "fixed_new_from_config N cs = Some (Inr f0)" "N \<le> usize_max" "alen ar0 = N"
  shows "fixed_inv f0 ar0 Map.empty"
proof -
  note b = fixed_build_ok [OF fixed_config_build [OF assms(1)] assms(2)]
  have "fixed_ok (initialize_free_lists f0) ar0 {}" using initialize_ok(1) [OF b(1)] b(2) assms(3) by simp
  then show ?thesis using b(4) fixed_invI [of f0 ar0 "{}" f0] by simp
qed

lemma fixed_reachD:
  assumes "fixed_reach N cs f ar L"
  obtains f0 where "fixed_inv f ar L" "alen ar = N" "fixed_new_from_config N cs = Some (Inr f0)"
    "fixed_shape f = fixed_shape f0"
proof -
  obtain f0 ar0 where n: "fixed_new_from_config N cs = Some (Inr f0)" "N \<le> usize_max" "alen ar0 = N"
    and run: "client_run fixed_alloc fixed_free_at f0 ar0 f ar L"
    using assms by (auto simp: fixed_reach_def)
  note i0 = fixed_new_inv [OF n]
  show thesis
    using that [of f0] fx.run_inv [OF i0 run] fx.run_cfg [OF i0 run] fx.run_alen [OF i0 run] n
    by (simp add: fixed_same_def)
qed

text \<open>C16. The slab allocator fits tightly: it refuses a request exactly when every block of every class
  that is large enough is live, and otherwise hands out a block of the first sufficient class, in
  ascending order of size, that still has one.\<close>

theorem fixed_alloc_first_fit:
  assumes "fixed_reach N cs f ar L" and "0 < sz"
  shows "\<exists>f' ar' r. fixed_alloc f ar sz = Some (f', ar', r) \<and>
    (case r of
       None \<Rightarrow> \<forall>c<3. \<forall>x\<in>blocks f c. sz \<le> f_usable f ! c \<longrightarrow> x + 8 \<in> dom L
     | Some a \<Rightarrow> \<exists>c<3. block_offset a \<in> blocks f c \<and> al_cap a = f_usable f ! c \<and> sz \<le> al_cap a \<and>
         block_offset a + 8 \<notin> dom L \<and>
         (\<forall>j<c. \<forall>x\<in>blocks f j. sz \<le> f_usable f ! j \<longrightarrow> x + 8 \<in> dom L))"
proof -
  obtain S where ok: "fixed_ok f ar S" and L: "L = fixed_live f S"
    using fixed_reachD [OF assms(1)] by (metis fixed_invE)
  have dm: "x + 8 \<in> dom L \<longleftrightarrow> x \<in> S" for x using fixed_live_dom [OF ok, of x] by (auto simp: L domIff)
  show ?thesis
  proof (cases rule: fixed_alloc_cases [OF ok assms(2)])
    case 1
    then show ?thesis unfolding dm by auto
  next
    case (2 f' ar' c x)
    then show ?thesis unfolding dm by (auto intro!: exI [of _ c])
  qed
qed



text \<open>A block offset belongs to at most one class, and \<open>class_for_offset\<close> finds it exactly for the
  block boundaries of a built layout.\<close>

theorem fixed_class_for_offset:
  assumes "fixed_build N small medium large sp mp = Some (Inr f)" "N \<le> usize_max"
  shows "class_for_offset f x = Some c \<longleftrightarrow>
    c < 3 \<and> (\<exists>i<f_counts f ! c. x = f_starts f ! c + i * f_sizes f ! c)"
  using class_for_offset_iff [OF fixed_build_ok(1) [OF assms]] blocks_mem by blast

text \<open>A slab block released twice in a row is refused the second time as not allocated, and nothing
  changes.\<close>

theorem fixed_double_free:
  assumes "fixed_free_at f ar d = Some (f', ar', Inr ())"
  shows "fixed_free_at f' ar' d = Some (f', ar', Inl NotAllocated)"
proof -
  let ?x = "d - ALLOCATOR_HEADER_SIZE"
  obtain c v where len: "alen ar = f_arena_size f" and d: "ALLOCATOR_HEADER_SIZE \<le> d"
    and cls: "class_for_offset f ?x = Some c" and rd: "read_header ar ?x = Some (MAGIC, v)"
    and cm: "clear_magic ar ?x = Some ar'" and f': "f' = f \<lparr> f_free_lists := f_free_lists f' \<rparr>"
    using assms by (auto simp: fixed_free_at_def checked_sub_def bind_eq_Some_conv split: if_splits option.splits)
  have sh: "fixed_shape f' = fixed_shape f" by (subst f') (simp add: fixed_shape_def)
  have al: "alen ar' = alen ar" using clear_magic_frame [OF cm] by (rule same_outside_alen)
  obtain m1 v1 where r: "read_header ar' ?x = Some (m1, v1)"
    using rd al by (auto simp: read_header_def arena_get_def bind_eq_Some_conv split: if_splits)
  have "m1 \<noteq> MAGIC" using read_clear_magic [OF cm r] by (simp add: MAGIC_def)
  with r len al d cls fixed_shape_cong(4,6) [OF sh] show ?thesis
    by (simp add: fixed_free_at_def checked_sub_def)
qed

section \<open>Witnesses on a 256-byte arena\<close>

definition ex_classes :: "size_percent_pair list" where
  "ex_classes = [\<lparr> sp_size = 16, sp_percent = 50 \<rparr>, \<lparr> sp_size = 32, sp_percent = 30 \<rparr>, \<lparr> sp_size = 64, sp_percent = 20 \<rparr>]"

definition ex_fixed :: fixed where
  "ex_fixed = \<lparr> f_arena_size = 256, f_sizes = [16, 32, 64], f_usable = [8, 24, 56],
     f_free_lists = [[0, 16, 32, 48, 64, 80, 96, 112], [128, 160], [192]],
     f_starts = [0, 128, 192], f_counts = [8, 2, 1] \<rparr>"

definition ex_slab :: arena where
  "ex_slab = \<lparr> alen = 256, abytes = (\<lambda>_. 0) \<rparr>"

lemma ex_build: "fixed_build 256 16 32 64 50 30 = Some (Inr ex_fixed)"
  by (simp add: fixed_build_def checked_mul_def checked_sub_def usize_max_def ALLOCATOR_HEADER_SIZE_def
      initialize_free_lists_def ex_fixed_def upt_rec)

lemma ex_config: "fixed_new_from_config 256 ex_classes = Some (Inr ex_fixed)"
  using ex_build by (simp add: fixed_new_from_config_def ex_classes_def)

lemma ex_fixed_reach: "fixed_reach 256 ex_classes ex_fixed ex_slab Map.empty"
  by (rule fixed_reachI [OF ex_config, rotated 2], rule client_run.start) (simp_all add: ex_slab_def usize_max_def)

lemma ex_fixed_inv: "fixed_inv ex_fixed ex_slab Map.empty"
  by (rule fixed_new_inv [OF ex_config]) (simp_all add: ex_slab_def usize_max_def)

lemma ex_fixed_alloc: "\<exists>f ar. fixed_alloc ex_fixed ex_slab 20 =
    Some (f, ar, Some \<lparr> block_offset = 160, data_offset = 168, al_len = 20, al_cap = 24 \<rparr>)"
  by (simp add: fixed_alloc_def ex_fixed_def ex_slab_def class_for_size_def vec_pop_def upt_rec
      ALLOCATOR_HEADER_SIZE_def write_header_def arena_put_def MAGIC_SIZE_def)

theorem fixed_alloc_first_fit_witness:
  "\<exists>f' ar' a. fixed_alloc ex_fixed ex_slab 20 = Some (f', ar', Some a) \<and> 20 \<le> al_cap a"
  using fixed_alloc_first_fit [OF ex_fixed_reach, of 20] ex_fixed_alloc by auto



theorem fixed_class_for_offset_witness:
  "class_for_offset ex_fixed 160 = Some 1"
  using fixed_class_for_offset [OF ex_build, of 160 1]
  by (simp add: usize_max_def ex_fixed_def)

theorem fixed_double_free_witness:
  "\<exists>f ar a f' ar'. fixed_alloc ex_fixed ex_slab 20 = Some (f, ar, Some a) \<and>
    fixed_free_at f ar (data_offset a) = Some (f', ar', Inr ()) \<and>
    fixed_free_at f' ar' (data_offset a) = Some (f', ar', Inl NotAllocated)"
proof -
  obtain f ar a where a: "fixed_alloc ex_fixed ex_slab 20 = Some (f, ar, Some a)" using ex_fixed_alloc by blast
  obtain f' ar' where r: "fixed_free_at f ar (data_offset a) = Some (f', ar', Inr ())"
    using fx.alloc_free [OF ex_fixed_inv a] by blast
  from a r fixed_double_free [OF r] show ?thesis by blast
qed

end
