(* ===== verification/Consts.thy ===== *)
theory Consts
  imports Prelude
begin

text \<open>The numeric constants of \<open>src/consts.rs\<close> the components share.\<close>

definition DYNSHM_BUFFER_HEADER_SIZE :: nat where "DYNSHM_BUFFER_HEADER_SIZE = 24"
definition DYNSHM_TOTAL_SIZE :: nat where "DYNSHM_TOTAL_SIZE = 4 * 2 ^ 30"
definition MAX_BLOCK_SIZE :: nat where "MAX_BLOCK_SIZE = 256 * 2 ^ 10"
definition MIN_BLOCK_SIZE :: nat where "MIN_BLOCK_SIZE = 16 * 2 ^ 10"
definition MPSC_HEADER_SIZE :: nat where "MPSC_HEADER_SIZE = 128"
definition PAGE_SIZE :: nat where "PAGE_SIZE = 4096"
definition QUEUE_HEADER_SIZE :: nat where "QUEUE_HEADER_SIZE = 64"
definition SHARED_REGION_SIZE :: nat where "SHARED_REGION_SIZE = 16 * 2 ^ 20"

end
