(* ===== verification/Region.thy ===== *)
theory Region
  imports Buddy Fixed Consts
begin

text \<open>
  Regions of the dynamic shared-memory segment (\<open>src/v5/region.rs\<close>): the allocator a region runs,
  chosen at start-up, the shared region that serves many buffers, and the dedicated region that is
  one buffer. The buffer header \<open>DynShmBufferHeader\<close> (\<open>src/v5/dynshm.rs\<close>) is laid out as
  \<open>[offset:8][next:8][len:4][cap:4]\<close>. A region owns its range of the mapping as an arena; a pointer to
  a header is the arena offset it points to; access outside the range is \<open>None\<close>. The clock is an
  argument \<open>now\<close>, the environment variable \<open>SHMIPC_MEM_ALLOCATOR\<close> a boolean argument. The punch of a
  shared mapping keeps its bytes.
\<close>

section \<open>The allocator of a region\<close>

datatype region_allocator = RBuddy buddy | RFixed fixed

fun ra_alloc :: "region_allocator \<Rightarrow> arena \<Rightarrow> nat \<Rightarrow> (region_allocator \<times> arena \<times> allocation option) option" where
  "ra_alloc (RBuddy b) ar n = map_option (\<lambda>(b', ar', r). (RBuddy b', ar', r)) (buddy_alloc b ar n)"
| "ra_alloc (RFixed f) ar n = map_option (\<lambda>(f', ar', r). (RFixed f', ar', r)) (fixed_alloc f ar n)"

fun ra_max_allocation :: "region_allocator \<Rightarrow> nat option" where
  "ra_max_allocation (RBuddy b) = buddy_max_allocation b"
| "ra_max_allocation (RFixed f) = fixed_max_allocation f"

fun ra_free :: "region_allocator \<Rightarrow> arena \<Rightarrow> allocation \<Rightarrow> (region_allocator \<times> arena \<times> (error + unit)) option" where
  "ra_free (RBuddy b) ar a = map_option (\<lambda>(b', ar', r). (RBuddy b', ar', r)) (buddy_free b ar a)"
| "ra_free (RFixed f) ar a = map_option (\<lambda>(f', ar', r). (RFixed f', ar', r)) (fixed_free f ar a)"

fun ra_free_at :: "region_allocator \<Rightarrow> arena \<Rightarrow> nat \<Rightarrow> (region_allocator \<times> arena \<times> (error + unit)) option" where
  "ra_free_at (RBuddy b) ar d = map_option (\<lambda>(b', ar', r). (RBuddy b', ar', r)) (buddy_free_at b ar d)"
| "ra_free_at (RFixed f) ar d = map_option (\<lambda>(f', ar', r). (RFixed f', ar', r)) (fixed_free_at f ar d)"

fun ra_is_valid_offset :: "region_allocator \<Rightarrow> nat \<Rightarrow> bool" where
  "ra_is_valid_offset (RBuddy b) d = buddy_is_valid_offset b d"
| "ra_is_valid_offset (RFixed f) d = fixed_is_valid_offset f d"

fun ra_available :: "region_allocator \<Rightarrow> nat" where
  "ra_available (RBuddy b) = buddy_available b"
| "ra_available (RFixed f) = fixed_available f"

fun ra_reset :: "region_allocator \<Rightarrow> arena \<Rightarrow> (region_allocator \<times> arena \<times> (error + unit)) option" where
  "ra_reset (RBuddy b) ar = map_option (\<lambda>(b', ar', r). (RBuddy b', ar', r)) (buddy_reset b ar)"
| "ra_reset (RFixed f) ar = map_option (\<lambda>(f', ar', r). (RFixed f', ar', r)) (fixed_reset f ar)"

text \<open>The enum implements the interface because both variants do.\<close>

fun ra_inv :: "region_allocator \<Rightarrow> arena \<Rightarrow> live \<Rightarrow> bool" where
  "ra_inv (RBuddy b) ar L = buddy_inv b ar L"
| "ra_inv (RFixed f) ar L = fixed_inv f ar L"

fun ra_same :: "region_allocator \<Rightarrow> region_allocator \<Rightarrow> bool" where
  "ra_same (RBuddy b) (RBuddy b') = buddy_same b b'"
| "ra_same (RFixed f) (RFixed f') = fixed_same f f'"
| "ra_same _ _ = False"

interpretation ra: allocator ra_inv ra_alloc ra_free_at ra_is_valid_offset ra_reset ra_max_allocation ra_same
proof (unfold_locales, goal_cases)
  case (1 s ar L)
  then show ?case using bd.separate fx.separate by (cases s) auto
next
  case (2 s ar L)
  then show ?case using bd.finite_live fx.finite_live by (cases s) auto
next
  case (3 s ar L d c)
  then show ?case using bd.live_valid fx.live_valid by (cases s) auto
next
  case (4 s ar L ar')
  then show ?case using bd.payload fx.payload by (cases s) auto
next
  case (5 s ar L n)
  show ?case
  proof (cases s)
    case (RBuddy b)
    then show ?thesis using 5 bd.alloc_total [of b ar L n] by auto
  next
    case (RFixed f)
    then show ?thesis using 5 fx.alloc_total [of f ar L n] by auto
  qed
next
  case (6 s ar L n s' ar')
  show ?case
  proof (cases s)
    case (RBuddy b)
    then show ?thesis using 6 bd.alloc_none [of b ar L n _ ar'] by auto
  next
    case (RFixed f)
    then show ?thesis using 6 fx.alloc_none [of f ar L n _ ar'] by auto
  qed
next
  case (7 s ar L n s' ar' a)
  show ?case
  proof (cases s)
    case (RBuddy b)
    with 7 obtain b' where r: "buddy_alloc b ar n = Some (b', ar', Some a)" "s' = RBuddy b'"
      and i: "buddy_inv b ar L" by auto
    show ?thesis unfolding RBuddy r(2) ra_inv.simps ra_same.simps by (rule bd.alloc_some [OF i r(1)])
  next
    case (RFixed f)
    with 7 obtain f' where r: "fixed_alloc f ar n = Some (f', ar', Some a)" "s' = RFixed f'"
      and i: "fixed_inv f ar L" by auto
    show ?thesis unfolding RFixed r(2) ra_inv.simps ra_same.simps by (rule fx.alloc_some [OF i r(1)])
  qed
next
  case (8 s ar L m n)
  then show ?case using bd.alloc_too_big [of _ ar L m n] fx.alloc_too_big [of _ ar L m n] by (cases s) auto
next
  case (9 s ar L)
  then show ?case using bd.max_allocation_total fx.max_allocation_total by (cases s) auto
next
  case (10 s ar L d c)
  show ?case
  proof (cases s)
    case (RBuddy b)
    then show ?thesis using 10 bd.free_at_live [of b ar L d c] by (auto simp del: fun_upd_apply)
  next
    case (RFixed f)
    then show ?thesis using 10 fx.free_at_live [of f ar L d c] by (auto simp del: fun_upd_apply)
  qed
next
  case (11 s ar L)
  show ?case
  proof (cases s)
    case (RBuddy b)
    then show ?thesis using 11 bd.reset_ok [of b ar L] by auto
  next
    case (RFixed f)
    then show ?thesis using 11 fx.reset_ok [of f ar L] by auto
  qed
next
  case (12 s)
  then show ?case using bd.same_cfg_refl fx.same_cfg_refl by (cases s) auto
next
  case (13 s s' s'')
  then show ?case by (cases s; cases s'; cases s'') (auto simp: buddy_same_def fixed_same_def)
next
  case (14 s s')
  then have "ra_is_valid_offset s' d = ra_is_valid_offset s d" for d
    by (cases s; cases s'; clarsimp) (metis bd.same_cfg_valid fx.same_cfg_valid)+
  then show ?case ..
next
  case (15 s s')
  then show ?case
    by (cases s; cases s'; clarsimp) (metis bd.same_cfg_max fx.same_cfg_max)+
qed

section \<open>Buffer headers\<close>

record buf_header =
  h_offset :: int
  h_next :: int
  h_len :: nat
  h_cap :: nat

definition buf_header_bytes :: "buf_header \<Rightarrow> byte list" where
  "buf_header_bytes h =
     le_bytes 8 (i64_bits (h_offset h)) @ le_bytes 8 (i64_bits (h_next h)) @
     le_bytes 4 (h_len h) @ le_bytes 4 (h_cap h)"

definition buf_header_of :: "byte list \<Rightarrow> buf_header" where
  "buf_header_of bs =
     \<lparr> h_offset = i64_of (le_nat (take 8 bs)), h_next = i64_of (le_nat (take 8 (drop 8 bs))),
       h_len = le_nat (take 4 (drop 16 bs)), h_cap = le_nat (take 4 (drop 20 bs)) \<rparr>"

definition read_buf_header :: "arena \<Rightarrow> nat \<Rightarrow> buf_header option" where
  "read_buf_header ar p = map_option buf_header_of (arena_get ar p (p + DYNSHM_BUFFER_HEADER_SIZE))"

definition write_buf_header :: "arena \<Rightarrow> nat \<Rightarrow> buf_header \<Rightarrow> arena option" where
  "write_buf_header ar p h = arena_put ar p (buf_header_bytes h)"

text \<open>Assignment to the single field \<open>offset\<close>, the first eight bytes.\<close>

definition write_offset :: "arena \<Rightarrow> nat \<Rightarrow> int \<Rightarrow> arena option" where
  "write_offset ar p v = arena_put ar p (le_bytes 8 (i64_bits v))"

definition write_len :: "arena \<Rightarrow> nat \<Rightarrow> nat \<Rightarrow> arena option" where
  "write_len ar p v = arena_put ar (p + 16) (le_bytes 4 v)"

text \<open>\<open>DynShmBufferHeader::data\<close>, \<open>reserve\<close> and \<open>append\<close>: the slice handed out is its start and length.\<close>

definition buf_data :: "arena \<Rightarrow> nat \<Rightarrow> byte list option" where
  "buf_data ar p = do {
     h \<leftarrow> read_buf_header ar p;
     arena_get ar (p + DYNSHM_BUFFER_HEADER_SIZE) (p + DYNSHM_BUFFER_HEADER_SIZE + h_len h)
   }"

definition buf_reserve :: "arena \<Rightarrow> nat \<Rightarrow> nat \<Rightarrow> (arena \<times> (nat \<times> nat) option) option" where
  "buf_reserve ar p n = do {
     h \<leftarrow> read_buf_header ar p;
     case checked_add (h_len h) n of
       None \<Rightarrow> Some (ar, None)
     | Some e \<Rightarrow>
         if e > h_cap h then Some (ar, None)
         else do {
           ar' \<leftarrow> write_len ar p e;
           Some (ar', Some (p + DYNSHM_BUFFER_HEADER_SIZE + h_len h, n))
         }
   }"

definition buf_append :: "arena \<Rightarrow> nat \<Rightarrow> byte list \<Rightarrow> (arena \<times> bool) option" where
  "buf_append ar p bs = do {
     (ar', room) \<leftarrow> buf_reserve ar p (length bs);
     case room of
       None \<Rightarrow> Some (ar', False)
     | Some (start, _) \<Rightarrow> do {
         ar'' \<leftarrow> arena_put ar' start bs;
         Some (ar'', True)
       }
   }"

section \<open>Shared regions\<close>

record shared_region =
  r_offset :: nat
  r_size :: nat
  r_data :: arena
  r_allocator :: region_allocator
  r_allocs :: nat
  r_activated_at :: int
  r_stale :: bool

definition region_new :: "bool \<Rightarrow> arena \<Rightarrow> nat \<Rightarrow> nat \<Rightarrow> nat \<Rightarrow> nat \<Rightarrow> (error + shared_region) option" where
  "region_new use_fixed data sz offset min_block max_block = do {
     allocator \<leftarrow>
       (if use_fixed then
          let mid = max_block div 4;
              mid' = (if mid \<le> min_block then (min_block + max_block) div 2 else mid)
          in map_option (map_sum id RFixed) (fixed_new_from_config sz
               [\<lparr> sp_size = min_block mod 2 ^ 32, sp_percent = 50 \<rparr>,
                \<lparr> sp_size = mid' mod 2 ^ 32, sp_percent = 30 \<rparr>,
                \<lparr> sp_size = max_block mod 2 ^ 32, sp_percent = 20 \<rparr>])
        else Some (map_sum id RBuddy (buddy_new_with_block_size sz min_block max_block)));
     Some (map_sum id (\<lambda>a. \<lparr> r_offset = offset, r_size = sz, r_data = data, r_allocator = a,
       r_allocs = 0, r_activated_at = 0, r_stale = False \<rparr>) allocator)
   }"

definition region_max_payload :: "shared_region \<Rightarrow> nat option" where
  "region_max_payload r = do {
     m \<leftarrow> ra_max_allocation (r_allocator r);
     Some (m - DYNSHM_BUFFER_HEADER_SIZE)
   }"

text \<open>The rebuild at the head of \<open>alloc\<close>: \<open>None\<close> inside is the early return of a failed reset.\<close>

definition region_activate :: "shared_region \<Rightarrow> int \<Rightarrow> (shared_region \<times> bool) option" where
  "region_activate r now =
     (if r_activated_at r = 0 then
        if r_stale r then do {
          (a, ar, res) \<leftarrow> ra_reset (r_allocator r) (r_data r);
          case res of
            Inl _ \<Rightarrow> Some (r \<lparr> r_allocator := a, r_data := ar \<rparr>, False)
          | Inr _ \<Rightarrow> Some (r \<lparr> r_allocator := a, r_data := ar, r_stale := False,
                             r_allocs := 0, r_activated_at := now \<rparr>, True)
        } else Some (r \<lparr> r_allocs := 0, r_activated_at := now \<rparr>, True)
      else Some (r, True))"

definition region_alloc :: "shared_region \<Rightarrow> int \<Rightarrow> nat \<Rightarrow> (shared_region \<times> nat option) option" where
  "region_alloc r now sz = do {
     (r1, ready) \<leftarrow> region_activate r now;
     if \<not> ready then Some (r1, None)
     else do {
       (a, ar, block) \<leftarrow> ra_alloc (r_allocator r1) (r_data r1) (DYNSHM_BUFFER_HEADER_SIZE + sz);
       case block of
         None \<Rightarrow> Some (r1 \<lparr> r_allocator := a, r_data := ar \<rparr>, None)
       | Some b \<Rightarrow> do {
           cap \<leftarrow> checked_sub (al_cap b) DYNSHM_BUFFER_HEADER_SIZE;
           ar' \<leftarrow> write_buf_header ar (data_offset b)
             \<lparr> h_offset = int (r_offset r1) + int (data_offset b), h_next = 0, h_len = sz, h_cap = cap \<rparr>;
           Some (r1 \<lparr> r_allocator := a, r_data := ar', r_allocs := r_allocs r1 + 1 \<rparr>, Some (data_offset b))
         }
     }
   }"

definition region_free_at :: "shared_region \<Rightarrow> int \<Rightarrow> (shared_region \<times> (error + unit)) option" where
  "region_free_at r g =
     (let local = g - int (r_offset r) in
      if local < - (2 ^ 63) then None
      else if local < 0 then Some (r, Inl InvalidOffset)
      else let d = nat local in
        if \<not> ra_is_valid_offset (r_allocator r) d then Some (r, Inl InvalidOffset)
        else do {
          h \<leftarrow> read_buf_header (r_data r) d;
          if h_offset h = 0 then Some (r, Inl NotAllocated)
          else do {
            ar \<leftarrow> write_offset (r_data r) d 0;
            (a, ar', res) \<leftarrow> ra_free_at (r_allocator r) ar d;
            Some (r \<lparr> r_allocator := a, r_data := ar',
                      r_allocs := (case res of Inl _ \<Rightarrow> r_allocs r | Inr _ \<Rightarrow> r_allocs r - 1) \<rparr>, res)
          }
        })"

definition region_available :: "shared_region \<Rightarrow> nat" where
  "region_available r = ra_available (r_allocator r)"

definition region_is_full :: "shared_region \<Rightarrow> bool" where
  "region_is_full r \<longleftrightarrow> region_available r < DYNSHM_BUFFER_HEADER_SIZE + MIN_BLOCK_SIZE"

definition region_is_empty :: "shared_region \<Rightarrow> bool" where
  "region_is_empty r \<longleftrightarrow> r_allocs r = 0"

text \<open>The second component says whether the range was handed to \<open>punch\<close>.\<close>

definition region_punch_if_idle :: "shared_region \<Rightarrow> int \<Rightarrow> int \<Rightarrow> shared_region \<times> bool" where
  "region_punch_if_idle r now max_age =
     (if r_allocs r \<noteq> 0 \<or> r_activated_at r = 0 \<or> now - r_activated_at r < max_age then (r, False)
      else (r \<lparr> r_activated_at := 0, r_stale := True \<rparr>, True))"

definition region_set_activated_at :: "shared_region \<Rightarrow> int \<Rightarrow> shared_region" where
  "region_set_activated_at r t =
     r \<lparr> r_activated_at := t, r_stale := (if t = 0 then True else r_stale r) \<rparr>"

section \<open>Dedicated regions\<close>

record dedicated_region =
  d_data :: arena
  d_offset :: nat
  d_size :: nat
  d_updated :: int

definition dedicated_new :: "arena \<Rightarrow> nat \<Rightarrow> nat \<Rightarrow> dedicated_region option" where
  "dedicated_new data sz offset = do {
     ar \<leftarrow> write_buf_header data 0 \<lparr> h_offset = 0, h_next = 0, h_len = 0, h_cap = 0 \<rparr>;
     Some \<lparr> d_data = ar, d_offset = offset, d_size = sz, d_updated = 0 \<rparr>
   }"

definition dedicated_is_freed :: "dedicated_region \<Rightarrow> bool option" where
  "dedicated_is_freed d = map_option (\<lambda>h. h_offset h = 0) (read_buf_header (d_data d) 0)"

definition dedicated_alloc :: "dedicated_region \<Rightarrow> int \<Rightarrow> nat \<Rightarrow> (dedicated_region \<times> nat option) option" where
  "dedicated_alloc d now sz = do {
     freed \<leftarrow> dedicated_is_freed d;
     if \<not> freed \<or> sz + DYNSHM_BUFFER_HEADER_SIZE > d_size d then Some (d, None)
     else do {
       ar \<leftarrow> write_buf_header (d_data d) 0 \<lparr> h_offset = int (d_offset d), h_next = 0, h_len = sz,
         h_cap = d_size d - DYNSHM_BUFFER_HEADER_SIZE \<rparr>;
       Some (d \<lparr> d_updated := now, d_data := ar \<rparr>, Some 0)
     }
   }"

definition dedicated_mark_freed :: "dedicated_region \<Rightarrow> int \<Rightarrow> (dedicated_region \<times> (error + unit)) option" where
  "dedicated_mark_freed d now = do {
     h \<leftarrow> read_buf_header (d_data d) 0;
     if h_offset h = 0 then Some (d, Inl NotAllocated)
     else do {
       ar \<leftarrow> write_offset (d_data d) 0 0;
       Some (d \<lparr> d_data := ar, d_updated := now \<rparr>, Inr ())
     }
   }"

definition dedicated_set_updated :: "dedicated_region \<Rightarrow> int \<Rightarrow> dedicated_region" where
  "dedicated_set_updated d t = d \<lparr> d_updated := t \<rparr>"

section \<open>Buffer header encoding\<close>

definition header_fits :: "buf_header \<Rightarrow> bool" where
  "header_fits h \<longleftrightarrow> - (2 ^ 63) \<le> h_offset h \<and> h_offset h < 2 ^ 63 \<and> - (2 ^ 63) \<le> h_next h \<and>
     h_next h < 2 ^ 63 \<and> h_len h < 2 ^ 32 \<and> h_cap h < 2 ^ 32"

lemma length_buf_header_bytes [simp]: "length (buf_header_bytes h) = 24"
  by (simp add: buf_header_bytes_def)

lemma i64_roundtrip8: "- (2 ^ 63) \<le> z \<Longrightarrow> z < 2 ^ 63 \<Longrightarrow> i64_of (i64_bits z mod 256 ^ 8) = z"
  using i64_of_bits [of z] i64_bits_less [of z] by simp

lemma buf_header_of_bytes: "header_fits h \<Longrightarrow> buf_header_of (buf_header_bytes h) = h"
  using i64_roundtrip8 [of "h_offset h"] i64_roundtrip8 [of "h_next h"]
  by (simp add: header_fits_def buf_header_of_def buf_header_bytes_def)

lemma read_buf_header_frame [arena_simps]:
  "same_outside S ar ar' \<Longrightarrow> {p..<p + 24} \<inter> S = {} \<Longrightarrow> read_buf_header ar' p = read_buf_header ar p"
  by (simp add: read_buf_header_def arena_get_frame DYNSHM_BUFFER_HEADER_SIZE_def)

lemma write_buf_header_frame: "write_buf_header ar p h = Some ar' \<Longrightarrow> same_outside {p..<p + 24} ar ar'"
  using arena_put_frame [of ar p "buf_header_bytes h" ar'] by (simp add: write_buf_header_def)

lemma write_buf_header_total: "p + 24 \<le> alen ar \<Longrightarrow> \<exists>ar'. write_buf_header ar p h = Some ar'"
  using arena_put_ok [of p "buf_header_bytes h" ar] by (simp add: write_buf_header_def)

lemma read_write_buf_header:
  assumes "write_buf_header ar p h = Some ar'" "header_fits h"
  shows "read_buf_header ar' p = Some h"
proof -
  have "arena_get ar' p (p + 24) = Some (buf_header_bytes h)"
    by (rule arena_get_put [of ar]) (use assms(1) in \<open>simp_all add: write_buf_header_def\<close>)
  then show ?thesis using buf_header_of_bytes [OF assms(2)]
    by (simp add: read_buf_header_def DYNSHM_BUFFER_HEADER_SIZE_def)
qed

lemma write_offset_total: "p + 24 \<le> alen ar \<Longrightarrow> \<exists>ar'. write_offset ar p v = Some ar'"
  using arena_put_ok [of p "le_bytes 8 (i64_bits v)" ar] by (simp add: write_offset_def)

lemma write_offset_frame: "write_offset ar p v = Some ar' \<Longrightarrow> same_outside {p..<p + 8} ar ar'"
  using arena_put_frame [of ar p "le_bytes 8 (i64_bits v)" ar'] by (simp add: write_offset_def)

text \<open>The field \<open>offset\<close> depends on the first eight bytes only.\<close>

definition offset_at :: "arena \<Rightarrow> nat \<Rightarrow> int option" where
  "offset_at ar p = map_option h_offset (read_buf_header ar p)"

lemma offset_at_bytes:
  "offset_at ar p = (if p + 24 \<le> alen ar then Some (i64_of (le_nat (map (abytes ar) [p..<p + 8]))) else None)"
  by (auto simp: offset_at_def read_buf_header_def DYNSHM_BUFFER_HEADER_SIZE_def arena_get_def buf_header_of_def take_map)

lemma offset_at_frame: "same_outside S ar ar' \<Longrightarrow> {p..<p + 8} \<inter> S = {} \<Longrightarrow> offset_at ar' p = offset_at ar p"
proof -
  assume "same_outside S ar ar'" "{p..<p + 8} \<inter> S = {}"
  then have "map (abytes ar') [p..<p + 8] = map (abytes ar) [p..<p + 8]" "alen ar' = alen ar"
    by (auto simp: same_outside_def disjoint_iff)
  then show ?thesis by (simp only: offset_at_bytes)
qed

lemma offset_at_write_offset:
  assumes "write_offset ar p v = Some ar'" "- (2 ^ 63) \<le> v" "v < 2 ^ 63" "p + 24 \<le> alen ar"
  shows "offset_at ar' p = Some v"
proof -
  have "arena_get ar' p (p + 8) = Some (le_bytes 8 (i64_bits v))"
    by (rule arena_get_put [of ar]) (use assms(1) in \<open>simp_all add: write_offset_def\<close>)
  then have "map (abytes ar') [p..<p + 8] = le_bytes 8 (i64_bits v)" by (simp add: arena_get_def split: if_splits)
  moreover have "alen ar' = alen ar" using write_offset_frame [OF assms(1)] by (rule same_outside_alen)
  ultimately show ?thesis using i64_roundtrip8 assms(2-4) by (simp add: offset_at_bytes)
qed

lemma offset_at_write_buf_header:
  assumes "write_buf_header ar p h = Some ar'" "- (2 ^ 63) \<le> h_offset h" "h_offset h < 2 ^ 63"
  shows "offset_at ar' p = Some (h_offset h)"
proof -
  have "arena_get ar' p (p + 24) = Some (buf_header_bytes h)"
    by (rule arena_get_put [of ar]) (use assms(1) in \<open>simp_all add: write_buf_header_def\<close>)
  then have "read_buf_header ar' p = Some (buf_header_of (buf_header_bytes h))"
    by (simp add: read_buf_header_def DYNSHM_BUFFER_HEADER_SIZE_def)
  then show ?thesis using i64_roundtrip8 [OF assms(2,3)]
    by (simp add: offset_at_def buf_header_of_def buf_header_bytes_def)
qed

section \<open>Invariant of a shared region\<close>

text \<open>\<open>L\<close> maps the offset of every live buffer header to the capacity of its block.\<close>

definition region_ok :: "shared_region \<Rightarrow> live \<Rightarrow> bool" where
  "region_ok r L \<longleftrightarrow>
     ra_inv (r_allocator r) (r_data r) L \<and> alen (r_data r) = r_size r \<and> r_offset r + r_size r < 2 ^ 63 \<and>
     r_allocs r = card (dom L) \<and> (r_activated_at r = 0 \<longrightarrow> L = Map.empty) \<and>
     (\<forall>d. ra_is_valid_offset (r_allocator r) d \<longrightarrow> d + 24 \<le> r_size r) \<and>
     (\<forall>d c. L d = Some c \<longrightarrow> 24 \<le> c \<and> offset_at (r_data r) d = Some (int (r_offset r + d)))"

lemma region_okD:
  assumes "region_ok r L"
  shows "ra_inv (r_allocator r) (r_data r) L" "alen (r_data r) = r_size r" "r_offset r + r_size r < 2 ^ 63"
    "r_allocs r = card (dom L)" "r_activated_at r = 0 \<Longrightarrow> L = Map.empty"
    "ra_is_valid_offset (r_allocator r) d \<Longrightarrow> d + 24 \<le> r_size r"
    "L d = Some c \<Longrightarrow> 24 \<le> c" "L d = Some c \<Longrightarrow> offset_at (r_data r) d = Some (int (r_offset r + d))"
  using assms by (auto simp: region_ok_def)

lemma region_live_bounds:
  assumes "region_ok r L" "L d = Some c"
  shows "8 \<le> d" "d + c \<le> r_size r"
  using ra.bounds [OF region_okD(1) [OF assms(1)] assms(2)] region_okD(2) [OF assms(1)] by auto

lemma region_live_disjoint:
  assumes "region_ok r L" "L d = Some c" "L d' = Some c'" "d \<noteq> d'"
  shows "{d - 8..<d + c} \<inter> {d' - 8..<d' + c'} = {}"
  using ra.disjoint [OF region_okD(1) [OF assms(1)] assms(2-4)] .

text \<open>Clients may write everything after the \<open>offset\<close> field of their own live buffers.\<close>

definition client_area :: "live \<Rightarrow> nat set" where
  "client_area L = (\<Union>d\<in>dom L. {d + 8..<d + the (L d)})"

lemma client_area_mem: "i \<in> client_area L \<longleftrightarrow> (\<exists>d c. L d = Some c \<and> d + 8 \<le> i \<and> i < d + c)"
  by (force simp: client_area_def)

lemma region_client_write:
  assumes ok: "region_ok r L" and fr: "same_outside (client_area L) (r_data r) ar"
  shows "region_ok (r \<lparr> r_data := ar \<rparr>) L"
proof -
  have "client_area L \<subseteq> payloads L" by (auto simp: client_area_mem payloads_mem) (metis add_leD1)
  then have i: "ra_inv (r_allocator r) ar L"
    using ra.payload [OF region_okD(1) [OF ok]] same_outside_mono [OF fr] by blast
  have "offset_at ar d = Some (int (r_offset r + d))" if "L d = Some c" for d c
  proof -
    have "i \<notin> {d..<d + 8}" if "L d' = Some c'" "d' + 8 \<le> i" "i < d' + c'" for i d' c'
      using region_live_disjoint [OF ok \<open>L d = Some c\<close> that(1)] region_okD(7) [OF ok \<open>L d = Some c\<close>] that
      by (cases "d = d'") (auto simp: disjoint_iff)
    then have "{d..<d + 8} \<inter> client_area L = {}" by (auto simp: client_area_mem)
    from offset_at_frame [OF fr this] region_okD(8) [OF ok that] show ?thesis by simp
  qed
  with ok i same_outside_alen [OF fr] show ?thesis by (simp add: region_ok_def)
qed

lemma region_okI:
  assumes "ra_inv (r_allocator r) (r_data r) L" "alen (r_data r) = r_size r" "r_offset r + r_size r < 2 ^ 63"
    "r_allocs r = card (dom L)" "r_activated_at r = 0 \<Longrightarrow> L = Map.empty"
    "\<And>d. ra_is_valid_offset (r_allocator r) d \<Longrightarrow> d + 24 \<le> r_size r"
    "\<And>d c. L d = Some c \<Longrightarrow> 24 \<le> c"
    "\<And>d c. L d = Some c \<Longrightarrow> offset_at (r_data r) d = Some (int (r_offset r + d))"
  shows "region_ok r L"
  using assms by (simp add: region_ok_def)

lemma region_activate_ok:
  assumes ok: "region_ok r L" and now: "now \<noteq> 0"
  shows "\<exists>r1. region_activate r now = Some (r1, True) \<and> region_ok r1 L \<and> r_activated_at r1 \<noteq> 0 \<and>
    r_data r1 = r_data r \<and> r_offset r1 = r_offset r \<and> r_size r1 = r_size r \<and>
    ra_same (r_allocator r) (r_allocator r1)"
proof (cases "r_activated_at r = 0")
  case False
  then show ?thesis using ok by (auto simp: region_activate_def ra.same_cfg_refl)
next
  case True
  then have L: "L = Map.empty" using region_okD(5) [OF ok] by simp
  show ?thesis
  proof (cases "r_stale r")
    case False
    then show ?thesis using ok True now L by (auto simp: region_activate_def region_ok_def ra.same_cfg_refl)
  next
    case stale: True
    obtain a where a: "ra_reset (r_allocator r) (r_data r) = Some (a, r_data r, Inr ())"
      "ra_inv a (r_data r) Map.empty" "ra_same (r_allocator r) a"
      using ra.reset_ok [OF region_okD(1) [OF ok]] by blast
    then show ?thesis using ok True stale now L ra.same_cfg_valid [OF a(3)]
      by (auto simp: region_activate_def region_ok_def)
  qed
qed

text \<open>The header of a new buffer is written over a live payload: the other live buffers keep their bytes.\<close>

lemma other_offset_kept:
  assumes "live_separate N L'" "L' d = Some c" "L' d' = Some c'" "d' \<noteq> d" "8 \<le> c'" "24 \<le> c"
    and "same_outside {d - 8..<d + 24} ar ar'"
  shows "offset_at ar' d' = offset_at ar d'"
proof -
  have "{d - 8..<d + c} \<inter> {d' - 8..<d' + c'} = {}" using assms(1-4) unfolding live_separate_def by blast
  then have "{d'..<d' + 8} \<inter> {d - 8..<d + 24} = {}" using assms(5,6) by (auto simp: disjoint_iff)
  then show ?thesis by (rule offset_at_frame [OF assms(7)])
qed

definition fresh_header :: "shared_region \<Rightarrow> nat \<Rightarrow> nat \<Rightarrow> nat \<Rightarrow> buf_header" where
  "fresh_header r sz d c = \<lparr> h_offset = int (r_offset r) + int d, h_next = 0, h_len = sz, h_cap = c - 24 \<rparr>"

lemma region_place:
  assumes ok: "region_ok r L" and act: "r_activated_at r \<noteq> 0"
    and al: "ra_alloc (r_allocator r) (r_data r) (24 + sz) = Some (a, ar, Some b)"
    and w: "write_buf_header ar (data_offset b) (fresh_header r sz (data_offset b) (al_cap b)) = Some ar'"
  shows "region_ok (r \<lparr> r_allocator := a, r_data := ar', r_allocs := r_allocs r + 1 \<rparr>)
      (L(data_offset b \<mapsto> al_cap b))"
    and "same_outside {data_offset b - 8..<data_offset b + 24} (r_data r) ar'"
proof -
  let ?d = "data_offset b" and ?c = "al_cap b"
  let ?L = "L(?d \<mapsto> ?c)"
  note i = region_okD(1) [OF ok] and n = ra.alloc_some [OF region_okD(1) [OF ok] al] and fr = write_buf_header_frame [OF w]
  have inv: "ra_inv a ar ?L" and c: "24 + sz \<le> ?c" and fresh: "L ?d = None" using n by auto
  show all: "same_outside {?d - 8..<?d + 24} (r_data r) ar'"
  proof (rule same_outside_trans)
    show "same_outside {?d - 8..<?d + 24} (r_data r) ar"
      by (rule same_outside_mono [of "{block_offset b..<?d}"]) (use n in auto)
    show "same_outside {?d - 8..<?d + 24} ar ar'" by (rule same_outside_mono [OF fr]) auto
  qed
  have inv': "ra_inv a ar' ?L"
    by (rule ra.payload [OF inv], rule same_outside_mono [OF fr]) (use c in \<open>force simp: payloads_mem\<close>)
  have len: "alen ar' = r_size r" using same_outside_alen [OF all] region_okD(2) [OF ok] by simp
  have "int (r_offset r) + int ?d < 2 ^ 63"
    using region_okD(3) [OF ok] ra.bounds [OF inv', of ?d ?c] len by simp
  then have off: "offset_at ar' ?d = Some (int (r_offset r) + int ?d)"
    using offset_at_write_buf_header [OF w] by (simp add: fresh_header_def)
  have others: "offset_at ar' d = Some (int (r_offset r + d))" if "L d = Some c'" for d c'
  proof -
    have ne: "d \<noteq> ?d" using that fresh by auto
    have "offset_at ar' d = offset_at (r_data r) d"
      by (rule other_offset_kept [OF ra.separate [OF inv'] _ _ ne _ _ all, of ?c c'])
        (use ne that c region_okD(7) [OF ok that] in simp_all)
    then show ?thesis using region_okD(8) [OF ok that] by simp
  qed
  have card: "card (insert ?d (dom L)) = card (dom L) + 1"
    using fresh ra.finite_live [OF i] by (simp add: domIff)
  show "region_ok (r \<lparr> r_allocator := a, r_data := ar', r_allocs := r_allocs r + 1 \<rparr>) ?L"
  proof (rule region_okI)
    show "d + 24 \<le> r_size (r \<lparr> r_allocator := a, r_data := ar', r_allocs := r_allocs r + 1 \<rparr>)"
      if "ra_is_valid_offset (r_allocator (r \<lparr> r_allocator := a, r_data := ar', r_allocs := r_allocs r + 1 \<rparr>)) d" for d
      using that region_okD(6) [OF ok, of d] n ra.same_cfg_valid [of "r_allocator r" a] by simp
  qed (use inv' len region_okD(3,4,7) [OF ok] card act c off others in \<open>simp_all split: if_splits\<close>)
qed

lemma region_alloc_cases:
  assumes ok: "region_ok r L" and now: "now \<noteq> 0"
  obtains
    (miss) r' where "region_alloc r now sz = Some (r', None)" "region_ok r' L" "r_data r' = r_data r"
      "r_offset r' = r_offset r" "r_size r' = r_size r" "ra_same (r_allocator r) (r_allocator r')"
  | (hit) r' d c where "region_alloc r now sz = Some (r', Some d)" "L d = None" "24 + sz \<le> c"
      "region_ok r' (L(d \<mapsto> c))" "same_outside {d - 8..<d + 24} (r_data r) (r_data r')"
      "c < 2 ^ 32 \<Longrightarrow> read_buf_header (r_data r') d = Some (fresh_header r sz d c)"
      "r_offset r' = r_offset r" "r_size r' = r_size r" "ra_same (r_allocator r) (r_allocator r')"
proof -
  obtain r1 where act: "region_activate r now = Some (r1, True)" and ok1: "region_ok r1 L"
    and eq: "r_activated_at r1 \<noteq> 0" "r_data r1 = r_data r" "r_offset r1 = r_offset r" "r_size r1 = r_size r"
    and same: "ra_same (r_allocator r) (r_allocator r1)"
    using region_activate_ok [OF ok now] by blast
  note i = region_okD(1) [OF ok1]
  obtain a ar res where al: "ra_alloc (r_allocator r1) (r_data r1) (24 + sz) = Some (a, ar, res)"
    using ra.alloc_total [OF i] by blast
  show thesis
  proof (cases res)
    case None
    note n = ra.alloc_none [OF i al [unfolded None]]
    have run: "region_alloc r now sz = Some (r1 \<lparr> r_allocator := a, r_data := ar \<rparr>, None)"
      using act al None by (simp add: region_alloc_def DYNSHM_BUFFER_HEADER_SIZE_def)
    show thesis
    proof (rule miss [OF run])
      show "region_ok (r1 \<lparr> r_allocator := a, r_data := ar \<rparr>) L"
        using n ok1 ra.same_cfg_valid [of "r_allocator r1" a] by (simp add: region_ok_def)
    qed (use eq n same ra.same_cfg_trans in auto)
  next
    case (Some b)
    note n = ra.alloc_some [OF i al [unfolded Some]]
    let ?d = "data_offset b" and ?c = "al_cap b"
    have inv: "ra_inv a ar (L(?d \<mapsto> ?c))" and c: "24 + sz \<le> ?c" and fresh: "L ?d = None" using n by auto
    have bnd: "?d + ?c \<le> alen ar" using ra.bounds [OF inv, of ?d ?c] by auto
    obtain ar' where w: "write_buf_header ar ?d (fresh_header r1 sz ?d ?c) = Some ar'"
      using write_buf_header_total [of ?d ar] bnd c by auto
    have run: "region_alloc r now sz =
        Some (r1 \<lparr> r_allocator := a, r_data := ar', r_allocs := r_allocs r1 + 1 \<rparr>, Some ?d)"
      using act al Some w c
      by (simp add: region_alloc_def DYNSHM_BUFFER_HEADER_SIZE_def checked_sub_def fresh_header_def)
    note placed = region_place [OF ok1 eq(1) al [unfolded Some] w]
    have small: "int (r_offset r) + int ?d < 2 ^ 63"
      using region_okD(3) [OF ok1] region_live_bounds [OF placed(1), of ?d ?c] eq by simp
    show thesis
    proof (rule hit [OF run fresh c placed(1)])
      assume "?c < 2 ^ 32"
      then have "header_fits (fresh_header r1 sz ?d ?c)" using c small eq by (simp add: header_fits_def fresh_header_def)
      then show "read_buf_header (r_data (r1 \<lparr> r_allocator := a, r_data := ar', r_allocs := r_allocs r1 + 1 \<rparr>)) ?d =
          Some (fresh_header r sz ?d ?c)"
        using read_write_buf_header [OF w] eq by (simp add: fresh_header_def)
    qed (use placed(2) eq n ra.same_cfg_trans [OF same, of a] in simp_all)
  qed
qed

lemma region_idle_empty:
  assumes "region_ok r L" "r_allocs r = 0"
  shows "L = Map.empty"
  using ra.finite_live [OF region_okD(1) [OF assms(1)]] region_okD(4) [OF assms(1)] assms(2) by simp

lemma region_punch_ok:
  assumes "region_ok r L"
  shows "region_ok (fst (region_punch_if_idle r now age)) L"
    and "snd (region_punch_if_idle r now age) \<Longrightarrow> L = Map.empty"
proof -
  show "region_ok (fst (region_punch_if_idle r now age)) L"
  proof (cases "r_allocs r = 0")
    case True
    with region_idle_empty [OF assms] assms show ?thesis by (simp add: region_punch_if_idle_def region_ok_def)
  qed (use assms in \<open>simp add: region_punch_if_idle_def\<close>)
  show "snd (region_punch_if_idle r now age) \<Longrightarrow> L = Map.empty"
    using region_idle_empty [OF assms] by (simp add: region_punch_if_idle_def split: if_splits)
qed

section \<open>Releasing\<close>

lemma region_free_live:
  assumes ok: "region_ok r L" and d: "L d = Some c"
  obtains r' where "region_free_at r (int (r_offset r + d)) = Some (r', Inr ())" "region_ok r' (L(d := None))"
    "same_outside {d - 8..<d + 8} (r_data r) (r_data r')" "offset_at (r_data r') d = Some 0"
    "r_offset r' = r_offset r" "r_size r' = r_size r" "ra_same (r_allocator r) (r_allocator r')"
    "r_activated_at r' = r_activated_at r"
proof -
  note i = region_okD(1) [OF ok] and c = region_okD(7) [OF ok d] and b = region_live_bounds [OF ok d]
  note valid = ra.live_valid [OF i d] and len = region_okD(2) [OF ok]
  obtain h where h: "read_buf_header (r_data r) d = Some h" "h_offset h \<noteq> 0"
    using region_okD(8) [OF ok d] b by (auto simp: offset_at_def)
  obtain ar where w: "write_offset (r_data r) d 0 = Some ar"
    using write_offset_total [of d "r_data r"] b c len by auto
  note fr = write_offset_frame [OF w]
  have "ra_inv (r_allocator r) ar L"
    by (rule ra.payload [OF i], rule same_outside_mono [OF fr]) (use c d in \<open>force simp: payloads_mem\<close>)
  from ra.free_at_live [OF this d] obtain a ar' where f: "ra_free_at (r_allocator r) ar d = Some (a, ar', Inr ())"
    "ra_inv a ar' (L(d := None))" "ra_same (r_allocator r) a" "same_outside {d - 8..<d - 4} ar ar'" by blast
  let ?r = "r \<lparr> r_allocator := a, r_data := ar', r_allocs := r_allocs r - 1 \<rparr>"
  have run: "region_free_at r (int (r_offset r + d)) = Some (?r, Inr ())"
    using valid h w f(1) by (simp add: region_free_at_def)
  have all: "same_outside {d - 8..<d + 8} (r_data r) ar'"
  proof (rule same_outside_trans)
    show "same_outside {d - 8..<d + 8} (r_data r) ar" by (rule same_outside_mono [OF fr]) auto
    show "same_outside {d - 8..<d + 8} ar ar'" by (rule same_outside_mono [OF f(4)]) auto
  qed
  have off: "offset_at ar' d = Some 0"
    using offset_at_write_offset [OF w] b c len offset_at_frame [OF f(4), of d] by auto
  have all': "same_outside {d - 8..<d + 24} (r_data r) ar'" by (rule same_outside_mono [OF all]) auto
  have others: "offset_at ar' d' = Some (int (r_offset r + d'))" if "L d' = Some c'" "d' \<noteq> d" for d' c'
    using other_offset_kept [OF ra.separate [OF i] d that(1,2) _ c all'] region_okD(7,8) [OF ok that(1)] by simp
  have "card (dom (L(d := None))) = r_allocs r - 1"
    using region_okD(4) [OF ok] ra.finite_live [OF i] d by (simp add: card_Diff_singleton domI)
  then have "region_ok ?r (L(d := None))"
    using region_okD(2-7) [OF ok] f(2) ra.same_cfg_valid [OF f(3)] same_outside_alen [OF all] others
    unfolding region_ok_def by simp
  then show thesis using that [OF run] all off f(3) by simp
qed

section \<open>Filling a buffer\<close>

lemma read_buf_header_bytes:
  "read_buf_header ar p = (if p + 24 \<le> alen ar then Some
     \<lparr> h_offset = i64_of (le_nat (map (abytes ar) [p..<p + 8])),
       h_next = i64_of (le_nat (map (abytes ar) [p + 8..<p + 16])),
       h_len = le_nat (map (abytes ar) [p + 16..<p + 20]),
       h_cap = le_nat (map (abytes ar) [p + 20..<p + 24]) \<rparr> else None)"
  by (auto simp: read_buf_header_def DYNSHM_BUFFER_HEADER_SIZE_def arena_get_def buf_header_of_def take_map drop_map add.commute)

lemma map_bytes_frame:
  "same_outside S ar ar' \<Longrightarrow> {a..<b} \<inter> S = {} \<Longrightarrow> map (abytes ar') [a..<b] = map (abytes ar) [a..<b]"
  by (auto simp: same_outside_def disjoint_iff)

lemma read_write_len:
  assumes w: "write_len ar p v = Some ar'" and v: "v < 2 ^ 32" and r: "read_buf_header ar p = Some h"
  shows "read_buf_header ar' p = Some (h \<lparr> h_len := v \<rparr>)" "same_outside {p + 16..<p + 20} ar ar'"
proof -
  have "same_outside {p + 16..<p + 16 + length (le_bytes 4 v)} ar ar'"
    by (rule arena_put_frame) (use w in \<open>simp add: write_len_def\<close>)
  then show fr: "same_outside {p + 16..<p + 20} ar ar'" by (simp add: add.commute)
  have "arena_get ar' (p + 16) (p + 16 + 4) = Some (le_bytes 4 v)"
    by (rule arena_get_put [of ar]) (use w in \<open>simp_all add: write_len_def\<close>)
  then have "map (abytes ar') [p + 16..<p + 20] = le_bytes 4 v"
    by (simp add: arena_get_def add.commute split: if_splits)
  then have len: "le_nat (map (abytes ar') [p + 16..<p + 20]) = v" using v by simp
  have eq: "map (abytes ar') [p..<p + 8] = map (abytes ar) [p..<p + 8]"
    "map (abytes ar') [p + 8..<p + 16] = map (abytes ar) [p + 8..<p + 16]"
    "map (abytes ar') [p + 20..<p + 24] = map (abytes ar) [p + 20..<p + 24]"
    by (rule map_bytes_frame [OF fr]; auto)+
  show "read_buf_header ar' p = Some (h \<lparr> h_len := v \<rparr>)"
    using r same_outside_alen [OF fr] unfolding read_buf_header_bytes eq len by (auto split: if_splits)
qed

lemma read_buf_header_cap: "read_buf_header ar p = Some h \<Longrightarrow> h_cap h < 2 ^ 32"
  using le_nat_less [of "map (abytes ar) [p + 20..<p + 24]"]
  by (auto simp: read_buf_header_bytes split: if_splits)

lemma buf_append_ok:
  assumes h: "read_buf_header ar p = Some h" and len: "h_len h + length bs \<le> h_cap h"
    and room: "p + 24 + h_cap h \<le> alen ar"
  obtains ar' where "buf_append ar p bs = Some (ar', True)"
    "read_buf_header ar' p = Some (h \<lparr> h_len := h_len h + length bs \<rparr>)"
    "buf_data ar' p = Some (map (abytes ar) [p + 24..<p + 24 + h_len h] @ bs)"
    "same_outside ({p + 16..<p + 20} \<union> {p + 24 + h_len h..<p + 24 + h_len h + length bs}) ar ar'"
proof -
  let ?e = "h_len h + length bs" and ?s = "p + 24 + h_len h"
  have e: "?e < 2 ^ 32" "?e \<le> usize_max" using read_buf_header_cap [OF h] len by (auto simp: usize_max_def)
  have "p + 24 \<le> alen ar" using h by (auto simp: read_buf_header_bytes split: if_splits)
  then obtain ar1 where w: "write_len ar p ?e = Some ar1"
    using arena_put_ok [of "p + 16" "le_bytes 4 ?e" ar] by (auto simp: write_len_def)
  note h1 = read_write_len [OF w e(1) h]
  have al1: "alen ar1 = alen ar" using same_outside_alen [OF h1(2)] .
  obtain ar2 where p2: "arena_put ar1 ?s bs = Some ar2"
    using arena_put_ok [of ?s bs ar1] al1 len room by auto
  note fr2 = arena_put_frame [OF p2]
  have al2: "alen ar2 = alen ar" using same_outside_alen [OF fr2] al1 by simp
  have run: "buf_append ar p bs = Some (ar2, True)"
    using h e(2) len w p2 by (simp add: buf_append_def buf_reserve_def checked_add_def DYNSHM_BUFFER_HEADER_SIZE_def)
  have h2: "read_buf_header ar2 p = Some (h \<lparr> h_len := ?e \<rparr>)"
    using read_buf_header_frame [OF fr2, of p] h1(1) by auto
  have fresh: "map (abytes ar2) [?s..<?s + length bs] = bs"
    using arena_get_put [OF p2, of "?s + length bs"] by (simp add: arena_get_def split: if_splits)
  have "map (abytes ar2) [p + 24..<?s] = map (abytes ar1) [p + 24..<?s]"
    by (rule map_bytes_frame [OF fr2]) auto
  also have "\<dots> = map (abytes ar) [p + 24..<?s]" by (rule map_bytes_frame [OF h1(2)]) auto
  finally have old: "map (abytes ar2) [p + 24..<?s] = map (abytes ar) [p + 24..<?s]" .
  have "[p + 24..<?s + length bs] = [p + 24..<?s] @ [?s..<?s + length bs]" by (rule upt_add_eq_append) simp
  then have "map (abytes ar2) [p + 24..<?s + length bs] = map (abytes ar) [p + 24..<?s] @ bs"
    by (simp only: map_append old fresh)
  then have dat: "buf_data ar2 p = Some (map (abytes ar) [p + 24..<?s] @ bs)"
    using h2 al2 len room by (simp add: buf_data_def DYNSHM_BUFFER_HEADER_SIZE_def arena_get_def add.assoc)
  have all: "same_outside ({p + 16..<p + 20} \<union> {?s..<?s + length bs}) ar ar2"
    by (rule same_outside_trans [OF same_outside_mono [OF h1(2)] same_outside_mono [OF fr2]]) auto
  show thesis by (rule that [OF run h2 dat all])
qed

lemma buf_append_full:
  "read_buf_header ar p = Some h \<Longrightarrow> h_cap h < h_len h + length bs \<Longrightarrow> buf_append ar p bs = Some (ar, False)"
  by (auto simp: buf_append_def buf_reserve_def checked_add_def)

section \<open>Regions in use\<close>

lemma map_sum_Inr: "map_sum f g x = Inr y \<longleftrightarrow> (\<exists>z. x = Inr z \<and> y = g z)"
  by (cases x) auto

lemma buddy_valid_fits:
  assumes "buddy_cfg b" "buddy_is_valid_offset b d"
  shows "d + (b_min_block b - 8) \<le> b_arena_size b"
proof -
  note c = buddy_cfgD [OF assms(1)]
  have m: "b_min_block b = 2 ^ b_min_shift b" "8 < b_min_block b" "b_max_block b = 2 ^ (b_min_shift b + b_max_order b)"
    "b_max_block b dvd b_arena_size b"
    using assms(1) by (auto simp: buddy_cfg_def ALLOCATOR_HEADER_SIZE_def)
  have d: "8 \<le> d" "d - 8 < b_arena_size b" "b_min_block b dvd d - 8"
    using assms(2) and_mask_eq_0_iff [of "d - 8" "b_min_shift b"] m(1)
    by (auto simp: buddy_is_valid_offset_def ALLOCATOR_HEADER_SIZE_def)
  have "b_min_block b dvd b_arena_size b" using m by (metis dvd_trans le_add1 le_imp_power_dvd)
  then obtain q where q: "b_arena_size b = b_min_block b * q" by (auto simp: dvd_def)
  obtain i where i: "d - 8 = b_min_block b * i" using d(3) by (auto simp: dvd_def)
  have "i < q" using d(2) m(2) unfolding q i by simp
  then have "b_min_block b * (i + 1) \<le> b_min_block b * q" by (intro mult_le_mono) auto
  then have "d - 8 + b_min_block b \<le> b_arena_size b" using q i by simp
  with d(1) m(2) show ?thesis by linarith
qed

lemma fixed_valid_fits:
  assumes "fixed_cfg f" "fixed_is_valid_offset f d"
  shows "d + (f_sizes f ! 0 - 8) \<le> f_arena_size f"
proof -
  obtain c where c: "class_for_offset f (d - 8) = Some c" "8 \<le> d"
    using assms(2) by (auto simp: fixed_is_valid_offset_def checked_sub_def ALLOCATOR_HEADER_SIZE_def split: option.splits if_splits)
  have b: "c < 3" "d - 8 \<in> blocks f c" using c(1) class_for_offset_iff [OF assms(1)] by auto
  have "f_sizes f ! 0 \<le> f_sizes f ! c" using fixed_cfgD [OF assms(1)] b(1) by (auto intro: sorted_nth_mono)
  moreover have "d - 8 + f_sizes f ! c \<le> f_arena_size f" using block_in_arena [OF assms(1) b] by simp
  moreover have "8 < f_sizes f ! 0" using assms(1) by (simp add: fixed_cfg_def)
  ultimately show ?thesis using c(2) by linarith
qed

lemma region_new_ok:
  assumes new: "region_new use_fixed data sz offset mn mx = Some (Inr r)"
    and len: "alen data = sz" and fits: "offset + sz < 2 ^ 63" and mn: "32 \<le> mn" "mn < 2 ^ 32"
  shows "region_ok r Map.empty" "r_offset r = offset" "r_size r = sz" "r_data r = data"
proof -
  have sz: "sz \<le> usize_max" using fits by (simp add: usize_max_def)
  obtain a where r: "r = \<lparr> r_offset = offset, r_size = sz, r_data = data, r_allocator = a,
      r_allocs = 0, r_activated_at = 0, r_stale = False \<rparr>"
    and a: "ra_inv a data Map.empty" "\<And>d. ra_is_valid_offset a d \<Longrightarrow> d + 24 \<le> sz"
  proof (cases use_fixed)
    case True
    obtain cs f where f: "fixed_new_from_config sz cs = Some (Inr f)" "sp_size (cs ! 0) = mn"
      and r: "r = \<lparr> r_offset = offset, r_size = sz, r_data = data, r_allocator = RFixed f,
      r_allocs = 0, r_activated_at = 0, r_stale = False \<rparr>"
      using new True mn by (auto simp: region_new_def Let_def bind_eq_Some_conv map_sum_Inr)
    note b = fixed_build_ok [OF fixed_config_build [OF f(1)] sz]
    have "ra_inv (RFixed f) data Map.empty" using fixed_new_inv [OF f(1) sz len] by simp
    moreover have "d + 24 \<le> sz" if "ra_is_valid_offset (RFixed f) d" for d
      using fixed_valid_fits [OF b(1), of d] that b(2,3) f(2) mn(1) by simp
    ultimately show thesis using that r by blast
  next
    case False
    obtain b where b: "buddy_new_with_block_size sz mn mx = Inr b"
      and r: "r = \<lparr> r_offset = offset, r_size = sz, r_data = data, r_allocator = RBuddy b,
      r_allocs = 0, r_activated_at = 0, r_stale = False \<rparr>"
      using new False by (auto simp: region_new_def bind_eq_Some_conv map_sum_Inr)
    note n = buddy_new_ok [OF b sz len]
    have "ra_inv (RBuddy b) data Map.empty" using n(1) by (auto simp: buddy_inv_def intro!: exI [of _ Map.empty])
    moreover have "d + 24 \<le> sz" if "ra_is_valid_offset (RBuddy b) d" for d
      using buddy_valid_fits [OF buddy_okD(1) [OF n(1)], of d] that n(2,3) mn(1) by simp
    ultimately show thesis using that r by blast
  qed
  show "region_ok r Map.empty" using a len fits by (simp add: r region_ok_def)
qed (use new in \<open>auto simp: region_new_def Let_def bind_eq_Some_conv map_sum_Inr split: if_splits\<close>)

text \<open>What can happen to a shared region: allocations, writes by clients into their own live buffers
  (everything behind the \<open>offset\<close> field), releases of live buffers, and idle punches.\<close>

inductive region_run :: "shared_region \<Rightarrow> shared_region \<Rightarrow> live \<Rightarrow> bool" for r0 where
  start: "region_run r0 r0 Map.empty"
| hit: "region_run r0 r L \<Longrightarrow> now \<noteq> 0 \<Longrightarrow> region_alloc r now sz = Some (r', Some d) \<Longrightarrow>
    read_buf_header (r_data r') d = Some h \<Longrightarrow> region_run r0 r' (L(d \<mapsto> h_cap h + 24))"
| miss: "region_run r0 r L \<Longrightarrow> now \<noteq> 0 \<Longrightarrow> region_alloc r now sz = Some (r', None) \<Longrightarrow> region_run r0 r' L"
| fill: "region_run r0 r L \<Longrightarrow> L d = Some c \<Longrightarrow> d + 8 \<le> i \<Longrightarrow> i + length bs \<le> d + c \<Longrightarrow>
    arena_put (r_data r) i bs = Some ar \<Longrightarrow> region_run r0 (r \<lparr> r_data := ar \<rparr>) L"
| release: "region_run r0 r L \<Longrightarrow> L d = Some c \<Longrightarrow>
    region_free_at r (int (r_offset r + d)) = Some (r', Inr ()) \<Longrightarrow> region_run r0 r' (L(d := None))"
| punch: "region_run r0 r L \<Longrightarrow> region_punch_if_idle r now age = (r', b) \<Longrightarrow> region_run r0 r' L"

lemma region_run_ok:
  assumes "region_run r0 r L" "region_ok r0 Map.empty" "r_size r0 \<le> 2 ^ 32"
  shows "region_ok r L \<and> r_offset r = r_offset r0 \<and> r_size r = r_size r0"
  using assms(1)
proof induction
  case start
  show ?case using assms(2) by simp
next
  case (hit r L now sz r' d h)
  from hit.IH have ok: "region_ok r L" by simp
  show ?case
  proof (cases rule: region_alloc_cases [OF ok hit.hyps(2), of sz])
    case (1 r1)
    then show ?thesis using hit.hyps(3) by simp
  next
    case (2 r1 d1 c)
    have [simp]: "r1 = r'" "d1 = d" using 2(1) hit.hyps(3) by auto
    have "c < 2 ^ 32" using region_live_bounds [OF 2(4), of d c] 2(8) hit.IH assms(3) by simp
    then have "h_cap h + 24 = c" using 2(3,6) hit.hyps(4) by (simp add: fresh_header_def)
    then show ?thesis using 2(4,7,8) hit.IH by (simp del: fun_upd_apply)
  qed
next
  case (miss r L now sz r')
  from miss.IH have ok: "region_ok r L" by simp
  show ?case by (cases rule: region_alloc_cases [OF ok miss.hyps(2), of sz]) (use miss in auto)
next
  case (fill r L d c i bs ar)
  have "same_outside (client_area L) (r_data r) ar"
    by (rule same_outside_mono [OF arena_put_frame [OF fill.hyps(5)]])
      (use fill.hyps in \<open>force simp: client_area_mem\<close>)
  then show ?case using region_client_write fill.IH by simp
next
  case (release r L d c r')
  from release.IH have ok: "region_ok r L" by simp
  show ?case by (rule region_free_live [OF ok release.hyps(2)]) (use release in \<open>simp del: fun_upd_apply\<close>)
next
  case (punch r L now age r' b)
  then show ?case using region_punch_ok(1) [of r L now age] by (auto simp: region_punch_if_idle_def split: if_splits)
qed

section \<open>Dedicated regions in use\<close>

text \<open>\<open>busy\<close> is the ghost flag: the buffer has been handed out and not yet released.\<close>

inductive dedicated_run :: "dedicated_region \<Rightarrow> dedicated_region \<Rightarrow> bool \<Rightarrow> bool" for d0 where
  start: "dedicated_run d0 d0 False"
| alloc: "dedicated_run d0 d busy \<Longrightarrow> dedicated_alloc d now sz = Some (d', r) \<Longrightarrow>
    dedicated_run d0 d' (busy \<or> r \<noteq> None)"
| fill: "dedicated_run d0 d True \<Longrightarrow> 8 \<le> i \<Longrightarrow> arena_put (d_data d) i bs = Some ar \<Longrightarrow>
    dedicated_run d0 (d \<lparr> d_data := ar \<rparr>) True"
| release: "dedicated_run d0 d busy \<Longrightarrow> dedicated_mark_freed d now = Some (d', r) \<Longrightarrow> dedicated_run d0 d' False"
| stamp: "dedicated_run d0 d busy \<Longrightarrow> dedicated_run d0 (dedicated_set_updated d t) busy"

definition dedicated_ok :: "dedicated_region \<Rightarrow> bool \<Rightarrow> bool" where
  "dedicated_ok d busy \<longleftrightarrow> 24 \<le> d_size d \<and> alen (d_data d) = d_size d \<and>
     0 < d_offset d \<and> d_offset d + d_size d < 2 ^ 63 \<and>
     offset_at (d_data d) 0 = Some (if busy then int (d_offset d) else 0)"

lemma dedicated_is_freed_ok: "dedicated_ok d busy \<Longrightarrow> dedicated_is_freed d = Some (\<not> busy)"
  by (auto simp: dedicated_ok_def dedicated_is_freed_def offset_at_def split: if_splits)

lemma dedicated_new_ok:
  assumes "dedicated_new data sz offset = Some d" "24 \<le> sz" "alen data = sz" "0 < offset" "offset + sz < 2 ^ 63"
  shows "dedicated_ok d False" "d_offset d = offset" "d_size d = sz"
proof -
  obtain ar where w: "write_buf_header data 0 \<lparr> h_offset = 0, h_next = 0, h_len = 0, h_cap = 0 \<rparr> = Some ar"
    and d: "d = \<lparr> d_data = ar, d_offset = offset, d_size = sz, d_updated = 0 \<rparr>"
    using assms(1) by (auto simp: dedicated_new_def bind_eq_Some_conv)
  show "dedicated_ok d False" "d_offset d = offset" "d_size d = sz"
    using assms offset_at_write_buf_header [OF w] same_outside_alen [OF write_buf_header_frame [OF w]]
    by (simp_all add: dedicated_ok_def d)
qed

lemma dedicated_alloc_ok:
  assumes ok: "dedicated_ok d busy"
  shows "busy \<or> d_size d < sz + 24 \<Longrightarrow> dedicated_alloc d now sz = Some (d, None)"
    and "\<not> busy \<Longrightarrow> sz + 24 \<le> d_size d \<Longrightarrow> \<exists>d'. dedicated_alloc d now sz = Some (d', Some 0) \<and>
      dedicated_ok d' True \<and> d_offset d' = d_offset d \<and> d_size d' = d_size d \<and>
      (d_size d \<le> 2 ^ 32 \<longrightarrow> read_buf_header (d_data d') 0 =
         Some \<lparr> h_offset = int (d_offset d), h_next = 0, h_len = sz, h_cap = d_size d - 24 \<rparr>)"
proof -
  show "dedicated_alloc d now sz = Some (d, None)" if "busy \<or> d_size d < sz + 24"
    using that dedicated_is_freed_ok [OF ok] by (auto simp: dedicated_alloc_def DYNSHM_BUFFER_HEADER_SIZE_def)
next
  assume nb: "\<not> busy" and fit: "sz + 24 \<le> d_size d"
  let ?h = "\<lparr> h_offset = int (d_offset d), h_next = 0, h_len = sz, h_cap = d_size d - 24 \<rparr>"
  have len: "alen (d_data d) = d_size d" and off: "0 < d_offset d" "d_offset d + d_size d < 2 ^ 63"
    using ok by (auto simp: dedicated_ok_def)
  obtain ar where w: "write_buf_header (d_data d) 0 ?h = Some ar"
    using write_buf_header_total [of 0 "d_data d"] len fit by auto
  let ?d = "d \<lparr> d_updated := now, d_data := ar \<rparr>"
  have run: "dedicated_alloc d now sz = Some (?d, Some 0)"
    using dedicated_is_freed_ok [OF ok] nb fit w by (simp add: dedicated_alloc_def DYNSHM_BUFFER_HEADER_SIZE_def)
  have "dedicated_ok ?d True"
    using ok offset_at_write_buf_header [OF w] same_outside_alen [OF write_buf_header_frame [OF w]] off
    by (simp add: dedicated_ok_def)
  moreover have "read_buf_header ar 0 = Some ?h" if "d_size d \<le> 2 ^ 32"
    by (rule read_write_buf_header [OF w]) (use that fit off in \<open>simp add: header_fits_def\<close>)
  ultimately show "\<exists>d'. dedicated_alloc d now sz = Some (d', Some 0) \<and> dedicated_ok d' True \<and>
      d_offset d' = d_offset d \<and> d_size d' = d_size d \<and>
      (d_size d \<le> 2 ^ 32 \<longrightarrow> read_buf_header (d_data d') 0 = Some ?h)"
    using run by simp
qed

lemma dedicated_mark_freed_ok:
  assumes ok: "dedicated_ok d busy"
  shows "\<not> busy \<Longrightarrow> dedicated_mark_freed d now = Some (d, Inl NotAllocated)"
    and "busy \<Longrightarrow> \<exists>d'. dedicated_mark_freed d now = Some (d', Inr ()) \<and> dedicated_ok d' False \<and>
      d_offset d' = d_offset d \<and> d_size d' = d_size d"
proof -
  show "dedicated_mark_freed d now = Some (d, Inl NotAllocated)" if "\<not> busy"
    using ok that by (auto simp: dedicated_mark_freed_def dedicated_ok_def offset_at_def)
next
  assume b: "busy"
  have len: "24 \<le> alen (d_data d)" using ok by (simp add: dedicated_ok_def)
  obtain h where h: "read_buf_header (d_data d) 0 = Some h" "h_offset h \<noteq> 0"
    using ok b by (auto simp: dedicated_ok_def offset_at_def)
  obtain ar where w: "write_offset (d_data d) 0 0 = Some ar" using write_offset_total [of 0 "d_data d"] len by auto
  have "offset_at ar 0 = Some 0" using offset_at_write_offset [OF w] len by simp
  then have "dedicated_ok (d \<lparr> d_data := ar, d_updated := now \<rparr>) False"
    using ok same_outside_alen [OF write_offset_frame [OF w]] by (simp add: dedicated_ok_def)
  with h w show "\<exists>d'. dedicated_mark_freed d now = Some (d', Inr ()) \<and> dedicated_ok d' False \<and>
      d_offset d' = d_offset d \<and> d_size d' = d_size d" by (simp add: dedicated_mark_freed_def)
qed

lemma dedicated_run_ok:
  assumes "dedicated_run d0 d busy" "dedicated_ok d0 False"
  shows "dedicated_ok d busy \<and> d_offset d = d_offset d0 \<and> d_size d = d_size d0"
  using assms(1)
proof induction
  case (alloc d busy now sz d' r)
  then have ok: "dedicated_ok d busy" by simp
  show ?case
  proof (cases "busy \<or> d_size d < sz + 24")
    case True
    then show ?thesis using dedicated_alloc_ok(1) [OF ok True, of now] alloc by auto
  next
    case False
    then show ?thesis using dedicated_alloc_ok(2) [OF ok, of sz now] alloc by auto
  qed
next
  case (fill d i bs ar)
  note fr = arena_put_frame [OF fill.hyps(3)]
  have "offset_at ar 0 = offset_at (d_data d) 0" by (rule offset_at_frame [OF fr]) (use fill.hyps(2) in auto)
  then show ?case using fill.IH same_outside_alen [OF fr] by (simp add: dedicated_ok_def)
next
  case (release d busy now d' r)
  then have ok: "dedicated_ok d busy" by simp
  show ?case
    using dedicated_mark_freed_ok [OF ok, of now] release by (cases busy) auto
qed (use assms(2) in \<open>simp_all add: dedicated_set_updated_def dedicated_ok_def\<close>)

section \<open>Properties\<close>

text \<open>A region built by \<open>region_new\<close> and used by \<open>region_run\<close>. Blocks of 32 bytes or more leave room for
  both headers.\<close>

definition region_reach :: "bool \<Rightarrow> nat \<Rightarrow> nat \<Rightarrow> nat \<Rightarrow> nat \<Rightarrow> shared_region \<Rightarrow> live \<Rightarrow> bool" where
  "region_reach use_fixed offset sz mn mx r L \<longleftrightarrow>
     32 \<le> mn \<and> mn < 2 ^ 32 \<and> sz \<le> 2 ^ 32 \<and> offset + sz < 2 ^ 63 \<and>
     (\<exists>data r0. alen data = sz \<and> region_new use_fixed data sz offset mn mx = Some (Inr r0) \<and> region_run r0 r L)"

lemma region_reachD:
  assumes "region_reach uf off sz mn mx r L"
  shows "region_ok r L" "r_offset r = off" "r_size r = sz" "sz \<le> 2 ^ 32"
proof -
  obtain data r0 where n: "alen data = sz" "region_new uf data sz off mn mx = Some (Inr r0)" "region_run r0 r L"
    and b: "32 \<le> mn" "mn < 2 ^ 32" "sz \<le> 2 ^ 32" "off + sz < 2 ^ 63"
    using assms by (auto simp: region_reach_def)
  note ok = region_new_ok [OF n(2,1) b(4,1,2)]
  have "r_size r0 \<le> 2 ^ 32" using ok(3) b(3) by simp
  from region_run_ok [OF n(3) ok(1) this] ok b(3)
  show "region_ok r L" "r_offset r = off" "r_size r = sz" "sz \<le> 2 ^ 32" by simp_all
qed

lemma region_reach_run: "region_reach uf off sz mn mx r L \<Longrightarrow> (\<And>r0. region_run r0 r L \<Longrightarrow> region_run r0 r' L') \<Longrightarrow>
    region_reach uf off sz mn mx r' L'"
  unfolding region_reach_def by blast

text \<open>C19. However a shared region is used, its live buffers stay inside the region and disjoint, the
  allocation counter is their number, each carries its own global offset in its header and can be
  released under it, and no request panics.\<close>

theorem region_buffers_safe:
  assumes "region_reach use_fixed offset sz mn mx r L"
  shows "live_separate sz L \<and> r_allocs r = card (dom L) \<and>
    (\<forall>d\<in>dom L. offset_at (r_data r) d = Some (int (offset + d)) \<and>
       (\<exists>r'. region_free_at r (int (offset + d)) = Some (r', Inr ()))) \<and>
    (\<forall>now n. now \<noteq> 0 \<longrightarrow> region_alloc r now n \<noteq> None)"
proof -
  note r = region_reachD [OF assms]
  have sep: "live_separate sz L"
    using ra.separate [OF region_okD(1) [OF r(1)]] region_okD(2) [OF r(1)] r(3) by simp
  have free: "offset_at (r_data r) d = Some (int (offset + d)) \<and>
      (\<exists>r'. region_free_at r (int (offset + d)) = Some (r', Inr ()))" if d: "d \<in> dom L" for d
  proof -
    obtain c where c: "L d = Some c" using d by blast
    show ?thesis by (rule region_free_live [OF r(1) c]) (use region_okD(8) [OF r(1) c] r(2) in auto)
  qed
  have alloc: "region_alloc r now n \<noteq> None" if "now \<noteq> 0" for now n
    by (cases rule: region_alloc_cases [OF r(1) that, of n]) auto
  show ?thesis using sep region_okD(4) [OF r(1)] free alloc by blast
qed

lemma region_alloc_frame:
  assumes ok: "region_ok r L" "now \<noteq> 0" and al: "region_alloc r now n = Some (r', res)"
    and i: "L d = Some c" "d \<le> i" "i < d + c"
  shows "abytes (r_data r') i = abytes (r_data r) i"
proof (cases rule: region_alloc_cases [OF ok, of n])
  case (1 r1)
  then show ?thesis using al by simp
next
  case (2 r1 e k)
  have ne: "e \<noteq> d" using 2(2) i(1) by auto
  have "{e - 8..<e + k} \<inter> {d - 8..<d + c} = {}"
    by (rule region_live_disjoint [OF 2(4)]) (use i(1) ne in auto)
  then have "i \<notin> {e - 8..<e + 24}" using i(2,3) 2(3) by (auto simp: disjoint_iff)
  then show ?thesis using 2(1,5) al by (simp add: same_outside_def)
qed

text \<open>C20. Allocation from a shared region leaves every byte of the live buffers alone; the buffer it hands
  out is a new one whose header says where it is, how long the message is and how much room the block
  has, and that room lies inside the region.\<close>

theorem region_alloc_buffer:
  assumes "region_reach use_fixed offset sz mn mx r L" "now \<noteq> 0" "region_alloc r now n = Some (r', res)"
  shows "(\<forall>d c i. L d = Some c \<longrightarrow> d \<le> i \<longrightarrow> i < d + c \<longrightarrow> abytes (r_data r') i = abytes (r_data r) i) \<and>
    (case res of
       None \<Rightarrow> region_reach use_fixed offset sz mn mx r' L
     | Some d \<Rightarrow> L d = None \<and> (\<exists>cap. n \<le> cap \<and> d + 24 + cap \<le> sz \<and>
         read_buf_header (r_data r') d =
           Some \<lparr> h_offset = int (offset + d), h_next = 0, h_len = n, h_cap = cap \<rparr> \<and>
         region_reach use_fixed offset sz mn mx r' (L(d \<mapsto> cap + 24))))"
proof -
  note r = region_reachD [OF assms(1)]
  have frame: "\<forall>d c i. L d = Some c \<longrightarrow> d \<le> i \<longrightarrow> i < d + c \<longrightarrow> abytes (r_data r') i = abytes (r_data r) i"
    using region_alloc_frame [OF r(1) assms(2,3)] by blast
  show ?thesis
  proof (cases rule: region_alloc_cases [OF r(1) assms(2), of n])
    case (1 r1)
    then show ?thesis
      using frame assms(3) region_reach_run [OF assms(1) region_run.miss [OF _ assms(2) 1(1)]] by simp
  next
    case (2 r1 d c)
    have b: "d + c \<le> sz" using region_live_bounds [OF 2(4), of d c] 2(8) r(3) by simp
    then have h: "read_buf_header (r_data r1) d =
        Some \<lparr> h_offset = int (offset + d), h_next = 0, h_len = n, h_cap = c - 24 \<rparr>"
      using 2(3,6) r(2,4) region_live_bounds(1) [OF 2(4), of d c] by (simp add: fresh_header_def)
    have "region_reach use_fixed offset sz mn mx r1 (L(d \<mapsto> c - 24 + 24))"
      using region_reach_run [OF assms(1) region_run.hit [OF _ assms(2) 2(1) h]] by simp
    then show ?thesis using frame assms(3) 2(1-3) b h by (auto intro!: exI [of _ "c - 24"])
  qed
qed

text \<open>A buffer released twice is refused the second time, and the refusal changes nothing.\<close>

theorem region_double_free:
  assumes "region_reach use_fixed offset sz mn mx r L" "d \<in> dom L"
    "region_free_at r (int (offset + d)) = Some (r', Inr ())"
  shows "region_free_at r' (int (offset + d)) = Some (r', Inl NotAllocated)"
proof -
  note r = region_reachD [OF assms(1)]
  obtain c where c: "L d = Some c" using assms(2) by blast
  show ?thesis
  proof (rule region_free_live [OF r(1) c])
    fix r1
    assume "region_free_at r (int (r_offset r + d)) = Some (r1, Inr ())" and z: "offset_at (r_data r1) d = Some 0"
      and o1: "r_offset r1 = r_offset r" and same: "ra_same (r_allocator r) (r_allocator r1)"
    then have [simp]: "r1 = r'" using assms(3) r(2) by simp
    have "ra_is_valid_offset (r_allocator r') d"
      using ra.live_valid [OF region_okD(1) [OF r(1)] c] ra.same_cfg_valid [OF same] by simp
    then show ?thesis using z o1 r(2) by (auto simp: region_free_at_def offset_at_def)
  qed
qed

text \<open>C21. Appending to a buffer puts the bytes behind what it already holds and updates its length, or
  refuses and changes nothing when the room is short.\<close>

theorem buf_append_data:
  assumes "read_buf_header ar p = Some h" "h_len h \<le> h_cap h" "p + 24 + h_cap h \<le> alen ar"
  shows "if h_len h + length bs \<le> h_cap h
    then \<exists>ar' old. buf_data ar p = Some old \<and> buf_append ar p bs = Some (ar', True) \<and>
           buf_data ar' p = Some (old @ bs) \<and>
           read_buf_header ar' p = Some (h \<lparr> h_len := h_len h + length bs \<rparr>) \<and>
           same_outside {p + 16..<p + 24 + h_cap h} ar ar'
    else buf_append ar p bs = Some (ar, False)"
proof (cases "h_len h + length bs \<le> h_cap h")
  case True
  have old: "buf_data ar p = Some (map (abytes ar) [p + 24..<p + 24 + h_len h])"
    using assms by (simp add: buf_data_def DYNSHM_BUFFER_HEADER_SIZE_def arena_get_def)
  show ?thesis
  proof (rule buf_append_ok [OF assms(1) True assms(3)])
    fix ar'
    assume a: "buf_append ar p bs = Some (ar', True)"
      "read_buf_header ar' p = Some (h \<lparr> h_len := h_len h + length bs \<rparr>)"
      "buf_data ar' p = Some (map (abytes ar) [p + 24..<p + 24 + h_len h] @ bs)"
      and fr: "same_outside ({p + 16..<p + 20} \<union> {p + 24 + h_len h..<p + 24 + h_len h + length bs}) ar ar'"
    have "same_outside {p + 16..<p + 24 + h_cap h} ar ar'" by (rule same_outside_mono [OF fr]) (use True in auto)
    with a old True show ?thesis by simp
  qed
next
  case False
  then show ?thesis using buf_append_full [OF assms(1)] by simp
qed

text \<open>C22. A dedicated region backs one buffer at a time: it is handed out exactly when it is not in use
  and large enough, its busy flag survives whatever the client writes behind it, and a release
  succeeds exactly once per allocation.\<close>

theorem dedicated_exclusive:
  assumes "dedicated_new data sz offset = Some d0" "24 \<le> sz" "alen data = sz" "0 < offset" "offset + sz < 2 ^ 63"
    and "dedicated_run d0 d busy"
  shows "dedicated_is_freed d = Some (\<not> busy) \<and>
    (\<exists>d' r. dedicated_alloc d now n = Some (d', r) \<and> (r \<noteq> None \<longleftrightarrow> \<not> busy \<and> n + 24 \<le> sz)) \<and>
    (\<exists>d' r. dedicated_mark_freed d now = Some (d', r) \<and> (r = Inr () \<longleftrightarrow> busy) \<and> (\<not> busy \<longrightarrow> d' = d))"
proof -
  note n = dedicated_new_ok [OF assms(1-5)]
  have ok: "dedicated_ok d busy" and sz: "d_size d = sz" using dedicated_run_ok [OF assms(6) n(1)] n by auto
  have "\<exists>d' r. dedicated_alloc d now n = Some (d', r) \<and> (r \<noteq> None \<longleftrightarrow> \<not> busy \<and> n + 24 \<le> sz)"
    using dedicated_alloc_ok [OF ok, of n now] sz by (cases "busy \<or> d_size d < n + 24") auto
  moreover have "\<exists>d' r. dedicated_mark_freed d now = Some (d', r) \<and> (r = Inr () \<longleftrightarrow> busy) \<and> (\<not> busy \<longrightarrow> d' = d)"
    using dedicated_mark_freed_ok [OF ok, of now] by (cases busy) auto
  ultimately show ?thesis using dedicated_is_freed_ok [OF ok] by blast
qed

section \<open>Witnesses on a 128-byte region\<close>

definition ex_data :: arena where "ex_data = \<lparr> alen = 128, abytes = (\<lambda>_. 0) \<rparr>"

definition ex_rbuddy :: buddy where
  "ex_rbuddy = \<lparr> b_arena_size = 128, b_min_block = 32, b_max_block = 64, b_min_shift = 5, b_max_order = 1,
     b_free = [[], [0, 64]], b_needs_coalesce = False \<rparr>"

definition ex_region :: shared_region where
  "ex_region = \<lparr> r_offset = 4096, r_size = 128, r_data = ex_data, r_allocator = RBuddy ex_rbuddy,
     r_allocs = 0, r_activated_at = 0, r_stale = False \<rparr>"

lemma ex_region_new: "region_new False ex_data 128 4096 32 64 = Some (Inr ex_region)"
  by (simp add: region_new_def buddy_new_with_block_size_def ex_region_def ex_rbuddy_def is_power_of_two_def
    count_ones.simps trailing_zeros.simps ALLOCATOR_HEADER_SIZE_def step_by_def upt_rec)

lemma ex_region_reach: "region_reach False 4096 128 32 64 ex_region Map.empty"
  unfolding region_reach_def using ex_region_new region_run.start by (auto simp: ex_data_def intro!: exI [of _ ex_data])

lemma ex_region_alloc: "\<exists>r. region_alloc ex_region 7 20 = Some (r, Some 72)"
  by (simp add: region_alloc_def region_activate_def ex_region_def buddy_alloc_def ex_rbuddy_def ex_data_def
      order_for_def bit_length.simps buddy_find_def buddy_carve_def vec_get_def vec_set_def vec_pop_def upt_rec
      checked_sub_def ALLOCATOR_HEADER_SIZE_def split_loop.simps write_header_def arena_put_def MAGIC_SIZE_def
      DYNSHM_BUFFER_HEADER_SIZE_def write_buf_header_def)

lemma ex_region_one:
  "\<exists>r cap. region_alloc ex_region 7 20 = Some (r, Some 72) \<and> region_reach False 4096 128 32 64 r [72 \<mapsto> cap + 24]"
proof -
  obtain r where r: "region_alloc ex_region 7 20 = Some (r, Some 72)" using ex_region_alloc by blast
  note ok = region_reachD [OF ex_region_reach]
  show ?thesis
  proof (cases rule: region_alloc_cases [OF ok(1), of 7 20])
    case (3 r' d c)
    then have c: "c < 2 ^ 32" "r' = r" "d = 72" using region_live_bounds [OF 3(4), of d c] r ok(3) by auto
    obtain h where "read_buf_header (r_data r) 72 = Some h" using 3(6) c by auto
    then show ?thesis
      using r region_reach_run [OF ex_region_reach region_run.hit [OF _ _ r]] by fastforce
  qed (use r in auto)
qed

theorem region_buffers_safe_witness:
  "\<exists>r L d. region_reach False 4096 128 32 64 r L \<and> live_separate 128 L \<and> r_allocs r = 1 \<and> d \<in> dom L \<and>
     offset_at (r_data r) d = Some (int (4096 + d))"
proof -
  obtain r cap where r: "region_reach False 4096 128 32 64 r [72 \<mapsto> cap + 24]" using ex_region_one by blast
  from region_buffers_safe [OF r] r show ?thesis
    by (intro exI [of _ r] exI [of _ "[72 \<mapsto> cap + 24]"] exI [of _ 72]) simp
qed

theorem region_alloc_buffer_witness:
  "\<exists>r cap. region_alloc ex_region 7 20 = Some (r, Some 72) \<and> 20 \<le> cap \<and> 72 + 24 + cap \<le> 128 \<and>
     read_buf_header (r_data r) 72 = Some \<lparr> h_offset = 4168, h_next = 0, h_len = 20, h_cap = cap \<rparr>"
proof -
  obtain r where r: "region_alloc ex_region 7 20 = Some (r, Some 72)" using ex_region_alloc by blast
  from region_alloc_buffer [OF ex_region_reach _ r] r show ?thesis by auto
qed

theorem region_double_free_witness:
  "\<exists>r L r'. region_reach False 4096 128 32 64 r L \<and> 72 \<in> dom L \<and>
     region_free_at r 4168 = Some (r', Inr ()) \<and> region_free_at r' 4168 = Some (r', Inl NotAllocated)"
proof -
  obtain r cap where r: "region_reach False 4096 128 32 64 r [72 \<mapsto> cap + 24]" using ex_region_one by blast
  note ok = region_reachD [OF r]
  obtain r' where f: "region_free_at r (int (4096 + 72)) = Some (r', Inr ())"
    using region_free_live [OF ok(1), of 72] ok(2) by fastforce
  have "region_free_at r' (int (4096 + 72)) = Some (r', Inl NotAllocated)"
    by (rule region_double_free [OF r _ f]) simp
  with r f show ?thesis by (intro exI [of _ r] exI [of _ "[72 \<mapsto> cap + 24]"] exI [of _ r']) simp
qed

definition ex_filled :: arena where
  "ex_filled = the (write_buf_header ex_data 0 \<lparr> h_offset = 4096, h_next = 0, h_len = 0, h_cap = 2 \<rparr>)"

lemma ex_filled_put: "write_buf_header ex_data 0 \<lparr> h_offset = 4096, h_next = 0, h_len = 0, h_cap = 2 \<rparr> = Some ex_filled"
  using write_buf_header_total [of 0 ex_data] by (auto simp: ex_filled_def ex_data_def)

theorem buf_append_data_witness:
  "\<exists>ar old. buf_data ex_filled 0 = Some old \<and> buf_append ex_filled 0 [1, 2] = Some (ar, True) \<and>
     buf_data ar 0 = Some (old @ [1, 2])"
proof -
  let ?h = "\<lparr> h_offset = 4096, h_next = 0, h_len = 0, h_cap = 2 \<rparr>"
  have h: "read_buf_header ex_filled 0 = Some ?h"
    by (rule read_write_buf_header [OF ex_filled_put]) (simp add: header_fits_def)
  have "alen ex_filled = 128"
    using same_outside_alen [OF write_buf_header_frame [OF ex_filled_put]] by (simp add: ex_data_def)
  with buf_append_data [OF h, of "[1, 2]"] show ?thesis by auto
qed

theorem dedicated_exclusive_witness:
  "\<exists>d0 d. dedicated_new ex_data 128 4096 = Some d0 \<and> dedicated_run d0 d True \<and> dedicated_is_freed d = Some False \<and>
     (\<exists>d'. dedicated_alloc d 9 20 = Some (d', None)) \<and> (\<exists>d'. dedicated_mark_freed d 9 = Some (d', Inr ()))"
proof -
  obtain d0 where n: "dedicated_new ex_data 128 4096 = Some d0"
    using write_buf_header_total [of 0 ex_data "\<lparr> h_offset = 0, h_next = 0, h_len = 0, h_cap = 0 \<rparr>"]
    by (auto simp: dedicated_new_def ex_data_def)
  note ok = dedicated_new_ok [OF n]
  obtain d where a: "dedicated_alloc d0 7 20 = Some (d, Some 0)"
    using dedicated_alloc_ok(2) [OF ok(1), of 20 7] ok(3) by (auto simp: ex_data_def)
  have run: "dedicated_run d0 d True" using dedicated_run.alloc [OF dedicated_run.start a] by simp
  from dedicated_exclusive [OF n _ _ _ _ run, of 9 20] n run show ?thesis by (auto simp: ex_data_def)
qed

text \<open>The peer names a position inside a live buffer: the release is refused, yet the field it takes for
  a busy flag has been cleared.\<close>

lemma forged_release:
  assumes b: "r_allocator r = RBuddy b" and len: "alen (r_data r) = b_arena_size b" "d + 24 \<le> alen (r_data r)"
    and v: "buddy_is_valid_offset b d" and h: "offset_at (r_data r) d = Some x" "x \<noteq> 0"
    and m: "read_header (r_data r) (d - 8) = Some (mg, n)" "mg \<noteq> MAGIC"
  shows "\<exists>r'. region_free_at r (int (r_offset r + d)) = Some (r', Inl NotAllocated) \<and>
    (\<exists>i\<in>{d..<d + 8}. abytes (r_data r') i \<noteq> abytes (r_data r) i)"
proof -
  obtain ar where w: "write_offset (r_data r) d 0 = Some ar" using write_offset_total [OF len(2)] by blast
  note fr = write_offset_frame [OF w]
  have d: "8 \<le> d" using v by (simp add: buddy_is_valid_offset_def ALLOCATOR_HEADER_SIZE_def)
  have "read_header ar (d - 8) = Some (mg, n)"
    using read_header_frame [OF fr, of "d - 8"] m(1) d by (auto simp: ALLOCATOR_HEADER_SIZE_def)
  then have "live_order b ar (d - 8) = Inl NotAllocated" using m(2) by (simp add: live_order_def)
  then have f: "buddy_free_at b ar d = Some (b, ar, Inl NotAllocated)"
    using same_outside_alen [OF fr] len v by (simp add: buddy_free_at_def ALLOCATOR_HEADER_SIZE_def)
  have "offset_at ar d \<noteq> offset_at (r_data r) d" using offset_at_write_offset [OF w] len(2) h by simp
  then have "map (abytes ar) [d..<d + 8] \<noteq> map (abytes (r_data r)) [d..<d + 8]"
    using same_outside_alen [OF fr] by (metis offset_at_bytes)
  then have "\<exists>i\<in>{d..<d + 8}. abytes ar i \<noteq> abytes (r_data r) i" by auto
  moreover have "region_free_at r (int (r_offset r + d)) = Some (r \<lparr> r_allocator := RBuddy b, r_data := ar \<rparr>, Inl NotAllocated)"
    using b v h w f by (auto simp: region_free_at_def offset_at_def)
  ultimately show ?thesis by simp
qed


end
