(* ===== verification/Fifo.thy ===== *)
theory Fifo
  imports Main
begin

text \<open>
  The interface of a bounded first-in first-out queue, as the shared-memory rings provide it to their
  clients. \<open>repr s xs b\<close> says that the queue state \<open>s\<close> holds the elements \<open>xs\<close>, oldest first, and
  has at least \<open>b\<close> further pushes left before its position counters run out. The lemmas of the locale
  hold for every provider; the multi-producer ring and the legacy queue interpret it.
\<close>

locale bounded_fifo =
  fixes repr :: "'s \<Rightarrow> 'a list \<Rightarrow> nat \<Rightarrow> bool"
    and cap :: "'s \<Rightarrow> nat"
    and push :: "'s \<Rightarrow> 'a \<Rightarrow> ('s \<times> bool) option"
    and pop :: "'s \<Rightarrow> ('s \<times> 'a option) option"
  assumes budget: "repr s xs (Suc b) \<Longrightarrow> repr s xs b"
    and within: "repr s xs b \<Longrightarrow> length xs \<le> cap s"
    and push_room: "repr s xs (Suc b) \<Longrightarrow> length xs < cap s \<Longrightarrow>
      \<exists>s'. push s v = Some (s', True) \<and> repr s' (xs @ [v]) b \<and> cap s' = cap s"
    and push_full: "repr s xs b \<Longrightarrow> length xs = cap s \<Longrightarrow>
      \<exists>s'. push s v = Some (s', False) \<and> repr s' xs b \<and> cap s' = cap s"
    and pop_empty: "repr s [] b \<Longrightarrow> \<exists>s'. pop s = Some (s', None) \<and> repr s' [] b \<and> cap s' = cap s"
    and pop_next: "repr s (x # xs) b \<Longrightarrow> \<exists>s'. pop s = Some (s', Some x) \<and> repr s' xs b \<and> cap s' = cap s"

text \<open>A sequence of pushes and pops, with what the pushes accepted and the pops returned.\<close>

inductive fifo_run ::
  "('s \<Rightarrow> 'a \<Rightarrow> ('s \<times> bool) option) \<Rightarrow> ('s \<Rightarrow> ('s \<times> 'a option) option) \<Rightarrow> 's \<Rightarrow> nat \<Rightarrow> 's \<Rightarrow> 'a list \<Rightarrow> 'a list \<Rightarrow> bool"
  for push pop s0 where
  start: "fifo_run push pop s0 0 s0 [] []"
| accept: "fifo_run push pop s0 n s ins outs \<Longrightarrow> push s v = Some (s', True) \<Longrightarrow> fifo_run push pop s0 (Suc n) s' (ins @ [v]) outs"
| refuse: "fifo_run push pop s0 n s ins outs \<Longrightarrow> push s v = Some (s', False) \<Longrightarrow> fifo_run push pop s0 (Suc n) s' ins outs"
| take_one: "fifo_run push pop s0 n s ins outs \<Longrightarrow> pop s = Some (s', Some v) \<Longrightarrow> fifo_run push pop s0 n s' ins (outs @ [v])"
| nothing: "fifo_run push pop s0 n s ins outs \<Longrightarrow> pop s = Some (s', None) \<Longrightarrow> fifo_run push pop s0 n s' ins outs"

text \<open>Pushing a list until the queue refuses: the rest that did not fit.\<close>

primrec push_each :: "('s \<Rightarrow> 'a \<Rightarrow> ('s \<times> bool) option) \<Rightarrow> 's \<Rightarrow> 'a list \<Rightarrow> ('s \<times> 'a list) option" where
  "push_each push s [] = Some (s, [])"
| "push_each push s (v # vs) =
     (case push s v of
        None \<Rightarrow> None
      | Some (s', True) \<Rightarrow> push_each push s' vs
      | Some (s', False) \<Rightarrow> Some (s', v # vs))"

context bounded_fifo
begin

lemma budget_mono: "repr s xs (n + b) \<Longrightarrow> repr s xs b"
  by (induction n) (simp_all add: budget)

lemma run_repr:
  assumes "fifo_run push pop s0 n s ins outs" "repr s0 [] b" "n \<le> b"
  shows "\<exists>xs. ins = outs @ xs \<and> repr s xs (b - n) \<and> cap s = cap s0"
  using assms(1,3)
proof (induction rule: fifo_run.induct)
  case start
  then show ?case using assms(2) by simp
next
  case (accept n s ins outs v s')
  then obtain xs where xs: "ins = outs @ xs" "repr s xs (Suc (b - Suc n))" "cap s = cap s0"
    by (auto simp: Suc_diff_Suc)
  have "length xs < cap s" using push_full [OF xs(2), of v] within [OF xs(2)] accept.hyps(2) by force
  then show ?case using push_room [OF xs(2), of v] accept.hyps(2) xs by auto
next
  case (refuse n s ins outs v s')
  then obtain xs where xs: "ins = outs @ xs" "repr s xs (Suc (b - Suc n))" "cap s = cap s0"
    by (auto simp: Suc_diff_Suc)
  have "\<not> length xs < cap s" using push_room [OF xs(2), of v] refuse.hyps(2) by auto
  then show ?case using push_full [OF budget [OF xs(2)], of v] within [OF xs(2)] refuse.hyps(2) xs by auto
next
  case (take_one n s ins outs s' v)
  then obtain xs where xs: "ins = outs @ xs" "repr s xs (b - n)" "cap s = cap s0" by auto
  then show ?case using pop_empty [of s "b - n"] pop_next [of s _ _ "b - n"] take_one.hyps(2) by (cases xs) fastforce+
next
  case (nothing n s ins outs s')
  then obtain xs where xs: "ins = outs @ xs" "repr s xs (b - n)" "cap s = cap s0" by auto
  then show ?case using pop_empty [of s "b - n"] pop_next [of s _ _ "b - n"] nothing.hyps(2) by (cases xs) fastforce+
qed

text \<open>What comes out is what went in, in order, without loss or duplication.\<close>

lemma run_fifo:
  assumes "fifo_run push pop s0 n s ins outs" "repr s0 [] b" "n \<le> b"
  shows "\<exists>xs. ins = outs @ xs \<and> length xs \<le> cap s0"
  using run_repr [OF assms] within by metis

lemma push_each_all:
  assumes "repr s xs (length vs + b)" "length xs + length vs \<le> cap s"
  shows "\<exists>s'. push_each push s vs = Some (s', []) \<and> repr s' (xs @ vs) b \<and> cap s' = cap s"
  using assms
proof (induction vs arbitrary: s xs)
  case (Cons v vs)
  obtain s1 where s1: "push s v = Some (s1, True)" "repr s1 (xs @ [v]) (length vs + b)" "cap s1 = cap s"
    using push_room [of s xs "length vs + b" v] Cons.prems by auto
  then show ?case using Cons.IH [of s1 "xs @ [v]"] Cons.prems(2) by auto
qed simp

lemma push_each_split:
  assumes "repr s xs (length vs + b)"
  shows "\<exists>s' ys zs. push_each push s vs = Some (s', zs) \<and> vs = ys @ zs \<and> repr s' (xs @ ys) (length zs + b) \<and> cap s' = cap s \<and>
    (zs \<noteq> [] \<longrightarrow> length xs + length ys = cap s)"
  using assms
proof (induction vs arbitrary: s xs)
  case Nil
  then show ?case by simp
next
  case (Cons v vs)
  show ?case
  proof (cases "length xs < cap s")
    case True
    obtain s1 where s1: "push s v = Some (s1, True)" "repr s1 (xs @ [v]) (length vs + b)" "cap s1 = cap s"
      using push_room [of s xs "length vs + b" v] Cons.prems True by auto
    obtain s' ys zs where "push_each push s1 vs = Some (s', zs)" "vs = ys @ zs" "repr s' ((xs @ [v]) @ ys) (length zs + b)"
      "cap s' = cap s" "zs \<noteq> [] \<longrightarrow> length (xs @ [v]) + length ys = cap s"
      using Cons.IH [OF s1(2)] s1(3) by auto
    then show ?thesis using s1(1) by (intro exI [of _ s'] exI [of _ "v # ys"] exI [of _ zs]) simp
  next
    case False
    obtain s1 where "push s v = Some (s1, False)" "repr s1 xs (length (v # vs) + b)" "cap s1 = cap s"
      using push_full [OF Cons.prems, of v] False within [OF Cons.prems] by auto
    then show ?thesis using False within [OF Cons.prems] by (intro exI [of _ s1] exI [of _ "[]"] exI [of _ "v # vs"]) simp
  qed
qed

end

end
