(* ===== verification/Mpsc.thy ===== *)
theory Mpsc
  imports Consts Fifo
begin

text \<open>
  The bounded multi-producer single-consumer ring of \<open>src/v5/mpsc.rs\<close>. The mapping is seen through its
  cells: the two header counters, and for every slot, named by its byte offset in the mapping, the turn
  counter and the payload. Positions and turns are 64-bit words. The type parameter of the code
  is the payload type \<open>'a\<close> with its size and alignment as arguments. \<open>mpsc_try_push\<close> and \<open>mpsc_try_pop\<close>
  run a call without interference, \<open>None\<close> standing for a spin loop that cannot end; the interleaving of concurrent calls is the
  theory \<open>Mpsc_Conc\<close>.
\<close>

section \<open>Geometry\<close>

definition MAX_PAYLOAD_ALIGN :: nat where "MAX_PAYLOAD_ALIGN = 8"
definition SLOT_HEADER_SIZE :: nat where "SLOT_HEADER_SIZE = 8"

datatype layout_error = Unaligned nat | Misaligned nat | TooSmall nat | PayloadOverAligned nat

datatype push_error = Full | Closed

datatype 'a pop_result = Empty | HeadNotReady | Ready 'a

text \<open>The standard library's \<open>next_power_of_two\<close> and \<open>ilog2\<close>.\<close>

definition next_power_of_two :: "nat \<Rightarrow> nat" where
  "next_power_of_two n = (if n \<le> 1 then 1 else 2 ^ bit_length (n - 1))"

definition ilog2 :: "nat \<Rightarrow> nat" where
  "ilog2 n = bit_length n - 1"

definition slot_size :: "nat \<Rightarrow> nat" where
  "slot_size payload = next_power_of_two (SLOT_HEADER_SIZE + payload)"

text \<open>Rounding up to whole pages clears the low bits of the sum; an overflow panics.\<close>

definition mpsc_mem_size :: "nat \<Rightarrow> nat \<Rightarrow> nat option" where
  "mpsc_mem_size payload cap = do {
     p \<leftarrow> (if next_power_of_two cap \<le> usize_max then Some (next_power_of_two cap) else None);
     slots \<leftarrow> checked_mul p (slot_size payload);
     sz \<leftarrow> checked_add MPSC_HEADER_SIZE slots;
     top \<leftarrow> checked_add sz PAGE_SIZE;
     Some ((top - 1) div PAGE_SIZE * PAGE_SIZE)
   }"

definition mpsc_cap :: "nat \<Rightarrow> nat \<Rightarrow> nat" where
  "mpsc_cap payload mapping_len =
     (let slots = (mapping_len - MPSC_HEADER_SIZE) div slot_size payload in
      if slots = 0 then 0 else 2 ^ ilog2 slots)"

record mpsc =
  m_base :: nat
  m_len :: nat
  m_cap_shift :: nat
  m_slot_shift :: nat
  m_mask :: "64 word"
  m_head_cache :: "64 word"

definition from_raw_parts :: "nat \<Rightarrow> nat \<Rightarrow> nat \<Rightarrow> nat \<Rightarrow> layout_error + mpsc" where
  "from_raw_parts payload align base len =
     (if align > MAX_PAYLOAD_ALIGN then Inl (PayloadOverAligned align)
      else if len mod PAGE_SIZE \<noteq> 0 then Inl (Unaligned len)
      else if len < MPSC_HEADER_SIZE then Inl (TooSmall len)
      else if base mod MAX_PAYLOAD_ALIGN \<noteq> 0 then Inl (Misaligned base)
      else
        let slot_shift = ilog2 (slot_size payload);
            raw_cap = (len - MPSC_HEADER_SIZE) div 2 ^ slot_shift
        in if raw_cap = 0 then Inl (TooSmall len)
           else let cap_shift = ilog2 raw_cap; capacity = 2 ^ cap_shift in
             Inr \<lparr> m_base = base, m_len = len, m_cap_shift = cap_shift, m_slot_shift = slot_shift,
                   m_mask = of_nat (capacity - 1), m_head_cache = 0 \<rparr>)"

section \<open>The shared cells and the calls\<close>

record 'a ring =
  rg_head :: "64 word"
  rg_tail :: "64 word"
  rg_turn :: "nat \<Rightarrow> 64 word"
  rg_val :: "nat \<Rightarrow> 'a"

text \<open>A zeroed mapping; \<open>z\<close> is the payload whose bytes are all zero.\<close>

definition ring_zero :: "'a \<Rightarrow> 'a ring" where
  "ring_zero z = \<lparr> rg_head = 0, rg_tail = 0, rg_turn = (\<lambda>_. 0), rg_val = (\<lambda>_. z) \<rparr>"

definition mpsc_new :: "nat \<Rightarrow> nat \<Rightarrow> 'a \<Rightarrow> nat \<Rightarrow> nat \<Rightarrow> layout_error + mpsc \<times> 'a ring" where
  "mpsc_new payload align z base len =
     (case from_raw_parts payload align base len of
        Inl e \<Rightarrow> Inl e
      | Inr m \<Rightarrow> Inr (m, ring_zero z))"

definition mpsc_map :: "nat \<Rightarrow> nat \<Rightarrow> nat \<Rightarrow> nat \<Rightarrow> layout_error + mpsc" where
  "mpsc_map payload align base len = from_raw_parts payload align base len"

definition slot_ptr :: "mpsc \<Rightarrow> 64 word \<Rightarrow> nat" where
  "slot_ptr m position =
     (let slot_index = unat (position AND m_mask m) in
      MPSC_HEADER_SIZE + slot_index * 2 ^ m_slot_shift m)"

definition turn :: "mpsc \<Rightarrow> 64 word \<Rightarrow> 64 word" where
  "turn m position = drop_bit (m_cap_shift m) position"

definition turn_free :: "64 word \<Rightarrow> 64 word" where
  "turn_free generation = push_bit 1 generation"

definition turn_published :: "64 word \<Rightarrow> 64 word" where
  "turn_published generation = push_bit 1 generation OR 1"

definition try_claim :: "mpsc \<Rightarrow> 'a ring \<Rightarrow> 'a \<Rightarrow> (mpsc \<times> 'a ring \<times> bool) option" where
  "try_claim m r v =
     (let position = rg_tail r;
          slot = slot_ptr m position;
          generation = turn m position
      in if rg_turn r slot \<noteq> turn_free generation then None
         else Some (m, r \<lparr> rg_tail := position + 1, rg_val := (rg_val r)(slot := v),
                          rg_turn := (rg_turn r)(slot := turn_published generation) \<rparr>, True))"

definition mpsc_try_push :: "mpsc \<Rightarrow> 'a ring \<Rightarrow> 'a \<Rightarrow> (mpsc \<times> 'a ring \<times> bool) option" where
  "mpsc_try_push m r v =
     (let tail = rg_tail r in
      if tail - m_head_cache m > m_mask m then
        let head = rg_head r; m' = m \<lparr> m_head_cache := head \<rparr> in
        if tail - head > m_mask m then Some (m', r, False) else try_claim m' r v
      else try_claim m r v)"

definition mpsc_try_pop :: "mpsc \<Rightarrow> 'a ring \<Rightarrow> 'a ring \<times> 'a pop_result" where
  "mpsc_try_pop m r =
     (let head = rg_head r; slot = slot_ptr m head; t = turn m head in
      if rg_turn r slot \<noteq> turn_published t then
        (r, if head = rg_tail r then Empty else HeadNotReady)
      else (r \<lparr> rg_turn := (rg_turn r)(slot := turn_free (t + 1)), rg_head := head + 1 \<rparr>,
            Ready (rg_val r slot)))"

text \<open>\<open>push\<close> and \<open>pop\<close> retry: without interference a retry finds what the first try found.\<close>

definition mpsc_push :: "mpsc \<Rightarrow> 'a ring \<Rightarrow> 'a \<Rightarrow> (mpsc \<times> 'a ring) option" where
  "mpsc_push m r v = do {
     (m', r', done) \<leftarrow> mpsc_try_push m r v;
     if done then Some (m', r') else None
   }"

definition mpsc_pop :: "mpsc \<Rightarrow> 'a ring \<Rightarrow> ('a ring \<times> 'a option) option" where
  "mpsc_pop m r =
     (case mpsc_try_pop m r of
        (r', Empty) \<Rightarrow> Some (r', None)
      | (_, HeadNotReady) \<Rightarrow> None
      | (r', Ready v) \<Rightarrow> Some (r', Some v))"

definition head_ready :: "mpsc \<Rightarrow> 'a ring \<Rightarrow> bool" where
  "head_ready m r \<longleftrightarrow>
     (let head = rg_head r in rg_turn r (slot_ptr m head) = turn_published (turn m head))"

definition mpsc_length :: "'a ring \<Rightarrow> nat" where
  "mpsc_length r = unat (rg_tail r - rg_head r)"

definition mpsc_capacity :: "mpsc \<Rightarrow> nat" where
  "mpsc_capacity m = unat (m_mask m + 1)"

section \<open>Positions as natural numbers\<close>

definition capacity :: "mpsc \<Rightarrow> nat" where
  "capacity m = 2 ^ m_cap_shift m"

definition mpsc_ok :: "mpsc \<Rightarrow> bool" where
  "mpsc_ok m \<longleftrightarrow> m_cap_shift m \<le> 60 \<and> m_mask m = of_nat (capacity m - 1)"

lemma capacity_pos [simp]: "0 < capacity m" "capacity m \<noteq> 0"
  by (simp_all add: capacity_def)

lemma capacity_le: "mpsc_ok m \<Longrightarrow> capacity m \<le> 2 ^ 60"
  using power_increasing [of "m_cap_shift m" 60 "2 :: nat"] by (simp add: mpsc_ok_def capacity_def)

lemma mask_eq: "mpsc_ok m \<Longrightarrow> m_mask m = mask (m_cap_shift m)"
  by (simp add: mpsc_ok_def capacity_def mask_eq_exp_minus_1 of_nat_diff)

lemma unat_mask: "mpsc_ok m \<Longrightarrow> unat (m_mask m) = capacity m - 1"
  using capacity_le [of m] by (simp add: mpsc_ok_def unat_of_nat)

definition slot_at :: "mpsc \<Rightarrow> nat \<Rightarrow> nat" where
  "slot_at m p = MPSC_HEADER_SIZE + p mod capacity m * 2 ^ m_slot_shift m"

lemma slot_ptr_eq:
  assumes "mpsc_ok m"
  shows "slot_ptr m w = slot_at m (unat w)"
proof -
  have "unat (w AND m_mask m) = take_bit (m_cap_shift m) (unat w)"
    unfolding mask_eq [OF assms] take_bit_eq_mask [symmetric] by (rule unsigned_take_bit_eq)
  then show ?thesis by (simp add: slot_ptr_def slot_at_def capacity_def take_bit_eq_mod)
qed

lemma slot_at_eq_iff: "slot_at m p = slot_at m q \<longleftrightarrow> p mod capacity m = q mod capacity m"
  by (simp add: slot_at_def)

lemma unat_turn: "unat (turn m w) = unat w div capacity m"
  unfolding turn_def capacity_def unat_drop_bit_eq by (simp add: drop_bit_eq_div)

lemma unat_turn_free: "unat g < 2 ^ 63 \<Longrightarrow> unat (turn_free g) = 2 * unat g"
  by (simp add: turn_free_def push_bit_eq_mult unat_mult_lem [symmetric] unat_word_ariths)

lemma turn_published_free: "turn_published g = turn_free g + 1"
  by (simp add: turn_published_def turn_free_def or_one_eq)

lemma unat_turn_published: "unat g < 2 ^ 63 \<Longrightarrow> unat (turn_published g) = 2 * unat g + 1"
  using unat_turn_free [of g] by (simp add: turn_published_free unat_word_ariths)

lemma unat_Suc_word: "unat (w :: 64 word) < 2 ^ 63 \<Longrightarrow> unat (w + 1) = unat w + 1"
  by (simp add: unat_word_ariths)

lemma unat_div_less: "unat w < 2 ^ 63 \<Longrightarrow> unat (turn m w) < 2 ^ 63"
  using div_le_dividend [of "unat w" "capacity m"] by (simp add: unat_turn del: div_le_dividend)

text \<open>The full test \<open>tail.wrapping_sub(head) > mask\<close>, for counters below \<open>2 ^ 63\<close>.\<close>

lemma full_test:
  assumes "mpsc_ok m" "unat t < 2 ^ 63" "unat h < 2 ^ 63"
  shows "t - h > m_mask m \<longleftrightarrow> unat t < unat h \<or> unat h + capacity m \<le> unat t"
proof -
  have c: "capacity m \<le> 2 ^ 60" "unat (m_mask m) = capacity m - 1" using capacity_le unat_mask assms(1) by auto
  show ?thesis
  proof (cases "unat h \<le> unat t")
    case True
    then have "unat (t - h) = unat t - unat h" by (simp add: unat_sub word_le_nat_alt)
    then show ?thesis using True c capacity_pos(1) [of m] unfolding word_less_nat_alt by linarith
  next
    case False
    then have "unat (t - h) = 2 ^ 64 + unat t - unat h" by (simp add: unat_sub_if')
    then show ?thesis using False c assms(2,3) unfolding word_less_nat_alt by simp
  qed
qed

text \<open>The window of \<open>capacity\<close> consecutive positions meets every slot once.\<close>

lemma window_inj:
  assumes "a \<le> p" "p < a + c" "a \<le> q" "q < a + c" "p mod c = q mod (c :: nat)"
  shows "p = q"
proof (rule ccontr)
  have *: "\<not> (x < y)" if "a \<le> x" "y < a + c" "x mod c = y mod c" for x y
  proof
    assume "x < y"
    then have "c dvd y - x" using that(3) mod_eq_dvd_iff_nat [of x y c] by simp
    moreover have "y - x < c" "0 < y - x" using that(1,2) \<open>x < y\<close> by linarith+
    ultimately show False using nat_dvd_not_less by blast
  qed
  assume "p \<noteq> q"
  with * [of p q] * [of q p] assms show False by linarith
qed

section \<open>Layout\<close>

lemma next_power_of_two_ge: "n \<le> next_power_of_two n"
  using bit_length_le_iff [of "n - 1" "bit_length (n - 1)"] by (auto simp: next_power_of_two_def)

lemma next_power_of_two_exp: "\<exists>k. next_power_of_two n = 2 ^ k"
  by (auto simp: next_power_of_two_def intro: exI [of _ 0])

lemma ilog2_bounds: "0 < n \<Longrightarrow> 2 ^ ilog2 n \<le> n" "n < 2 ^ Suc (ilog2 n)"
proof -
  have "n < 2 ^ bit_length n" using bit_length_le_iff [of n "bit_length n"] by simp
  moreover have "bit_length n \<le> Suc (ilog2 n)" by (simp add: ilog2_def)
  ultimately show "n < 2 ^ Suc (ilog2 n)" using power_increasing [of "bit_length n" "Suc (ilog2 n)" "2 :: nat"] by linarith
next
  assume "0 < n"
  then have "\<not> bit_length n \<le> bit_length n - 1" using bit_length_le_iff [of n 0] by auto
  then show "2 ^ ilog2 n \<le> n" using bit_length_le_iff [of n "bit_length n - 1"] by (simp add: ilog2_def)
qed

lemma ilog2_power [simp]: "ilog2 (2 ^ k) = k"
proof -
  have "(2 :: nat) ^ ilog2 (2 ^ k) \<le> 2 ^ k" "(2 :: nat) ^ k < 2 ^ Suc (ilog2 (2 ^ k))" by (rule ilog2_bounds; simp)+
  then have "ilog2 (2 ^ k) \<le> k" "k < Suc (ilog2 (2 ^ k))" by (simp_all del: power_Suc)
  then show ?thesis by simp
qed

lemma slot_size_exp: "slot_size payload = 2 ^ ilog2 (slot_size payload)"
  unfolding slot_size_def using next_power_of_two_exp ilog2_power by metis

lemma slot_size_ge: "8 + payload \<le> slot_size payload"
  using next_power_of_two_ge [of "8 + payload"] by (simp add: slot_size_def SLOT_HEADER_SIZE_def)

lemma from_raw_parts_ok:
  assumes "from_raw_parts payload align base len = Inr m" "len \<le> usize_max"
  shows "mpsc_ok m" "2 ^ m_slot_shift m = slot_size payload" "capacity m = mpsc_cap payload len"
    "128 + capacity m * slot_size payload \<le> len" "base mod 8 = 0" "m_head_cache m = 0" "m_base m = base"
    "8 dvd (2 :: nat) ^ m_slot_shift m"
proof -
  let ?k = "ilog2 (slot_size payload)"
  let ?raw = "(len - 128) div 2 ^ ?k"
  have f: "128 \<le> len" "base mod 8 = 0" "?raw \<noteq> 0" and m: "m_cap_shift m = ilog2 ?raw" "m_slot_shift m = ?k"
    "m_mask m = of_nat (2 ^ ilog2 ?raw - 1)" "m_head_cache m = 0" "m_base m = base"
    using assms(1) by (auto simp: from_raw_parts_def Let_def MPSC_HEADER_SIZE_def MAX_PAYLOAD_ALIGN_def split: if_splits)
  show k: "2 ^ m_slot_shift m = slot_size payload" using slot_size_exp [of payload] m(2) by simp
  have cap: "capacity m = 2 ^ ilog2 ?raw" by (simp add: capacity_def m(1))
  show "capacity m = mpsc_cap payload len" "base mod 8 = 0" "m_head_cache m = 0" "m_base m = base"
    using f m slot_size_exp [of payload] unfolding cap by (simp_all add: mpsc_cap_def Let_def MPSC_HEADER_SIZE_def)
  have le: "capacity m \<le> ?raw" using ilog2_bounds(1) [of ?raw] f(3) cap by simp
  then have "capacity m * 2 ^ ?k \<le> len - 128" by (metis div_times_less_eq_dividend le_trans mult_le_mono1)
  then show "128 + capacity m * slot_size payload \<le> len" using f(1) k m(2) by simp
  have k8: "3 \<le> ?k"
  proof (rule ccontr)
    assume "\<not> 3 \<le> ?k"
    then have "(2 :: nat) ^ ?k \<le> 2 ^ 2" by (intro power_increasing) auto
    then show False using slot_size_ge [of payload] slot_size_exp [of payload] by simp
  qed
  then show "8 dvd (2 :: nat) ^ m_slot_shift m" using le_imp_power_dvd [of 3 ?k "2 :: nat"] m(2) by simp
  have "(2 :: nat) ^ ilog2 ?raw * 2 ^ 3 \<le> 2 ^ ilog2 ?raw * 2 ^ ?k" using k8 by (intro mult_le_mono power_increasing) auto
  also have "\<dots> < 2 ^ 64" using \<open>capacity m * 2 ^ ?k \<le> len - 128\<close> assms(2) cap by (simp add: usize_max_def)
  finally have "(2 :: nat) ^ (ilog2 ?raw + 3) < 2 ^ 64" by (simp add: power_add)
  then have "ilog2 ?raw + 3 < 64" by (subst (asm) power_strict_increasing_iff) auto
  then show "mpsc_ok m" using m cap by (simp add: mpsc_ok_def)
qed

lemma slot_bounds:
  assumes "mpsc_ok m" "2 ^ m_slot_shift m = slot_size payload" "128 + capacity m * slot_size payload \<le> len"
  shows "128 \<le> slot_ptr m w" "slot_ptr m w + slot_size payload \<le> len"
proof -
  let ?i = "unat w mod capacity m"
  have p: "slot_ptr m w = 128 + ?i * slot_size payload"
    using assms(1,2) by (simp add: slot_ptr_eq slot_at_def MPSC_HEADER_SIZE_def)
  have "(?i + 1) * slot_size payload \<le> capacity m * slot_size payload"
    using capacity_pos(1) [of m] by (intro mult_le_mono1) (simp add: Suc_leI)
  then show "128 \<le> slot_ptr m w" "slot_ptr m w + slot_size payload \<le> len" using p assms(3) by simp_all
qed

lemma slots_disjoint:
  assumes "mpsc_ok m" "2 ^ m_slot_shift m = slot_size payload" "slot_ptr m w \<noteq> slot_ptr m w'"
  shows "{slot_ptr m w..<slot_ptr m w + slot_size payload} \<inter> {slot_ptr m w'..<slot_ptr m w' + slot_size payload} = {}"
proof -
  have *: "\<not> (i < j \<and> 128 + j * z < 128 + i * z + z)" for i j z :: nat
  proof
    assume "i < j \<and> 128 + j * z < 128 + i * z + z"
    moreover from this have "(i + 1) * z \<le> j * z" by (intro mult_le_mono1) auto
    ultimately show False by simp
  qed
  let ?i = "unat w mod capacity m" and ?j = "unat w' mod capacity m" and ?z = "slot_size payload"
  have p: "slot_ptr m w = 128 + ?i * ?z" "slot_ptr m w' = 128 + ?j * ?z"
    using assms(1,2) by (simp_all add: slot_ptr_eq slot_at_def MPSC_HEADER_SIZE_def)
  then have "?i < ?j \<or> ?j < ?i" using assms(3) by auto
  with * [of ?i ?j ?z] * [of ?j ?i ?z] p show ?thesis by (auto simp: disjoint_iff)
qed

text \<open>C24. Both peers derive the same ring from a mapping: every slot, turn counter and payload together, lies
  in the mapping behind the header and is eight-byte aligned, different slots do not overlap, two
  positions share a slot exactly when they are a whole number of laps apart, and the capacity is the
  one \<open>mpsc_cap\<close> reports.\<close>

theorem mpsc_layout:
  assumes "from_raw_parts payload align base len = Inr m" "len \<le> usize_max"
  shows "mpsc_capacity m = mpsc_cap payload len \<and>
    MPSC_HEADER_SIZE \<le> slot_ptr m w \<and> slot_ptr m w + SLOT_HEADER_SIZE + payload \<le> len \<and>
    (base + slot_ptr m w) mod MAX_PAYLOAD_ALIGN = 0 \<and>
    (slot_ptr m w = slot_ptr m w' \<longleftrightarrow> unat w mod mpsc_capacity m = unat w' mod mpsc_capacity m) \<and>
    (slot_ptr m w \<noteq> slot_ptr m w' \<longrightarrow>
       {slot_ptr m w..<slot_ptr m w + slot_size payload} \<inter> {slot_ptr m w'..<slot_ptr m w' + slot_size payload} = {})"
proof -
  note p = from_raw_parts_ok [OF assms]
  have "unat (m_mask m + 1) = capacity m"
    using unat_mask [OF p(1)] capacity_le [OF p(1)] unat_Suc_word [of "m_mask m"] capacity_pos(1) [of m] by simp
  then have cap: "mpsc_capacity m = capacity m" by (simp add: mpsc_capacity_def)
  have b: "128 \<le> slot_ptr m w" "slot_ptr m w + 8 + payload \<le> len"
    using slot_bounds [OF p(1,2,4), of w] slot_size_ge [of payload] by simp_all
  have "8 dvd base + slot_ptr m w"
    using p(5,8) unfolding slot_ptr_eq [OF p(1)] slot_at_def MPSC_HEADER_SIZE_def
    by (intro dvd_add) auto
  then show ?thesis
    using b cap p(3) slot_at_eq_iff [of m "unat w" "unat w'"] slots_disjoint [OF p(1,2), of w w']
    unfolding slot_ptr_eq [OF p(1)] MPSC_HEADER_SIZE_def SLOT_HEADER_SIZE_def MAX_PAYLOAD_ALIGN_def
    by (auto simp: slot_ptr_eq [OF p(1)])
qed

section \<open>Undisturbed calls: the ring is a bounded queue\<close>

text \<open>The ring holds \<open>xs\<close> at the positions from \<open>h\<close> on: their slots are published, the other slots of the
  window are free for the lap their next position is in.\<close>

definition ring_at :: "mpsc \<Rightarrow> 'a ring \<Rightarrow> nat \<Rightarrow> 'a list \<Rightarrow> bool" where
  "ring_at m r h xs \<longleftrightarrow>
     unat (rg_head r) = h \<and> unat (rg_tail r) = h + length xs \<and> length xs \<le> capacity m \<and>
     (\<forall>p. h \<le> p \<longrightarrow> p < h + capacity m \<longrightarrow>
        unat (rg_turn r (slot_at m p)) = 2 * (p div capacity m) + (if p < h + length xs then 1 else 0)) \<and>
     (\<forall>i<length xs. rg_val r (slot_at m (h + i)) = xs ! i)"

definition mpsc_repr :: "mpsc \<times> 'a ring \<Rightarrow> 'a list \<Rightarrow> nat \<Rightarrow> bool" where
  "mpsc_repr s xs b \<longleftrightarrow> (case s of (m, r) \<Rightarrow>
     mpsc_ok m \<and> (\<exists>h. ring_at m r h xs \<and> h + length xs + b + 1 < 2 ^ 63 \<and> unat (m_head_cache m) \<le> h))"

lemma unat_turns:
  assumes "unat w = p" "p + 1 < 2 ^ 63"
  shows "unat (turn_free (turn m w)) = 2 * (p div capacity m)"
    and "unat (turn_published (turn m w)) = 2 * (p div capacity m) + 1"
    and "unat (turn_free (turn m w + 1)) = 2 * ((p + capacity m) div capacity m)"
proof -
  have g: "unat (turn m w) = p div capacity m" using assms(1) by (simp add: unat_turn)
  have l: "p div capacity m + 1 < 2 ^ 63" using assms(2) div_le_dividend [of p "capacity m"] by linarith
  show "unat (turn_free (turn m w)) = 2 * (p div capacity m)"
    "unat (turn_published (turn m w)) = 2 * (p div capacity m) + 1"
    using unat_turn_free [of "turn m w"] unat_turn_published [of "turn m w"] g l by simp_all
  have "unat (turn m w + 1) = p div capacity m + 1" using unat_Suc_word [of "turn m w"] g l by simp
  then show "unat (turn_free (turn m w + 1)) = 2 * ((p + capacity m) div capacity m)"
    using unat_turn_free [of "turn m w + 1"] l capacity_pos(1) [of m] by (simp add: div_add_self2)
qed

lemma ring_atD:
  assumes "ring_at m r h xs"
  shows "unat (rg_head r) = h" "unat (rg_tail r) = h + length xs" "length xs \<le> capacity m"
    "h \<le> p \<Longrightarrow> p < h + capacity m \<Longrightarrow>
      unat (rg_turn r (slot_at m p)) = 2 * (p div capacity m) + (if p < h + length xs then 1 else 0)"
    "i < length xs \<Longrightarrow> rg_val r (slot_at m (h + i)) = xs ! i"
  using assms by (auto simp: ring_at_def)

lemma slot_window_neq:
  "a \<le> p \<Longrightarrow> p < a + capacity m \<Longrightarrow> a \<le> q \<Longrightarrow> q < a + capacity m \<Longrightarrow> p \<noteq> q \<Longrightarrow> slot_at m p \<noteq> slot_at m q"
  using window_inj [of a p "capacity m" q] by (auto simp: slot_at_eq_iff)

lemma slot_at_lap [simp]: "slot_at m (p + capacity m) = slot_at m p"
  by (simp add: slot_at_def)

lemma try_claim_room:
  assumes m: "mpsc_ok m" and r: "ring_at m r h xs" and b: "h + length xs + 1 < 2 ^ 63" and room: "length xs < capacity m"
  obtains r' where "try_claim m r v = Some (m, r', True)" "ring_at m r' h (xs @ [v])"
proof -
  let ?p = "h + length xs" and ?w = "rg_tail r"
  note d = ring_atD [OF r] and t = unat_turns [OF ring_atD(2) [OF r] b, of m]
  let ?slot = "slot_at m ?p"
  let ?r = "r \<lparr> rg_tail := ?w + 1, rg_val := (rg_val r)(?slot := v),
      rg_turn := (rg_turn r)(?slot := turn_published (turn m ?w)) \<rparr>"
  have sp: "slot_ptr m ?w = ?slot" using slot_ptr_eq [OF m] d(2) by simp
  have "rg_turn r ?slot = turn_free (turn m ?w)"
    using d(4) [of ?p] room t(1) by (simp add: word_unat_eq_iff)
  then have run: "try_claim m r v = Some (m, ?r, True)" by (simp add: try_claim_def Let_def sp)
  have "ring_at m ?r h (xs @ [v])"
    unfolding ring_at_def
  proof (intro conjI allI impI)
    show "unat (rg_tail ?r) = h + length (xs @ [v])" using unat_Suc_word [of ?w] d(2) b by simp
    fix p assume p: "h \<le> p" "p < h + capacity m"
    show "unat (rg_turn ?r (slot_at m p)) =
        2 * (p div capacity m) + (if p < h + length (xs @ [v]) then 1 else 0)"
    proof (cases "p = ?p")
      case True
      then show ?thesis using t(2) by simp
    next
      case False
      then show ?thesis using d(4) [OF p] slot_window_neq [OF p, of ?p] room by auto
    qed
  next
    fix i assume i: "i < length (xs @ [v])"
    show "rg_val ?r (slot_at m (h + i)) = (xs @ [v]) ! i"
    proof (cases "i = length xs")
      case False
      then show ?thesis using i d(5) [of i] room slot_window_neq [of h "h + i" m ?p] by (simp add: nth_append)
    qed (simp add: nth_append)
  qed (use d room in auto)
  with run show thesis by (rule that)
qed

lemma mpsc_pop_next:
  assumes m: "mpsc_ok m" and r: "ring_at m r h (x # xs)" and b: "h + 1 < 2 ^ 63"
  obtains r' where "mpsc_try_pop m r = (r', Ready x)" "ring_at m r' (h + 1) xs"
proof -
  let ?w = "rg_head r" and ?slot = "slot_at m h"
  note d = ring_atD [OF r] and t = unat_turns [OF ring_atD(1) [OF r] b, of m]
  let ?r = "r \<lparr> rg_turn := (rg_turn r)(?slot := turn_free (turn m ?w + 1)), rg_head := ?w + 1 \<rparr>"
  have sp: "slot_ptr m ?w = ?slot" using slot_ptr_eq [OF m] d(1) by simp
  have "rg_turn r ?slot = turn_published (turn m ?w)" using d(4) [of h] t(2) by (simp add: word_unat_eq_iff)
  then have run: "mpsc_try_pop m r = (?r, Ready x)" using d(5) [of 0] by (simp add: mpsc_try_pop_def Let_def sp)
  have "ring_at m ?r (h + 1) xs"
    unfolding ring_at_def
  proof (intro conjI allI impI)
    show "unat (rg_head ?r) = h + 1" using unat_Suc_word [of ?w] d(1) b by simp
    fix p assume p: "h + 1 \<le> p" "p < h + 1 + capacity m"
    show "unat (rg_turn ?r (slot_at m p)) = 2 * (p div capacity m) + (if p < h + 1 + length xs then 1 else 0)"
    proof (cases "p = h + capacity m")
      case True
      then show ?thesis using t(3) d(3) by simp
    next
      case False
      then show ?thesis using d(4) [of p] p slot_window_neq [of h p m h] by auto
    qed
  next
    fix i assume i: "i < length xs"
    then show "rg_val ?r (slot_at m (h + 1 + i)) = xs ! i" using d(5) [of "Suc i"] by simp
  qed (use d in auto)
  with run show thesis by (rule that)
qed

lemma mpsc_pop_empty:
  assumes "mpsc_ok m" "ring_at m r h []" "h + 1 < 2 ^ 63"
  shows "mpsc_try_pop m r = (r, Empty)"
proof -
  note d = ring_atD [OF assms(2)] and t = unat_turns [OF ring_atD(1) [OF assms(2)] assms(3), of m]
  have "slot_ptr m (rg_head r) = slot_at m h" using slot_ptr_eq [OF assms(1)] d(1) by simp
  moreover have "rg_turn r (slot_at m h) \<noteq> turn_published (turn m (rg_head r))"
    using d(4) [of h] t(2) by (auto simp: word_unat_eq_iff)
  moreover have "rg_head r = rg_tail r" using d(1,2) by (simp add: word_unat_eq_iff)
  ultimately show ?thesis by (simp add: mpsc_try_pop_def Let_def)
qed

definition fifo_push :: "mpsc \<times> 'a ring \<Rightarrow> 'a \<Rightarrow> ((mpsc \<times> 'a ring) \<times> bool) option" where
  "fifo_push = (\<lambda>(m, r) v. map_option (\<lambda>(m', r', ok). ((m', r'), ok)) (mpsc_try_push m r v))"

definition fifo_pop :: "mpsc \<times> 'a ring \<Rightarrow> ((mpsc \<times> 'a ring) \<times> 'a option) option" where
  "fifo_pop = (\<lambda>(m, r). map_option (\<lambda>(r', x). ((m, r'), x)) (mpsc_pop m r))"

lemma head_cache_irrelevant [simp]:
  "mpsc_ok (m \<lparr> m_head_cache := c \<rparr>) = mpsc_ok m" "capacity (m \<lparr> m_head_cache := c \<rparr>) = capacity m"
  "slot_at (m \<lparr> m_head_cache := c \<rparr>) = slot_at m" "ring_at (m \<lparr> m_head_cache := c \<rparr>) = ring_at m"
  by (auto simp: mpsc_ok_def capacity_def slot_at_def ring_at_def fun_eq_iff)

interpretation mq: bounded_fifo mpsc_repr "\<lambda>(m, r). capacity m" fifo_push fifo_pop
proof (unfold_locales, goal_cases)
  case (1 s xs b)
  then show ?case by (auto simp: mpsc_repr_def)
next
  case (2 s xs b)
  then show ?case by (auto simp: mpsc_repr_def ring_at_def)
next
  case (3 s xs b v)
  obtain m r h where s: "s = (m, r)" "mpsc_ok m" "ring_at m r h xs" "h + length xs + Suc b + 1 < 2 ^ 63"
    "unat (m_head_cache m) \<le> h" using 3(1) by (auto simp: mpsc_repr_def)
  have room: "length xs < capacity m" using 3(2) s(1) by simp
  have nf: "\<not> rg_tail r - rg_head r > m_mask m"
    using full_test [OF s(2), of "rg_tail r" "rg_head r"] ring_atD [OF s(3)] s(4) room by simp
  obtain m' where m': "mpsc_try_push m r v = try_claim m' r v" "mpsc_ok m'" "capacity m' = capacity m"
    "ring_at m' r h xs" "unat (m_head_cache m') \<le> h"
  proof (cases "rg_tail r - m_head_cache m > m_mask m")
    case True
    with nf that [of "m \<lparr> m_head_cache := rg_head r \<rparr>"] s ring_atD(1) [OF s(3)] show thesis
      by (simp add: mpsc_try_push_def Let_def)
  next
    case False
    with that [of m] s show thesis by (simp add: mpsc_try_push_def Let_def)
  qed
  obtain r' where "try_claim m' r v = Some (m', r', True)" "ring_at m' r' h (xs @ [v])"
    using try_claim_room [OF m'(2,4), of v] s(4) room m'(3) by auto
  then show ?case using s m' by (auto simp: fifo_push_def mpsc_repr_def)
next
  case (4 s xs b v)
  obtain m r h where s: "s = (m, r)" "mpsc_ok m" "ring_at m r h xs" "h + length xs + b + 1 < 2 ^ 63"
    "unat (m_head_cache m) \<le> h" using 4(1) by (auto simp: mpsc_repr_def)
  have full: "length xs = capacity m" using 4(2) s(1) by simp
  have "rg_tail r - m_head_cache m > m_mask m" "rg_tail r - rg_head r > m_mask m"
    using full_test [OF s(2), of "rg_tail r" "rg_head r"] full_test [OF s(2), of "rg_tail r" "m_head_cache m"]
      ring_atD [OF s(3)] s(4,5) full by auto
  then show ?case using s ring_atD(1) [OF s(3)] by (auto simp: fifo_push_def mpsc_try_push_def Let_def mpsc_repr_def)
next
  case (5 s b)
  obtain m r h where s: "s = (m, r)" "mpsc_ok m" "ring_at m r h []" "h + b + 1 < 2 ^ 63" "unat (m_head_cache m) \<le> h"
    using 5 by (auto simp: mpsc_repr_def)
  then show ?case using mpsc_pop_empty [OF s(2,3)] by (auto simp: fifo_pop_def mpsc_pop_def mpsc_repr_def)
next
  case (6 s x xs b)
  obtain m r h where s: "s = (m, r)" "mpsc_ok m" "ring_at m r h (x # xs)" "h + length (x # xs) + b + 1 < 2 ^ 63"
    "unat (m_head_cache m) \<le> h" using 6 by (auto simp: mpsc_repr_def)
  obtain r' where "mpsc_try_pop m r = (r', Ready x)" "ring_at m r' (h + 1) xs"
    using mpsc_pop_next [OF s(2,3)] s(4) by auto
  then show ?case using s by (auto simp: fifo_pop_def mpsc_pop_def mpsc_repr_def intro!: exI [of _ "h + 1"])
qed

lemma mpsc_newD:
  assumes "mpsc_new payload align z base len = Inr (m, r)" "len \<le> usize_max"
  shows "mpsc_ok m" "r = ring_zero z" "capacity m = mpsc_cap payload len" "m_head_cache m = 0"
proof -
  have f: "from_raw_parts payload align base len = Inr m" and "r = ring_zero z"
    using assms(1) by (auto simp: mpsc_new_def split: sum.splits)
  with from_raw_parts_ok [OF f assms(2)]
  show "mpsc_ok m" "r = ring_zero z" "capacity m = mpsc_cap payload len" "m_head_cache m = 0" by simp_all
qed

lemma mpsc_new_repr:
  assumes "mpsc_new payload align z base len = Inr s0" "len \<le> usize_max"
  shows "mpsc_repr s0 [] (2 ^ 63 - 2)" "(case s0 of (m, r) \<Rightarrow> capacity m) = mpsc_cap payload len"
proof -
  obtain m r where s0: "s0 = (m, r)" by fastforce
  note n = mpsc_newD [OF assms(1) [unfolded s0] assms(2)]
  have "ring_at m r 0 []" by (simp add: ring_at_def n(2) ring_zero_def)
  then show "mpsc_repr s0 [] (2 ^ 63 - 2)" using n s0 by (auto simp: mpsc_repr_def)
  show "(case s0 of (m, r) \<Rightarrow> capacity m) = mpsc_cap payload len" using s0 n(3) by simp
qed

text \<open>C25. Used one call at a time the ring is a bounded queue: after any sequence of pushes and pops it
  holds what was pushed and not popped, oldest first, a push succeeds exactly when fewer than the
  capacity are held, and a pop returns the oldest.\<close>

theorem mpsc_sequential_fifo:
  assumes "mpsc_new payload align z base len = Inr s0" "len \<le> usize_max"
    "fifo_run fifo_push fifo_pop s0 n s ins outs" "n < 2 ^ 62"
  shows "\<exists>xs. ins = outs @ xs \<and> length xs \<le> mpsc_cap payload len \<and>
    (\<exists>s'. fifo_push s v = Some (s', length xs < mpsc_cap payload len)) \<and>
    (\<exists>s'. fifo_pop s = Some (s', if xs = [] then None else Some (hd xs)))"
proof -
  note n = mpsc_new_repr [OF assms(1,2)]
  obtain xs where xs: "ins = outs @ xs" "mpsc_repr s xs (2 ^ 63 - 2 - n)"
    and cap: "(case s of (m, r) \<Rightarrow> capacity m) = mpsc_cap payload len"
    using mq.run_repr [OF assms(3) n(1)] assms(4) n(2) by auto
  obtain b where b: "mpsc_repr s xs (Suc b)" using xs(2) assms(4) by (cases "2 ^ 63 - 2 - n") auto
  have le: "length xs \<le> mpsc_cap payload len" using mq.within [OF b] cap by simp
  have "\<exists>s'. fifo_push s v = Some (s', length xs < mpsc_cap payload len)"
  proof (cases "length xs < mpsc_cap payload len")
    case True
    then show ?thesis using mq.push_room [OF b, of v] cap by auto
  next
    case False
    then show ?thesis using mq.push_full [OF b, of v] cap le by auto
  qed
  moreover have "\<exists>s'. fifo_pop s = Some (s', if xs = [] then None else Some (hd xs))"
    using mq.pop_empty [of s "Suc b"] mq.pop_next [of s _ _ "Suc b"] b by (cases xs) fastforce+
  ultimately show ?thesis using xs(1) le by blast
qed

section \<open>Witnesses on one page\<close>

definition ex_mpsc :: mpsc where
  "ex_mpsc = \<lparr> m_base = 0, m_len = 4096, m_cap_shift = 7, m_slot_shift = 4, m_mask = 127, m_head_cache = 0 \<rparr>"

lemma ex_layout: "from_raw_parts 8 8 0 4096 = Inr ex_mpsc"
  by (simp add: from_raw_parts_def ex_mpsc_def slot_size_def SLOT_HEADER_SIZE_def next_power_of_two_def ilog2_def
      bit_length.simps MAX_PAYLOAD_ALIGN_def PAGE_SIZE_def MPSC_HEADER_SIZE_def)

lemma ex_cap: "mpsc_cap 8 4096 = 128"
  by (simp add: mpsc_cap_def slot_size_def SLOT_HEADER_SIZE_def next_power_of_two_def ilog2_def
      bit_length.simps MPSC_HEADER_SIZE_def)

lemma ex_mpsc_new: "mpsc_new 8 8 z 0 4096 = Inr (ex_mpsc, ring_zero z)"
  by (simp add: mpsc_new_def ex_layout)

theorem mpsc_layout_witness: "mpsc_capacity ex_mpsc = 128 \<and> slot_ptr ex_mpsc 3 + SLOT_HEADER_SIZE + 8 \<le> 4096"
  using mpsc_layout [OF ex_layout, of 3 0] ex_cap by (simp add: usize_max_def)

theorem mpsc_sequential_fifo_witness:
  "\<exists>s. fifo_run fifo_push fifo_pop (ex_mpsc, ring_zero (0 :: nat)) 1 s [5] [] \<and>
     (\<exists>s'. fifo_pop s = Some (s', Some 5))"
proof -
  note n = mpsc_new_repr [OF ex_mpsc_new [of "0 :: nat"]]
  have cap: "capacity ex_mpsc = 128" by (simp add: capacity_def ex_mpsc_def)
  have "mpsc_repr (ex_mpsc, ring_zero (0 :: nat)) [] (Suc (2 ^ 63 - 3))" using n(1) by (simp add: usize_max_def)
  then obtain s where s: "fifo_push (ex_mpsc, ring_zero (0 :: nat)) 5 = Some (s, True)"
    using mq.push_room [of "(ex_mpsc, ring_zero (0 :: nat))" "[]" "2 ^ 63 - 3" 5] cap by (simp del: split_paired_Ex) blast
  have run: "fifo_run fifo_push fifo_pop (ex_mpsc, ring_zero (0 :: nat)) 1 s [5] []"
    using fifo_run.accept [of fifo_push fifo_pop, OF fifo_run.start s] by simp
  with mpsc_sequential_fifo [OF ex_mpsc_new _ run] show ?thesis
    by (intro exI [of _ s]) (auto simp: usize_max_def)
qed

end
