(* ===== verification/Mpsc_Conc.thy ===== *)
theory Mpsc_Conc
  imports Mpsc
begin

text \<open>
  Concurrent use of the ring of \<open>src/v5/mpsc.rs\<close>. \<open>mpsc_step\<close> interleaves the atomic accesses of any
  number of producers inside \<open>try_push\<close> and of one consumer inside \<open>try_pop\<close>, in the order the code
  issues them and with spurious failures of the weak compare-exchange, over a sequentially
  consistent memory. \<open>mpsc_inv\<close> holds in every state below \<open>2 ^ 63\<close> claimed positions; the properties
  follow from it.
\<close>

section \<open>Concurrent calls\<close>

text \<open>Where a producer stands inside \<open>try_push\<close>, and the consumer inside \<open>try_pop\<close>: between any two of
  these points one access to shared state happens.\<close>

datatype 'a producer =
    PIdle
  | PLoad 'a
  | PLoop 'a "64 word"
  | PReload 'a "64 word"
  | PCache 'a "64 word" "64 word"
  | PCas 'a "64 word"
  | PClaimed 'a "64 word"
  | PWrite 'a "64 word"
  | PPublish 'a "64 word"
  | PDone bool

datatype 'a consumer =
    CIdle
  | CLoad
  | CSlot "64 word"
  | CTail "64 word"
  | CRead "64 word"
  | CRelease "64 word" 'a
  | CAdvance "64 word" 'a
  | COut "'a pop_result"

text \<open>\<open>sy_claimed\<close> and \<open>sy_popped\<close> are ghost: the values in the order their positions were claimed, and the
  values \<open>try_pop\<close> has returned.\<close>

record 'a mpsc_sys =
  sy_ring :: "'a ring"
  sy_cache :: "64 word"
  sy_prod :: "nat \<Rightarrow> 'a producer"
  sy_cons :: "'a consumer"
  sy_claimed :: "'a list"
  sy_popped :: "'a list"

definition set_prod :: "('a, 'm) mpsc_sys_scheme \<Rightarrow> nat \<Rightarrow> 'a producer \<Rightarrow> ('a, 'm) mpsc_sys_scheme" where
  "set_prod s i pc = s \<lparr> sy_prod := (sy_prod s)(i := pc) \<rparr>"

definition set_turn :: "('a, 'm) mpsc_sys_scheme \<Rightarrow> nat \<Rightarrow> 64 word \<Rightarrow> ('a, 'm) mpsc_sys_scheme" where
  "set_turn s slot w = s \<lparr> sy_ring := (sy_ring s) \<lparr> rg_turn := (rg_turn (sy_ring s))(slot := w) \<rparr> \<rparr>"

inductive mpsc_step :: "mpsc \<Rightarrow> ('a, 'm) mpsc_sys_scheme \<Rightarrow> ('a, 'm) mpsc_sys_scheme \<Rightarrow> bool" for m where
  p_load: "sy_prod s i = PLoad v \<Longrightarrow> mpsc_step m s (set_prod s i (PLoop v (rg_tail (sy_ring s))))"
| p_room: "sy_prod s i = PLoop v t \<Longrightarrow> \<not> t - sy_cache s > m_mask m \<Longrightarrow> mpsc_step m s (set_prod s i (PCas v t))"
| p_stale: "sy_prod s i = PLoop v t \<Longrightarrow> t - sy_cache s > m_mask m \<Longrightarrow> mpsc_step m s (set_prod s i (PReload v t))"
| p_head: "sy_prod s i = PReload v t \<Longrightarrow> mpsc_step m s (set_prod s i (PCache v t (rg_head (sy_ring s))))"
| p_cache: "sy_prod s i = PCache v t h \<Longrightarrow>
    mpsc_step m s (set_prod (s \<lparr> sy_cache := h \<rparr>) i (if t - h > m_mask m then PDone False else PCas v t))"
| p_claim: "sy_prod s i = PCas v t \<Longrightarrow> rg_tail (sy_ring s) = t \<Longrightarrow>
    mpsc_step m s (set_prod (s \<lparr> sy_ring := (sy_ring s) \<lparr> rg_tail := t + 1 \<rparr>, sy_claimed := sy_claimed s @ [v] \<rparr>) i
      (PClaimed v t))"
| p_retry: "sy_prod s i = PCas v t \<Longrightarrow> mpsc_step m s (set_prod s i (PLoop v (rg_tail (sy_ring s))))"
| p_turn: "sy_prod s i = PClaimed v p \<Longrightarrow> rg_turn (sy_ring s) (slot_ptr m p) = turn_free (turn m p) \<Longrightarrow>
    mpsc_step m s (set_prod s i (PWrite v p))"
| p_write: "sy_prod s i = PWrite v p \<Longrightarrow>
    mpsc_step m s (set_prod (s \<lparr> sy_ring := (sy_ring s) \<lparr> rg_val := (rg_val (sy_ring s))(slot_ptr m p := v) \<rparr> \<rparr>) i
      (PPublish v p))"
| p_publish: "sy_prod s i = PPublish v p \<Longrightarrow>
    mpsc_step m s (set_prod (set_turn s (slot_ptr m p) (turn_published (turn m p))) i (PDone True))"
| c_load: "sy_cons s = CLoad \<Longrightarrow> mpsc_step m s (s \<lparr> sy_cons := CSlot (rg_head (sy_ring s)) \<rparr>)"
| c_ready: "sy_cons s = CSlot h \<Longrightarrow> rg_turn (sy_ring s) (slot_ptr m h) = turn_published (turn m h) \<Longrightarrow>
    mpsc_step m s (s \<lparr> sy_cons := CRead h \<rparr>)"
| c_unready: "sy_cons s = CSlot h \<Longrightarrow> rg_turn (sy_ring s) (slot_ptr m h) \<noteq> turn_published (turn m h) \<Longrightarrow>
    mpsc_step m s (s \<lparr> sy_cons := CTail h \<rparr>)"
| c_tail: "sy_cons s = CTail h \<Longrightarrow>
    mpsc_step m s (s \<lparr> sy_cons := COut (if h = rg_tail (sy_ring s) then Empty else HeadNotReady) \<rparr>)"
| c_read: "sy_cons s = CRead h \<Longrightarrow>
    mpsc_step m s (s \<lparr> sy_cons := CRelease h (rg_val (sy_ring s) (slot_ptr m h)) \<rparr>)"
| c_release: "sy_cons s = CRelease h v \<Longrightarrow>
    mpsc_step m s ((set_turn s (slot_ptr m h) (turn_free (turn m h + 1))) \<lparr> sy_cons := CAdvance h v \<rparr>)"
| c_advance: "sy_cons s = CAdvance h v \<Longrightarrow>
    mpsc_step m s (s \<lparr> sy_ring := (sy_ring s) \<lparr> rg_head := h + 1 \<rparr>, sy_cons := COut (Ready v),
      sy_popped := sy_popped s @ [v] \<rparr>)"

text \<open>Calls begin whenever a producer or the consumer is outside one.\<close>

inductive mpsc_call :: "('a, 'm) mpsc_sys_scheme \<Rightarrow> ('a, 'm) mpsc_sys_scheme \<Rightarrow> bool" where
  call_push: "sy_prod s i \<in> {PIdle, PDone True, PDone False} \<Longrightarrow> mpsc_call s (set_prod s i (PLoad v))"
| return_push: "sy_prod s i \<in> {PDone True, PDone False} \<Longrightarrow> mpsc_call s (set_prod s i PIdle)"
| call_pop: "sy_cons s = CIdle \<or> (\<exists>r. sy_cons s = COut r) \<Longrightarrow> mpsc_call s (s \<lparr> sy_cons := CLoad \<rparr>)"

definition mpsc_start :: "'a ring \<Rightarrow> 'a mpsc_sys" where
  "mpsc_start r = \<lparr> sy_ring = r, sy_cache = 0, sy_prod = (\<lambda>_. PIdle), sy_cons = CIdle, sy_claimed = [], sy_popped = [] \<rparr>"

inductive mpsc_run :: "mpsc \<Rightarrow> 'a mpsc_sys \<Rightarrow> 'a mpsc_sys \<Rightarrow> bool" for m s0 where
  refl: "mpsc_run m s0 s0"
| step: "mpsc_run m s0 s \<Longrightarrow> mpsc_step m s s' \<Longrightarrow> mpsc_run m s0 s'"
| call: "mpsc_run m s0 s \<Longrightarrow> mpsc_call s s' \<Longrightarrow> mpsc_run m s0 s'"

section \<open>The invariant\<close>

abbreviation claims :: "('a, 'm) mpsc_sys_scheme \<Rightarrow> nat" where
  "claims s \<equiv> length (sy_claimed s)"

abbreviation pops :: "('a, 'm) mpsc_sys_scheme \<Rightarrow> nat" where
  "pops s \<equiv> length (sy_popped s)"

text \<open>The first position whose slot the consumer has not yet released.\<close>

definition released :: "('a, 'm) mpsc_sys_scheme \<Rightarrow> nat" where
  "released s = pops s + (case sy_cons s of CAdvance _ _ \<Rightarrow> 1 | _ \<Rightarrow> 0)"

fun holds :: "'a producer \<Rightarrow> ('a \<times> 64 word) option" where
  "holds (PClaimed v p) = Some (v, p)"
| "holds (PWrite v p) = Some (v, p)"
| "holds (PPublish v p) = Some (v, p)"
| "holds _ = None"

definition held :: "('a, 'm) mpsc_sys_scheme \<Rightarrow> nat set" where
  "held s = {unat p |i v p. holds (sy_prod s i) = Some (v, p)}"

definition has_pos :: "('a, 'm) mpsc_sys_scheme \<Rightarrow> 'a \<Rightarrow> 64 word \<Rightarrow> bool" where
  "has_pos s v p \<longleftrightarrow> released s \<le> unat p \<and> unat p < claims s \<and> sy_claimed s ! unat p = v"

fun prod_ok :: "mpsc \<Rightarrow> ('a, 'm) mpsc_sys_scheme \<Rightarrow> 'a producer \<Rightarrow> bool" where
  "prod_ok m s (PLoop v t) \<longleftrightarrow> unat t \<le> claims s"
| "prod_ok m s (PReload v t) \<longleftrightarrow> unat t \<le> claims s"
| "prod_ok m s (PCache v t h) \<longleftrightarrow> unat t \<le> claims s \<and> unat h \<le> pops s"
| "prod_ok m s (PCas v t) \<longleftrightarrow> unat t < pops s + capacity m"
| "prod_ok m s (PClaimed v p) \<longleftrightarrow> has_pos s v p"
| "prod_ok m s (PWrite v p) \<longleftrightarrow> has_pos s v p"
| "prod_ok m s (PPublish v p) \<longleftrightarrow> has_pos s v p \<and> rg_val (sy_ring s) (slot_at m (unat p)) = v"
| "prod_ok m s _ \<longleftrightarrow> True"

text \<open>The head position, claimed and published.\<close>

definition head_full :: "('a, 'm) mpsc_sys_scheme \<Rightarrow> bool" where
  "head_full s \<longleftrightarrow> pops s < claims s \<and> pops s \<notin> held s"

fun cons_ok :: "('a, 'm) mpsc_sys_scheme \<Rightarrow> 'a consumer \<Rightarrow> bool" where
  "cons_ok s (CSlot h) \<longleftrightarrow> unat h = pops s"
| "cons_ok s (CTail h) \<longleftrightarrow> unat h = pops s"
| "cons_ok s (CRead h) \<longleftrightarrow> unat h = pops s \<and> head_full s"
| "cons_ok s (CRelease h v) \<longleftrightarrow> unat h = pops s \<and> head_full s \<and> v = sy_claimed s ! pops s"
| "cons_ok s (CAdvance h v) \<longleftrightarrow> unat h = pops s \<and> head_full s \<and> v = sy_claimed s ! pops s"
| "cons_ok s _ \<longleftrightarrow> True"

definition cells_ok :: "mpsc \<Rightarrow> ('a, 'm) mpsc_sys_scheme \<Rightarrow> bool" where
  "cells_ok m s \<longleftrightarrow> (\<forall>p. released s \<le> p \<longrightarrow> p < released s + capacity m \<longrightarrow>
     (if p < claims s \<and> p \<notin> held s
      then unat (rg_turn (sy_ring s) (slot_at m p)) = 2 * (p div capacity m) + 1 \<and>
           rg_val (sy_ring s) (slot_at m p) = sy_claimed s ! p
      else unat (rg_turn (sy_ring s) (slot_at m p)) = 2 * (p div capacity m)))"

definition counters_ok :: "mpsc \<Rightarrow> ('a, 'm) mpsc_sys_scheme \<Rightarrow> bool" where
  "counters_ok m s \<longleftrightarrow> mpsc_ok m \<and> claims s + 1 < 2 ^ 63 \<and> unat (rg_tail (sy_ring s)) = claims s \<and>
     unat (rg_head (sy_ring s)) = pops s \<and> claims s \<le> pops s + capacity m \<and>
     sy_popped s = take (pops s) (sy_claimed s) \<and> unat (sy_cache s) \<le> pops s"

definition apart :: "('a, 'm) mpsc_sys_scheme \<Rightarrow> bool" where
  "apart s \<longleftrightarrow> (\<forall>i j v p v' p'. i \<noteq> j \<longrightarrow> holds (sy_prod s i) = Some (v, p) \<longrightarrow>
     holds (sy_prod s j) = Some (v', p') \<longrightarrow> p \<noteq> p')"

definition mpsc_inv :: "mpsc \<Rightarrow> ('a, 'm) mpsc_sys_scheme \<Rightarrow> bool" where
  "mpsc_inv m s \<longleftrightarrow> counters_ok m s \<and> (\<forall>i. prod_ok m s (sy_prod s i)) \<and> apart s \<and>
     cons_ok s (sy_cons s) \<and> cells_ok m s"

lemma set_prod_simps [simp]:
  "sy_ring (set_prod s i pc) = sy_ring s" "sy_cache (set_prod s i pc) = sy_cache s"
  "sy_cons (set_prod s i pc) = sy_cons s" "sy_claimed (set_prod s i pc) = sy_claimed s"
  "sy_popped (set_prod s i pc) = sy_popped s" "sy_prod (set_prod s i pc) = (sy_prod s)(i := pc)"
  by (simp_all add: set_prod_def)

lemma set_turn_simps [simp]:
  "rg_head (sy_ring (set_turn s p w)) = rg_head (sy_ring s)" "rg_tail (sy_ring (set_turn s p w)) = rg_tail (sy_ring s)"
  "rg_val (sy_ring (set_turn s p w)) = rg_val (sy_ring s)"
  "rg_turn (sy_ring (set_turn s p w)) = (rg_turn (sy_ring s))(p := w)"
  "sy_cache (set_turn s p w) = sy_cache s" "sy_cons (set_turn s p w) = sy_cons s"
  "sy_claimed (set_turn s p w) = sy_claimed s" "sy_popped (set_turn s p w) = sy_popped s"
  "sy_prod (set_turn s p w) = sy_prod s"
  by (simp_all add: set_turn_def)

lemma mpsc_invD:
  assumes "mpsc_inv m s"
  shows "counters_ok m s" "prod_ok m s (sy_prod s i)" "apart s" "cons_ok s (sy_cons s)" "cells_ok m s"
  using assms by (simp_all add: mpsc_inv_def)

lemma countersD:
  assumes "counters_ok m s"
  shows "mpsc_ok m" "claims s + 1 < 2 ^ 63" "unat (rg_tail (sy_ring s)) = claims s"
    "unat (rg_head (sy_ring s)) = pops s" "claims s \<le> pops s + capacity m" "pops s \<le> claims s"
    "sy_popped s = take (pops s) (sy_claimed s)" "unat (sy_cache s) \<le> pops s"
proof -
  have "sy_popped s = take (pops s) (sy_claimed s)" using assms by (simp add: counters_ok_def)
  then have "pops s = min (claims s) (pops s)" by (metis length_take)
  then show "pops s \<le> claims s" by simp
qed (use assms in \<open>simp_all add: counters_ok_def\<close>)

lemma cellD:
  assumes "cells_ok m s" "released s \<le> p" "p < released s + capacity m"
  shows "p < claims s \<Longrightarrow> p \<notin> held s \<Longrightarrow>
      unat (rg_turn (sy_ring s) (slot_at m p)) = 2 * (p div capacity m) + 1 \<and>
      rg_val (sy_ring s) (slot_at m p) = sy_claimed s ! p"
    and "\<not> p < claims s \<or> p \<in> held s \<Longrightarrow> unat (rg_turn (sy_ring s) (slot_at m p)) = 2 * (p div capacity m)"
  using assms by (auto simp: cells_ok_def)

lemma held_iff: "p \<in> held s \<longleftrightarrow> (\<exists>i v w. holds (sy_prod s i) = Some (v, w) \<and> unat w = p)"
  by (auto simp: held_def)

lemma held_claim:
  assumes "holds (sy_prod s i) = None" "holds pc = Some (v, p)" "sy_prod s' = (sy_prod s)(i := pc)"
  shows "held s' = insert (unat p) (held s)"
proof (rule set_eqI)
  fix q
  have "q \<in> held s' \<longleftrightarrow> q = unat p \<or> (\<exists>j v w. j \<noteq> i \<and> holds (sy_prod s j) = Some (v, w) \<and> unat w = q)"
    using assms(2,3) by (auto simp: held_iff split: if_splits)
  moreover have "q \<in> held s \<longleftrightarrow> (\<exists>j v w. j \<noteq> i \<and> holds (sy_prod s j) = Some (v, w) \<and> unat w = q)"
    unfolding held_iff using assms(1) by (metis option.distinct(1))
  ultimately show "q \<in> held s' \<longleftrightarrow> q \<in> insert (unat p) (held s)" by blast
qed

lemma held_publish:
  assumes "holds (sy_prod s i) = Some (v, p)" "holds pc = None" "sy_prod s' = (sy_prod s)(i := pc)" "apart s"
  shows "held s' = held s - {unat p}"
proof (rule set_eqI)
  fix q
  have "q \<in> held s' \<longleftrightarrow> (\<exists>j v w. j \<noteq> i \<and> holds (sy_prod s j) = Some (v, w) \<and> unat w = q)"
    using assms(2,3) by (auto simp: held_iff split: if_splits)
  moreover have "(\<exists>j v w. j \<noteq> i \<and> holds (sy_prod s j) = Some (v, w) \<and> unat w = q) \<longleftrightarrow> q \<in> held s \<and> q \<noteq> unat p"
  proof
    assume "\<exists>j v w. j \<noteq> i \<and> holds (sy_prod s j) = Some (v, w) \<and> unat w = q"
    then obtain j v' w where j: "j \<noteq> i" "holds (sy_prod s j) = Some (v', w)" "unat w = q" by blast
    have "w \<noteq> p" using assms(1,4) j(1,2) unfolding apart_def by blast
    then show "q \<in> held s \<and> q \<noteq> unat p" using j by (auto simp: held_iff word_unat_eq_iff)
  next
    assume "q \<in> held s \<and> q \<noteq> unat p"
    then obtain j v' w where j: "holds (sy_prod s j) = Some (v', w)" "unat w = q" "q \<noteq> unat p"
      by (auto simp: held_iff)
    then have "j \<noteq> i" using assms(1) by auto
    with j show "\<exists>j v w. j \<noteq> i \<and> holds (sy_prod s j) = Some (v, w) \<and> unat w = q" by blast
  qed
  ultimately show "q \<in> held s' \<longleftrightarrow> q \<in> held s - {unat p}" by simp
qed

text \<open>A step that only moves a producer between points that hold the same position.\<close>

lemma inv_prod_local:
  assumes inv: "mpsc_inv m s" and ok: "prod_ok m s pc" and same: "holds pc = holds (sy_prod s i)"
  shows "mpsc_inv m (set_prod s i pc)"
proof -
  let ?s = "set_prod s i pc"
  have h: "holds (sy_prod ?s j) = holds (sy_prod s j)" for j using same by simp
  have held: "held ?s = held s" unfolding held_def h ..
  have rel: "released ?s = released s" by (simp add: released_def)
  have p: "prod_ok m ?s c = prod_ok m s c" for c by (cases c) (simp_all add: has_pos_def rel)
  have hf: "head_full ?s = head_full s" by (simp add: head_full_def held)
  have c: "cons_ok ?s c = cons_ok s c" for c by (cases c) (simp_all add: hf)
  have "counters_ok m ?s = counters_ok m s" by (simp add: counters_ok_def)
  moreover have "apart ?s = apart s" unfolding apart_def h ..
  moreover have "cells_ok m ?s = cells_ok m s" by (simp add: cells_ok_def rel held)
  moreover have "\<forall>j. prod_ok m ?s (sy_prod ?s j)" using inv ok by (simp add: p mpsc_inv_def)
  moreover have "cons_ok ?s (sy_cons ?s)" using inv by (simp add: c mpsc_inv_def)
  ultimately show ?thesis using inv by (simp add: mpsc_inv_def)
qed

lemma inv_cache:
  assumes inv: "mpsc_inv m s" and h: "unat h \<le> pops s"
  shows "mpsc_inv m (s \<lparr> sy_cache := h \<rparr>)"
proof -
  let ?s = "s \<lparr> sy_cache := h \<rparr>"
  have held: "held ?s = held s" by (simp add: held_def)
  have rel: "released ?s = released s" by (simp add: released_def)
  have p: "prod_ok m ?s c = prod_ok m s c" for c by (cases c) (simp_all add: has_pos_def rel)
  have hf: "head_full ?s = head_full s" by (simp add: head_full_def held)
  have c: "cons_ok ?s c = cons_ok s c" for c by (cases c) (simp_all add: hf)
  show ?thesis using inv h by (simp add: mpsc_inv_def counters_ok_def p c apart_def cells_ok_def rel held)
qed

lemma inv_cons_local:
  assumes inv: "mpsc_inv m s" and ok: "cons_ok s c"
    and "\<nexists>h v. c = CAdvance h v" "\<nexists>h v. sy_cons s = CAdvance h v"
  shows "mpsc_inv m (s \<lparr> sy_cons := c \<rparr>)"
proof -
  let ?s = "s \<lparr> sy_cons := c \<rparr>"
  have held: "held ?s = held s" by (simp add: held_def)
  have rel: "released ?s = released s"
    using assms(3,4) by (cases c; cases "sy_cons s") (auto simp: released_def)
  have p: "prod_ok m ?s c = prod_ok m s c" for c by (cases c) (simp_all add: has_pos_def rel)
  have hf: "head_full ?s = head_full s" by (simp add: head_full_def held)
  have c: "cons_ok ?s c = cons_ok s c" for c by (cases c) (simp_all add: hf)
  show ?thesis using inv ok by (simp add: mpsc_inv_def counters_ok_def p c apart_def cells_ok_def rel held)
qed

text \<open>Where the consumer has something to read, it is the head position.\<close>

lemma released_le: "mpsc_inv m s \<Longrightarrow> pops s \<le> released s \<and> released s \<le> claims s"
  using countersD(6) [of m s] by (cases "sy_cons s") (auto simp: mpsc_inv_def released_def head_full_def)

lemma has_pos_word: "mpsc_inv m s \<Longrightarrow> has_pos s v p \<Longrightarrow> unat p + 1 < 2 ^ 63"
  using countersD(2) [of m s] by (auto simp: mpsc_inv_def has_pos_def)

lemma has_pos_window: "mpsc_inv m s \<Longrightarrow> has_pos s v p \<Longrightarrow>
    released s \<le> unat p \<and> unat p < released s + capacity m"
  using countersD(5) [of m s] released_le [of m s] by (auto simp: mpsc_inv_def has_pos_def)

lemma prod_ok_holds: "prod_ok m s pc \<Longrightarrow> holds pc = Some (v, p) \<Longrightarrow> has_pos s v p"
  by (cases pc) auto

text \<open>The position a producer has claimed is free to write: the spin loop never turns.\<close>

lemma claimed_free:
  assumes inv: "mpsc_inv m s" and h: "holds (sy_prod s i) = Some (v, p)"
  shows "rg_turn (sy_ring s) (slot_ptr m p) = turn_free (turn m p)"
proof -
  note pos = prod_ok_holds [OF mpsc_invD(2) [OF inv] h]
  have "unat p \<in> held s" using h by (auto simp: held_iff)
  then have "unat (rg_turn (sy_ring s) (slot_at m (unat p))) = 2 * (unat p div capacity m)"
    using cellD(2) [OF mpsc_invD(5) [OF inv]] has_pos_window [OF inv pos] by blast
  then show ?thesis
    using unat_turns(1) [OF HOL.refl has_pos_word [OF inv pos], of m] slot_ptr_eq countersD(1) [OF mpsc_invD(1) [OF inv]]
    by (simp add: word_unat_eq_iff)
qed

lemma claim_inv:
  assumes inv: "mpsc_inv m s" and pc: "sy_prod s i = PCas v t" "rg_tail (sy_ring s) = t"
    and b: "claims s + 2 < 2 ^ 63"
  shows "mpsc_inv m (set_prod (s \<lparr> sy_ring := (sy_ring s) \<lparr> rg_tail := t + 1 \<rparr>, sy_claimed := sy_claimed s @ [v] \<rparr>) i
      (PClaimed v t))" (is "mpsc_inv m ?s")
proof -
  note c = countersD [OF mpsc_invD(1) [OF inv]]
  have t: "unat t = claims s" "unat (t + 1) = claims s + 1"
    using c(3) pc(2) unat_Suc_word [of t] b by simp_all
  have room: "claims s < pops s + capacity m" using mpsc_invD(2) [OF inv, of i] pc(1) t(1) by simp
  have rel: "released ?s = released s" by (simp add: released_def)
  have pos: "has_pos ?s v' p" if "has_pos s v' p" for v' p
    using that by (simp add: has_pos_def rel nth_append)
  have held: "held ?s = insert (claims s) (held s)"
    using held_claim [of s i "PClaimed v t" v t ?s] pc(1) t(1) by simp
  have old: "unat p < claims s" if "holds (sy_prod s j) = Some (v', p)" for j v' p
    using prod_ok_holds [OF mpsc_invD(2) [OF inv] that] by (simp add: has_pos_def)
  have "prod_ok m ?s (sy_prod ?s j)" for j
  proof (cases "j = i")
    case True
    then show ?thesis using t(1) released_le [OF inv] by (simp add: has_pos_def rel nth_append)
  next
    case False
    then show ?thesis using mpsc_invD(2) [OF inv, of j] pos by (cases "sy_prod s j") auto
  qed
  moreover have "apart ?s"
    unfolding apart_def
  proof (intro allI impI)
    fix j k v1 p1 v2 p2
    assume a: "j \<noteq> k" "holds (sy_prod ?s j) = Some (v1, p1)" "holds (sy_prod ?s k) = Some (v2, p2)"
    show "p1 \<noteq> p2"
      using a old [of j v1 p1] old [of k v2 p2] t(1) mpsc_invD(3) [OF inv]
      by (cases "j = i"; cases "k = i") (auto simp: apart_def)
  qed
  moreover have "cells_ok m ?s"
    unfolding cells_ok_def rel held
    using mpsc_invD(5) [OF inv] by (auto simp: cells_ok_def nth_append)
  moreover have "counters_ok m ?s"
    using c t b room by (simp add: counters_ok_def)
  moreover have "cons_ok ?s (sy_cons ?s)"
    using mpsc_invD(4) [OF inv] by (cases "sy_cons s") (auto simp: head_full_def held nth_append)
  ultimately show ?thesis by (simp add: mpsc_inv_def)
qed

lemma held_window: "mpsc_inv m s \<Longrightarrow> p \<in> held s \<Longrightarrow> released s \<le> p \<and> p < claims s"
  using prod_ok_holds [OF mpsc_invD(2)] by (fastforce simp: held_iff has_pos_def)

lemma slot_neq:
  assumes inv: "mpsc_inv m s" and "released s \<le> p" "p < released s + capacity m" "has_pos s v w" "unat w \<noteq> p"
  shows "slot_at m p \<noteq> slot_at m (unat w)"
  using slot_window_neq [OF assms(2,3), of "unat w"] has_pos_window [OF inv assms(4)] assms(5) by auto

lemma write_inv:
  assumes inv: "mpsc_inv m s" and pc: "sy_prod s i = PWrite v p"
  shows "mpsc_inv m (set_prod (s \<lparr> sy_ring := (sy_ring s) \<lparr> rg_val := (rg_val (sy_ring s))(slot_ptr m p := v) \<rparr> \<rparr>) i
      (PPublish v p))" (is "mpsc_inv m ?s")
proof -
  have sp: "slot_ptr m p = slot_at m (unat p)" using slot_ptr_eq countersD(1) [OF mpsc_invD(1) [OF inv]] by blast
  have pos: "has_pos s v p" using mpsc_invD(2) [OF inv, of i] pc by simp
  have h: "holds (sy_prod ?s j) = holds (sy_prod s j)" for j using pc by simp
  have held: "held ?s = held s" unfolding held_def h ..
  have rel: "released ?s = released s" by (simp add: released_def)
  have hp: "has_pos ?s = has_pos s" by (simp add: has_pos_def rel fun_eq_iff)
  have "prod_ok m ?s (sy_prod ?s j)" for j
  proof (cases "j = i")
    case True
    have "has_pos ?s v p" using pos hp by metis
    then show ?thesis using True by (simp add: sp [symmetric])
  next
    case False
    have "rg_val (sy_ring ?s) (slot_at m (unat q)) = v'" if "sy_prod s j = PPublish v' q" for v' q
    proof -
      have q: "has_pos s v' q" "rg_val (sy_ring s) (slot_at m (unat q)) = v'"
        using mpsc_invD(2) [OF inv, of j] that by auto
      have "q \<noteq> p" using mpsc_invD(3) [OF inv] False that pc unfolding apart_def by fastforce
      then have "slot_at m (unat q) \<noteq> slot_at m (unat p)"
        using slot_neq [OF inv _ _ pos, of "unat q"] has_pos_window [OF inv q(1)] by (auto simp: word_unat_eq_iff)
      then show ?thesis using q(2) sp by simp
    qed
    then show ?thesis using mpsc_invD(2) [OF inv, of j] False by (cases "sy_prod s j") (simp_all add: hp)
  qed
  moreover have "cells_ok m ?s"
    unfolding cells_ok_def rel held
  proof (intro allI impI)
    fix q assume q: "released s \<le> q" "q < released s + capacity m"
    have "holds (sy_prod s i) = Some (v, p)" using pc by simp
    then have "unat p \<in> held s" unfolding held_iff by blast
    then have "slot_at m q \<noteq> slot_at m (unat p)" if "q \<notin> held s" using slot_neq [OF inv q pos] that by blast
    then show "if q < claims ?s \<and> q \<notin> held s
      then unat (rg_turn (sy_ring ?s) (slot_at m q)) = 2 * (q div capacity m) + 1 \<and>
           rg_val (sy_ring ?s) (slot_at m q) = sy_claimed ?s ! q
      else unat (rg_turn (sy_ring ?s) (slot_at m q)) = 2 * (q div capacity m)"
      using cellD [OF mpsc_invD(5) [OF inv] q] sp by auto
  qed
  moreover have "apart ?s" unfolding apart_def h using mpsc_invD(3) [OF inv] by (simp add: apart_def)
  moreover have "counters_ok m ?s" using mpsc_invD(1) [OF inv] by (simp add: counters_ok_def)
  moreover have "cons_ok ?s (sy_cons ?s)"
    using mpsc_invD(4) [OF inv] by (cases "sy_cons s") (auto simp: head_full_def held)
  ultimately show ?thesis by (simp add: mpsc_inv_def)
qed

lemma publish_inv:
  assumes inv: "mpsc_inv m s" and pc: "sy_prod s i = PPublish v p"
  shows "mpsc_inv m (set_prod (set_turn s (slot_ptr m p) (turn_published (turn m p))) i (PDone True))" (is "mpsc_inv m ?s")
proof -
  have sp: "slot_ptr m p = slot_at m (unat p)" using slot_ptr_eq countersD(1) [OF mpsc_invD(1) [OF inv]] by blast
  have pos: "has_pos s v p" and val: "rg_val (sy_ring s) (slot_at m (unat p)) = v"
    using mpsc_invD(2) [OF inv, of i] pc by simp_all
  have held: "held ?s = held s - {unat p}"
    using held_publish [of s i v p "PDone True" ?s] pc mpsc_invD(3) [OF inv] by simp
  have rel: "released ?s = released s" by (simp add: released_def)
  have hp: "has_pos ?s = has_pos s" by (simp add: has_pos_def rel fun_eq_iff)
  have "prod_ok m ?s (sy_prod ?s j)" for j
    using mpsc_invD(2) [OF inv, of j] by (cases "sy_prod s j") (simp_all add: hp)
  moreover have "apart ?s" using mpsc_invD(3) [OF inv] by (simp add: apart_def)
  moreover have "cells_ok m ?s"
    unfolding cells_ok_def rel held
  proof (intro allI impI)
    fix q assume q: "released s \<le> q" "q < released s + capacity m"
    show "if q < claims ?s \<and> q \<notin> held s - {unat p}
      then unat (rg_turn (sy_ring ?s) (slot_at m q)) = 2 * (q div capacity m) + 1 \<and>
           rg_val (sy_ring ?s) (slot_at m q) = sy_claimed ?s ! q
      else unat (rg_turn (sy_ring ?s) (slot_at m q)) = 2 * (q div capacity m)"
    proof (cases "q = unat p")
      case True
      then show ?thesis
        using unat_turns(2) [OF HOL.refl has_pos_word [OF inv pos], of m] pos val sp by (simp add: has_pos_def)
    next
      case False
      then show ?thesis using cellD [OF mpsc_invD(5) [OF inv] q] slot_neq [OF inv q pos] sp by auto
    qed
  qed
  moreover have "counters_ok m ?s" using mpsc_invD(1) [OF inv] by (simp add: counters_ok_def)
  moreover have "cons_ok ?s (sy_cons ?s)"
    using mpsc_invD(4) [OF inv] by (cases "sy_cons s") (auto simp: head_full_def held)
  ultimately show ?thesis by (simp add: mpsc_inv_def)
qed

lemma release_inv:
  assumes inv: "mpsc_inv m s" and pc: "sy_cons s = CRelease h v"
  shows "mpsc_inv m ((set_turn s (slot_ptr m h) (turn_free (turn m h + 1))) \<lparr> sy_cons := CAdvance h v \<rparr>)" (is "mpsc_inv m ?s")
proof -
  note c = countersD [OF mpsc_invD(1) [OF inv]]
  have h: "unat h = pops s" "head_full s" "v = sy_claimed s ! pops s" using mpsc_invD(4) [OF inv] pc by simp_all
  have sp: "slot_ptr m h = slot_at m (pops s)" using slot_ptr_eq c(1) h(1) by metis
  have held: "held ?s = held s" by (simp add: held_def)
  have rel: "released s = pops s" "released ?s = pops s + 1" using pc by (simp_all add: released_def)
  have hf: "pops s < claims s" "pops s \<notin> held s" using h(2) by (auto simp: head_full_def)
  have hp: "has_pos ?s v' p" if "has_pos s v' p" "unat p \<in> held s" for v' p
    using that hf rel by (cases "unat p = pops s") (auto simp: has_pos_def)
  have "prod_ok m ?s (sy_prod ?s j)" for j
  proof -
    have "unat p \<in> held s" if "holds (sy_prod s j) = Some (v', p)" for v' p using that by (auto simp: held_iff)
    then show ?thesis using mpsc_invD(2) [OF inv, of j] hp by (cases "sy_prod s j") simp_all
  qed
  moreover have "cells_ok m ?s"
    unfolding cells_ok_def rel(2) held
  proof (intro allI impI)
    fix q assume q: "pops s + 1 \<le> q" "q < pops s + 1 + capacity m"
    show "if q < claims ?s \<and> q \<notin> held s
      then unat (rg_turn (sy_ring ?s) (slot_at m q)) = 2 * (q div capacity m) + 1 \<and>
           rg_val (sy_ring ?s) (slot_at m q) = sy_claimed ?s ! q
      else unat (rg_turn (sy_ring ?s) (slot_at m q)) = 2 * (q div capacity m)"
    proof (cases "q = pops s + capacity m")
      case True
      then show ?thesis using unat_turns(3) [OF h(1), of m] c(2,5) hf sp by simp
    next
      case False
      then have "q < pops s + capacity m" using q by simp
      then show ?thesis
        using cellD [OF mpsc_invD(5) [OF inv], of q] rel(1) q(1) sp slot_window_neq [of "pops s" q m "pops s"] by auto
    qed
  qed
  moreover have "apart ?s" using mpsc_invD(3) [OF inv] by (simp add: apart_def)
  moreover have "counters_ok m ?s" using mpsc_invD(1) [OF inv] by (simp add: counters_ok_def)
  moreover have "cons_ok ?s (sy_cons ?s)" using h held by (simp add: head_full_def)
  ultimately show ?thesis unfolding mpsc_inv_def by blast
qed

lemma advance_inv:
  assumes inv: "mpsc_inv m s" and pc: "sy_cons s = CAdvance h v"
  shows "mpsc_inv m (s \<lparr> sy_ring := (sy_ring s) \<lparr> rg_head := h + 1 \<rparr>, sy_cons := COut (Ready v),
      sy_popped := sy_popped s @ [v] \<rparr>)" (is "mpsc_inv m ?s")
proof -
  note c = countersD [OF mpsc_invD(1) [OF inv]]
  have h: "unat h = pops s" "head_full s" "v = sy_claimed s ! pops s" using mpsc_invD(4) [OF inv] pc by simp_all
  have held: "held ?s = held s" by (simp add: held_def)
  have rel: "released ?s = released s" using pc by (simp add: released_def)
  have hf: "pops s < claims s" using h(2) by (auto simp: head_full_def)
  have "prod_ok m ?s (sy_prod ?s j)" for j
    using mpsc_invD(2) [OF inv, of j] by (cases "sy_prod s j") (simp_all add: has_pos_def rel)
  moreover have "sy_popped s @ [v] = take (pops s + 1) (sy_claimed s)"
    using c(7) hf h(3) by (simp add: take_Suc_conv_app_nth)
  then have "counters_ok m ?s"
    using c hf unat_Suc_word [of h] h(1) by (simp add: counters_ok_def)
  moreover have "cells_ok m ?s" using mpsc_invD(5) [OF inv] by (simp add: cells_ok_def rel held)
  moreover have "apart ?s" using mpsc_invD(3) [OF inv] by (simp add: apart_def)
  ultimately show ?thesis by (simp add: mpsc_inv_def)
qed


section \<open>Every interleaving\<close>

lemma step_claims: "mpsc_step m s s' \<Longrightarrow> claims s \<le> claims s'"
  by (erule mpsc_step.cases) simp_all

lemma call_claims: "mpsc_call s s' \<Longrightarrow> claims s = claims s'"
  by (erule mpsc_call.cases) simp_all

lemma head_published:
  assumes inv: "mpsc_inv m s" and h: "unat h = pops s" and na: "\<nexists>h v. sy_cons s = CAdvance h v"
  shows "rg_turn (sy_ring s) (slot_ptr m h) = turn_published (turn m h) \<longleftrightarrow> head_full s"
proof -
  note c = countersD [OF mpsc_invD(1) [OF inv]]
  have rel: "released s = pops s" using na by (cases "sy_cons s") (auto simp: released_def)
  have sp: "slot_ptr m h = slot_at m (pops s)" using slot_ptr_eq c(1) h by metis
  have b: "pops s + 1 < 2 ^ 63" using c(2,6) by simp
  have "rg_turn (sy_ring s) (slot_ptr m h) = turn_published (turn m h) \<longleftrightarrow>
      unat (rg_turn (sy_ring s) (slot_at m (pops s))) = 2 * (pops s div capacity m) + 1"
    using unat_turns(2) [OF h b, of m] sp by (simp add: word_unat_eq_iff)
  also have "\<dots> \<longleftrightarrow> head_full s"
    using cellD [OF mpsc_invD(5) [OF inv], of "pops s"] rel by (cases "head_full s") (auto simp: head_full_def)
  finally show ?thesis .
qed

lemma step_inv:
  assumes "mpsc_step m s s'" "mpsc_inv m s" "claims s' + 1 < 2 ^ 63"
  shows "mpsc_inv m s'"
proof -
  note inv = assms(2) and c = countersD [OF mpsc_invD(1) [OF assms(2)]] and p = mpsc_invD(2) [OF assms(2)]
  have small: "unat t < 2 ^ 63" if "unat t \<le> claims s" for t :: "64 word" using that c(2) by linarith
  have H: "unat h < 2 ^ 63" if "unat h \<le> pops s" for h :: "64 word" using that c(2,6) by linarith
  show ?thesis
    using assms(1)
  proof (cases rule: mpsc_step.cases)
    case (p_load i v)
    then show ?thesis using inv_prod_local [OF inv, of "PLoop v (rg_tail (sy_ring s))" i] c(3) by simp
  next
    case (p_room i v t)
    have t: "unat t \<le> claims s" using p [of i] p_room by simp
    have "\<not> (unat (sy_cache s) + capacity m \<le> unat t)"
      using full_test [OF c(1) small [OF t] H [OF c(8)]] p_room by blast
    then have "unat t < pops s + capacity m" using c(8) by linarith
    then show ?thesis using inv_prod_local [OF inv, of "PCas v t" i] p_room by simp
  next
    case (p_stale i v t)
    then show ?thesis using inv_prod_local [OF inv, of "PReload v t" i] p [of i] by simp
  next
    case (p_head i v t)
    then show ?thesis using inv_prod_local [OF inv, of "PCache v t (rg_head (sy_ring s))" i] p [of i] c(4) by simp
  next
    case (p_cache i v t h)
    have th: "unat t \<le> claims s" "unat h \<le> pops s" using p [of i] p_cache by simp_all
    let ?pc = "if t - h > m_mask m then PDone False else PCas v t"
    have "unat t < pops s + capacity m" if "\<not> t - h > m_mask m"
      using full_test [OF c(1) small [OF th(1)] H [OF th(2)]] that th by linarith
    then have "prod_ok m (s \<lparr> sy_cache := h \<rparr>) ?pc" by simp
    then show ?thesis
      using inv_prod_local [OF inv_cache [OF inv th(2)], of ?pc i] p_cache by simp
  next
    case (p_claim i v t)
    then show ?thesis using claim_inv [OF inv, of i v t] assms(3) by simp
  next
    case (p_retry i v t)
    then show ?thesis using inv_prod_local [OF inv, of "PLoop v (rg_tail (sy_ring s))" i] c(3) by simp
  next
    case (p_turn i v q)
    then show ?thesis using inv_prod_local [OF inv, of "PWrite v q" i] p [of i] by simp
  next
    case (p_write i v q)
    then show ?thesis using write_inv [OF inv] by simp
  next
    case (p_publish i v q)
    then show ?thesis using publish_inv [OF inv] by simp
  next
    case c_load
    then show ?thesis using inv_cons_local [OF inv, of "CSlot (rg_head (sy_ring s))"] c(4) by simp
  next
    case (c_ready h)
    then show ?thesis
      using inv_cons_local [OF inv, of "CRead h"] mpsc_invD(4) [OF inv] head_published [OF inv, of h] by simp
  next
    case (c_unready h)
    then show ?thesis using inv_cons_local [OF inv, of "CTail h"] mpsc_invD(4) [OF inv] by simp
  next
    case (c_tail h)
    then show ?thesis using inv_cons_local [OF inv, of "COut (if h = rg_tail (sy_ring s) then Empty else HeadNotReady)"] by simp
  next
    case (c_read h)
    have h: "unat h = pops s" "head_full s" using mpsc_invD(4) [OF inv] c_read by simp_all
    have "released s = pops s" using c_read by (simp add: released_def)
    then have "rg_val (sy_ring s) (slot_ptr m h) = sy_claimed s ! pops s"
      using cellD(1) [OF mpsc_invD(5) [OF inv], of "pops s"] h slot_ptr_eq [OF c(1), of h] by (simp add: head_full_def)
    then show ?thesis using inv_cons_local [OF inv, of "CRelease h (rg_val (sy_ring s) (slot_ptr m h))"] h c_read by simp
  next
    case (c_release h v)
    then show ?thesis using release_inv [OF inv] by simp
  next
    case (c_advance h v)
    then show ?thesis using advance_inv [OF inv] by simp
  qed
qed

lemma call_inv:
  assumes "mpsc_call s s'" "mpsc_inv m s"
  shows "mpsc_inv m s'"
  using assms(1)
proof (cases rule: mpsc_call.cases)
  case (call_push i v)
  then show ?thesis using inv_prod_local [OF assms(2), of "PLoad v" i] by auto
next
  case (return_push i)
  then show ?thesis using inv_prod_local [OF assms(2), of PIdle i] by auto
next
  case call_pop
  then show ?thesis using inv_cons_local [OF assms(2), of CLoad] by auto
qed

lemma start_inv:
  assumes "mpsc_ok m" "r = ring_zero z"
  shows "mpsc_inv m (mpsc_start r)"
proof -
  have "held (mpsc_start r) = {}" "released (mpsc_start r) = 0"
    by (simp_all add: held_def mpsc_start_def released_def)
  then show ?thesis using assms
    by (simp add: mpsc_inv_def counters_ok_def apart_def cells_ok_def mpsc_start_def ring_zero_def)
qed

lemma mpsc_run_inv:
  assumes "mpsc_run m (mpsc_start (ring_zero z)) s" "mpsc_ok m" "claims s + 1 < 2 ^ 63"
  shows "mpsc_inv m s"
  using assms(1,3)
proof induction
  case refl
  show ?case by (rule start_inv [OF assms(2) HOL.refl])
next
  case (step s s')
  have "mpsc_inv m s" using step.IH step.prems step_claims [OF step.hyps(2)] by linarith
  then show ?case using step_inv [OF step.hyps(2)] step.prems by blast
next
  case (call s s')
  have "mpsc_inv m s" using call.IH call.prems call_claims [OF call.hyps(2)] by simp
  then show ?case using call_inv [OF call.hyps(2)] by blast
qed

section \<open>A call that runs alone completes\<close>

lemma set_prod_set_prod [simp]: "set_prod (set_prod s i a) i b = set_prod s i b"
  by (simp add: set_prod_def)

definition idle :: "'a producer \<Rightarrow> bool" where
  "idle pc \<longleftrightarrow> pc \<in> {PIdle, PDone True, PDone False}"

lemma idle_holds: "idle pc \<Longrightarrow> holds pc = None"
  by (auto simp: idle_def)

lemma idle_simps [simp]: "idle PIdle" "idle (PDone b)"
  by (cases b; simp add: idle_def)+

lemma solo_claim:
  assumes run: "mpsc_run m s0 s" and inv: "mpsc_inv m s" and pc: "idle (sy_prod s i)"
    and room: "claims s < pops s + capacity m"
  shows "mpsc_run m s0 (set_prod (s \<lparr> sy_cache :=
      (if unat (sy_cache s) + capacity m \<le> claims s then rg_head (sy_ring s) else sy_cache s) \<rparr>) i (PCas v (rg_tail (sy_ring s))))"
proof -
  let ?t = "rg_tail (sy_ring s)" and ?h = "rg_head (sy_ring s)"
  note c = countersD [OF mpsc_invD(1) [OF inv]]
  have full: "?t - sy_cache s > m_mask m \<longleftrightarrow> unat (sy_cache s) + capacity m \<le> claims s" "\<not> ?t - ?h > m_mask m"
    using full_test [OF c(1), of ?t "sy_cache s"] full_test [OF c(1), of ?t ?h] c(2-4,6,8) room by auto
  have "mpsc_run m s0 (set_prod s i (PLoad v))"
    by (rule mpsc_run.call [OF run mpsc_call.call_push]) (use pc in \<open>simp add: idle_def\<close>)
  then have loop: "mpsc_run m s0 (set_prod s i (PLoop v ?t))"
    using mpsc_run.step [OF _ mpsc_step.p_load [of "set_prod s i (PLoad v)" i v m]] by simp
  show ?thesis
  proof (cases "unat (sy_cache s) + capacity m \<le> claims s")
    case False
    then show ?thesis
      using mpsc_run.step [OF loop mpsc_step.p_room [of "set_prod s i (PLoop v ?t)" i v ?t m]] full by simp
  next
    case True
    have "mpsc_run m s0 (set_prod s i (PReload v ?t))"
      using mpsc_run.step [OF loop mpsc_step.p_stale [of "set_prod s i (PLoop v ?t)" i v ?t m]] full True by simp
    then have "mpsc_run m s0 (set_prod s i (PCache v ?t ?h))"
      using mpsc_run.step [OF _ mpsc_step.p_head [of "set_prod s i (PReload v ?t)" i v ?t m]] by simp
    then have "mpsc_run m s0 (set_prod ((set_prod s i (PCache v ?t ?h)) \<lparr> sy_cache := ?h \<rparr>) i (PCas v ?t))"
      using mpsc_run.step [OF _ mpsc_step.p_cache [of "set_prod s i (PCache v ?t ?h)" i v ?t ?h m]] full by simp
    then show ?thesis using True by (simp add: set_prod_def)
  qed
qed

lemma solo_push:
  assumes run: "mpsc_run m s0 s" and inv: "mpsc_inv m s" and pc: "idle (sy_prod s i)"
    and room: "claims s < pops s + capacity m" and b: "claims s + 2 < 2 ^ 63"
  obtains s' where "mpsc_run m s0 s'" "mpsc_inv m s'" "sy_prod s' i = PDone True"
    "\<And>j. j \<noteq> i \<Longrightarrow> sy_prod s' j = sy_prod s j" "sy_cons s' = sy_cons s" "sy_claimed s' = sy_claimed s @ [v]"
    "sy_popped s' = sy_popped s"
    "sy_cache s' = (if unat (sy_cache s) + capacity m \<le> claims s then rg_head (sy_ring s) else sy_cache s)"
proof -
  let ?t = "rg_tail (sy_ring s)"
  let ?c = "if unat (sy_cache s) + capacity m \<le> claims s then rg_head (sy_ring s) else sy_cache s"
  note k = countersD [OF mpsc_invD(1) [OF inv]]
  let ?s1 = "set_prod (s \<lparr> sy_cache := ?c \<rparr>) i (PCas v ?t)"
  have r1: "mpsc_run m s0 ?s1" by (rule solo_claim [OF run inv pc room])
  have i1: "mpsc_inv m ?s1"
    by (rule inv_prod_local [OF inv_cache [OF inv]]) (use k room idle_holds [OF pc] in simp_all)
  let ?s2 = "set_prod (?s1 \<lparr> sy_ring := (sy_ring ?s1) \<lparr> rg_tail := ?t + 1 \<rparr>, sy_claimed := sy_claimed ?s1 @ [v] \<rparr>) i (PClaimed v ?t)"
  have step2: "mpsc_step m ?s1 ?s2" by (rule mpsc_step.p_claim) simp_all
  have i2: "mpsc_inv m ?s2" by (rule step_inv [OF step2 i1]) (use b in simp)
  let ?s3 = "set_prod ?s2 i (PWrite v ?t)"
  have step3: "mpsc_step m ?s2 ?s3" by (rule mpsc_step.p_turn, simp) (rule claimed_free [OF i2, of i v], simp)
  have i3: "mpsc_inv m ?s3" by (rule step_inv [OF step3 i2]) (use b in simp)
  let ?s4 = "set_prod (?s3 \<lparr> sy_ring := (sy_ring ?s3) \<lparr> rg_val := (rg_val (sy_ring ?s3))(slot_ptr m ?t := v) \<rparr> \<rparr>) i (PPublish v ?t)"
  have step4: "mpsc_step m ?s3 ?s4" by (rule mpsc_step.p_write) simp
  have i4: "mpsc_inv m ?s4" by (rule step_inv [OF step4 i3]) (use b in simp)
  let ?s5 = "set_prod (set_turn ?s4 (slot_ptr m ?t) (turn_published (turn m ?t))) i (PDone True)"
  have step5: "mpsc_step m ?s4 ?s5" by (rule mpsc_step.p_publish [of _ i v]) simp
  have i5: "mpsc_inv m ?s5" by (rule step_inv [OF step5 i4]) (use b in simp)
  have "mpsc_run m s0 ?s5"
    by (rule mpsc_run.step [OF mpsc_run.step [OF mpsc_run.step [OF mpsc_run.step [OF r1 step2] step3] step4] step5])
  then show thesis using i5 by (rule that) simp_all
qed

lemma solo_pop:
  assumes run: "mpsc_run m s0 s" and inv: "mpsc_inv m s" and pc: "sy_cons s = CIdle \<or> (\<exists>r. sy_cons s = COut r)"
    and full: "head_full s"
  obtains s' where "mpsc_run m s0 s'" "mpsc_inv m s'" "sy_prod s' = sy_prod s" "sy_claimed s' = sy_claimed s"
    "sy_popped s' = sy_popped s @ [sy_claimed s ! pops s]" "sy_cons s' = COut (Ready (sy_claimed s ! pops s))"
    "sy_cache s' = sy_cache s"
proof -
  note k = countersD [OF mpsc_invD(1) [OF inv]]
  let ?h = "rg_head (sy_ring s)"
  let ?s1 = "s \<lparr> sy_cons := CLoad \<rparr>"
  have c1: "mpsc_call s ?s1" by (rule mpsc_call.call_pop [OF pc])
  have i1: "mpsc_inv m ?s1" by (rule call_inv [OF c1 inv])
  let ?s2 = "?s1 \<lparr> sy_cons := CSlot (rg_head (sy_ring ?s1)) \<rparr>"
  have t2: "mpsc_step m ?s1 ?s2" by (rule mpsc_step.c_load) simp
  have i2: "mpsc_inv m ?s2" by (rule step_inv [OF t2 i1]) (use k in simp)
  have f2: "head_full ?s2" using full by (simp add: head_full_def held_def)
  let ?s3 = "?s2 \<lparr> sy_cons := CRead ?h \<rparr>"
  have t3: "mpsc_step m ?s2 ?s3"
    by (rule mpsc_step.c_ready, simp) (use head_published [OF i2, of ?h] f2 k(4) in simp)
  have i3: "mpsc_inv m ?s3" by (rule step_inv [OF t3 i2]) (use k in simp)
  let ?s4 = "?s3 \<lparr> sy_cons := CRelease ?h (rg_val (sy_ring ?s3) (slot_ptr m ?h)) \<rparr>"
  have t4: "mpsc_step m ?s3 ?s4" by (rule mpsc_step.c_read) simp
  have i4: "mpsc_inv m ?s4" by (rule step_inv [OF t4 i3]) (use k in simp)
  have v: "rg_val (sy_ring ?s3) (slot_ptr m ?h) = sy_claimed s ! pops s" using mpsc_invD(4) [OF i4] by simp
  let ?v = "sy_claimed s ! pops s"
  let ?s5 = "(set_turn ?s4 (slot_ptr m ?h) (turn_free (turn m ?h + 1))) \<lparr> sy_cons := CAdvance ?h ?v \<rparr>"
  have t5: "mpsc_step m ?s4 ?s5" by (rule mpsc_step.c_release) (use v in simp)
  have i5: "mpsc_inv m ?s5" by (rule step_inv [OF t5 i4]) (use k in simp)
  let ?s6 = "?s5 \<lparr> sy_ring := (sy_ring ?s5) \<lparr> rg_head := ?h + 1 \<rparr>, sy_cons := COut (Ready ?v),
      sy_popped := sy_popped ?s5 @ [?v] \<rparr>"
  have t6: "mpsc_step m ?s5 ?s6" by (rule mpsc_step.c_advance) simp
  have i6: "mpsc_inv m ?s6" by (rule step_inv [OF t6 i5]) (use k in simp)
  have "mpsc_run m s0 ?s6"
    by (rule mpsc_run.step [OF mpsc_run.step [OF mpsc_run.step [OF mpsc_run.step [OF mpsc_run.step
      [OF mpsc_run.call [OF run c1] t2] t3] t4] t5] t6])
  then show thesis using i6 by (rule that) simp_all
qed

section \<open>Properties\<close>

definition mpsc_reach :: "nat \<Rightarrow> nat \<Rightarrow> 'a \<Rightarrow> nat \<Rightarrow> nat \<Rightarrow> mpsc \<Rightarrow> 'a mpsc_sys \<Rightarrow> bool" where
  "mpsc_reach payload align z base len m s \<longleftrightarrow> len \<le> usize_max \<and> claims s + 1 < 2 ^ 63 \<and>
     (\<exists>r. mpsc_new payload align z base len = Inr (m, r) \<and> mpsc_run m (mpsc_start r) s)"

lemma mpsc_reachD:
  assumes "mpsc_reach payload align z base len m s"
  shows "mpsc_inv m s" "capacity m = mpsc_cap payload len"
proof -
  obtain r where r: "mpsc_new payload align z base len = Inr (m, r)" "mpsc_run m (mpsc_start r) s"
    and b: "len \<le> usize_max" "claims s + 1 < 2 ^ 63" using assms by (auto simp: mpsc_reach_def)
  note n = mpsc_newD [OF r(1) b(1)]
  show "mpsc_inv m s" using mpsc_run_inv [OF _ n(1) b(2)] r(2) n(2) by blast
  show "capacity m = mpsc_cap payload len" by (rule n(3))
qed

lemma quiet_ring:
  assumes inv: "mpsc_inv m s" and q: "\<And>i. holds (sy_prod s i) = None" "\<nexists>h v. sy_cons s = CAdvance h v"
  shows "ring_at m (sy_ring s) (pops s) (drop (pops s) (sy_claimed s))"
proof -
  note c = countersD [OF mpsc_invD(1) [OF inv]]
  have held: "held s = {}" using q(1) by (simp add: held_def)
  have rel: "released s = pops s" using q(2) by (cases "sy_cons s") (auto simp: released_def)
  have "rg_val (sy_ring s) (slot_at m (pops s + i)) = sy_claimed s ! (pops s + i)" if "i < claims s - pops s" for i
    using cellD(1) [OF mpsc_invD(5) [OF inv], of "pops s + i"] that c(5) by (simp add: rel held)
  then show ?thesis
    using c cellD [OF mpsc_invD(5) [OF inv]] by (auto simp: ring_at_def rel held)
qed

text \<open>C26. Any number of producers and one consumer, interleaved at every shared access: the consumer gets
  the values in the order their positions were claimed, none lost, none twice, at most the capacity
  is in flight, and when nobody is inside a call the ring holds exactly what was claimed and not yet
  popped.\<close>

theorem mpsc_concurrent_fifo:
  assumes "mpsc_reach payload align z base len m s"
  shows "sy_claimed s = sy_popped s @ drop (pops s) (sy_claimed s) \<and>
    claims s \<le> pops s + mpsc_cap payload len \<and> mpsc_length (sy_ring s) = claims s - pops s \<and>
    ((\<forall>i. idle (sy_prod s i)) \<and> (sy_cons s = CIdle \<or> (\<exists>r. sy_cons s = COut r)) \<longrightarrow>
       ring_at m (sy_ring s) (pops s) (drop (pops s) (sy_claimed s)))"
proof -
  note r = mpsc_reachD [OF assms]
  note c = countersD [OF mpsc_invD(1) [OF r(1)]]
  have "sy_claimed s = sy_popped s @ drop (pops s) (sy_claimed s)" using c(7) append_take_drop_id by metis
  moreover have "mpsc_length (sy_ring s) = claims s - pops s"
    using c(3,4,6) by (simp add: mpsc_length_def unat_sub word_le_nat_alt)
  moreover have "ring_at m (sy_ring s) (pops s) (drop (pops s) (sy_claimed s))"
    if "\<forall>i. idle (sy_prod s i)" "sy_cons s = CIdle \<or> (\<exists>r. sy_cons s = COut r)"
  proof (rule quiet_ring [OF r(1)])
    show "holds (sy_prod s i) = None" for i using idle_holds that(1) by blast
  qed (use that(2) in auto)
  ultimately show ?thesis using c(5) r(2) by simp
qed

text \<open>C27. No data race on a slot: producers inside a call own different slots, none of them the one the
  consumer is reading, and a claimed slot is already free, so the wait for the previous lap never spins.\<close>

theorem mpsc_exclusive_slots:
  assumes "mpsc_reach payload align z base len m s" "holds (sy_prod s i) = Some (v, p)"
  shows "rg_turn (sy_ring s) (slot_ptr m p) = turn_free (turn m p) \<and>
    (\<forall>j v' p'. j \<noteq> i \<and> holds (sy_prod s j) = Some (v', p') \<longrightarrow> slot_ptr m p' \<noteq> slot_ptr m p) \<and>
    (\<forall>h. sy_cons s = CRead h \<longrightarrow> slot_ptr m h \<noteq> slot_ptr m p)"
proof -
  note r = mpsc_reachD [OF assms(1)]
  note pos = prod_ok_holds [OF mpsc_invD(2) [OF r(1)] assms(2)]
  have sp: "slot_ptr m w = slot_at m (unat w)" for w
    using slot_ptr_eq countersD(1) [OF mpsc_invD(1) [OF r(1)]] by blast
  have "slot_ptr m p' \<noteq> slot_ptr m p" if "j \<noteq> i" "holds (sy_prod s j) = Some (v', p')" for j v' p'
  proof -
    have "p' \<noteq> p" using mpsc_invD(3) [OF r(1)] assms(2) that unfolding apart_def by blast
    then show ?thesis
      using slot_neq [OF r(1) _ _ pos, of "unat p'"] has_pos_window [OF r(1) prod_ok_holds [OF mpsc_invD(2) [OF r(1)] that(2)]]
      by (auto simp: sp word_unat_eq_iff)
  qed
  moreover have "slot_ptr m h \<noteq> slot_ptr m p" if "sy_cons s = CRead h" for h
  proof -
    have h: "unat h = pops s" "head_full s" using mpsc_invD(4) [OF r(1)] that by simp_all
    have "released s = pops s" using that by (simp add: released_def)
    moreover have "unat p \<in> held s" using assms(2) unfolding held_iff by blast
    ultimately show ?thesis
      using slot_neq [OF r(1) _ _ pos, of "pops s"] h by (cases "unat p = pops s") (auto simp: sp head_full_def)
  qed
  ultimately show ?thesis using claimed_free [OF r(1) assms(2)] by blast
qed


section \<open>A push refused by an empty ring\<close>

text \<open>One producer that pushes and lets the consumer pop, over and over, while another stands still after
  reading \<open>tail\<close>.\<close>

definition stalled :: "mpsc \<Rightarrow> 'a \<Rightarrow> nat \<Rightarrow> 'a mpsc_sys \<Rightarrow> bool" where
  "stalled m x n s \<longleftrightarrow> mpsc_inv m s \<and> sy_prod s 0 = PLoop x 0 \<and> (\<forall>j. j \<noteq> 0 \<longrightarrow> idle (sy_prod s j)) \<and>
     (sy_cons s = CIdle \<or> (\<exists>r. sy_cons s = COut r)) \<and> claims s = n \<and> pops s = n \<and>
     (capacity m < n \<longrightarrow> 0 < unat (sy_cache s))"

lemma stalled_round:
  assumes run: "mpsc_run m s0 s" and st: "stalled m x n s" and b: "n + 2 < 2 ^ 63"
  shows "\<exists>s'. mpsc_run m s0 s' \<and> stalled m x (Suc n) s'"
proof -
  have s: "mpsc_inv m s" "sy_prod s 0 = PLoop x 0" "\<And>j. j \<noteq> 0 \<Longrightarrow> idle (sy_prod s j)"
    "sy_cons s = CIdle \<or> (\<exists>r. sy_cons s = COut r)" "claims s = n" "pops s = n" "capacity m < n \<longrightarrow> 0 < unat (sy_cache s)"
    using st by (auto simp: stalled_def)
  note c = countersD [OF mpsc_invD(1) [OF s(1)]]
  obtain s1 where s1: "mpsc_run m s0 s1" "mpsc_inv m s1" "sy_prod s1 1 = PDone True"
    "\<And>j. j \<noteq> 1 \<Longrightarrow> sy_prod s1 j = sy_prod s j" "sy_cons s1 = sy_cons s" "sy_claimed s1 = sy_claimed s @ [x]"
    "sy_popped s1 = sy_popped s"
    "sy_cache s1 = (if unat (sy_cache s) + capacity m \<le> claims s then rg_head (sy_ring s) else sy_cache s)"
    using solo_push [OF run s(1) s(3), of 1 x] s(5,6) b by auto
  have "holds (sy_prod s1 j) = None" for j
    using s1(3) s1(4) [of j] s(2) idle_holds [OF s(3)] by (cases "j = 1"; cases "j = 0") auto
  then have "head_full s1" using s1(6,7) s(5,6) by (simp add: head_full_def held_def)
  then obtain s2 where s2: "mpsc_run m s0 s2" "mpsc_inv m s2" "sy_prod s2 = sy_prod s1" "sy_claimed s2 = sy_claimed s1"
    "sy_popped s2 = sy_popped s1 @ [sy_claimed s1 ! pops s1]" "sy_cons s2 = COut (Ready (sy_claimed s1 ! pops s1))"
    "sy_cache s2 = sy_cache s1"
    using solo_pop [OF s1(1,2)] s1(5) s(4) by metis
  have "0 < unat (sy_cache s1)" if "capacity m < Suc n"
    using that s1(8) s(5-7) c(4) capacity_pos(1) [of m]
    by (cases "unat (sy_cache s) = 0"; cases "unat (sy_cache s) + capacity m \<le> claims s") auto
  moreover have "idle (sy_prod s2 j)" if "j \<noteq> 0" for j
    using that s1(3) s1(4) [of j] s2(3) s(3) by (cases "j = 1") auto
  ultimately have "stalled m x (Suc n) s2"
    using s2 s1(3) s1(4) [of 0] s1(6,7) s(2,5,6) by (auto simp: stalled_def)
  with s2(1) show ?thesis by blast
qed

lemma stalled_rounds:
  assumes "mpsc_run m s0 s" "stalled m x 0 s" "n + 1 < 2 ^ 63"
  shows "\<exists>s'. mpsc_run m s0 s' \<and> stalled m x n s'"
  using assms(3)
proof (induction n)
  case (Suc n)
  then show ?case using stalled_round [of m s0 _ x n] by force
qed (use assms in blast)


section \<open>Witnesses on one page\<close>

lemma ex_mpsc_reach: "mpsc_reach 8 8 (0 :: nat) 0 4096 ex_mpsc (mpsc_start (ring_zero 0))"
  unfolding mpsc_reach_def using ex_mpsc_new [of 0] mpsc_run.refl
  by (intro conjI exI [of _ "ring_zero 0"]) (simp_all add: mpsc_start_def usize_max_def)

lemma ex_mpsc_claimed:
  "\<exists>s. mpsc_reach 8 8 (0 :: nat) 0 4096 ex_mpsc s \<and> (\<exists>p. holds (sy_prod s 0) = Some (5, p))"
proof -
  let ?s0 = "mpsc_start (ring_zero (0 :: nat))"
  have i: "mpsc_inv ex_mpsc ?s0" using mpsc_reachD(1) [OF ex_mpsc_reach] .
  let ?s1 = "set_prod (?s0 \<lparr> sy_cache := (if unat (sy_cache ?s0) + capacity ex_mpsc \<le> claims ?s0
    then rg_head (sy_ring ?s0) else sy_cache ?s0) \<rparr>) 0 (PCas 5 (rg_tail (sy_ring ?s0)))"
  have "mpsc_run ex_mpsc ?s0 ?s1" by (rule solo_claim [OF mpsc_run.refl i]) (simp_all add: mpsc_start_def)
  from mpsc_run.step [OF this mpsc_step.p_claim [of ?s1 0 5 "rg_tail (sy_ring ?s1)"]]
  obtain s where "mpsc_run ex_mpsc ?s0 s" "sy_prod s 0 = PClaimed 5 (rg_tail (sy_ring ?s1))" "claims s = 1"
    by (simp add: mpsc_start_def)
  then show ?thesis unfolding mpsc_reach_def using ex_mpsc_new [of 0] by (auto simp: usize_max_def intro!: exI [of _ s])
qed

theorem mpsc_concurrent_fifo_witness:
  "\<exists>s. mpsc_reach 8 8 (0 :: nat) 0 4096 ex_mpsc s \<and> claims s = 1 \<and>
     sy_claimed s = sy_popped s @ drop (pops s) (sy_claimed s) \<and> claims s \<le> pops s + 128"
proof -
  let ?s0 = "mpsc_start (ring_zero (0 :: nat))"
  note r0 = mpsc_reachD [OF ex_mpsc_reach]
  obtain s where "mpsc_run ex_mpsc ?s0 s" "sy_claimed s = sy_claimed ?s0 @ [5]"
    using solo_push [OF mpsc_run.refl r0(1), of 0 5] r0(2) ex_cap by (auto simp: mpsc_start_def)
  then have s: "mpsc_reach 8 8 (0 :: nat) 0 4096 ex_mpsc s" "claims s = 1"
    unfolding mpsc_reach_def using ex_mpsc_new [of 0] by (auto simp: usize_max_def mpsc_start_def)
  from mpsc_concurrent_fifo [OF s(1)] s ex_cap show ?thesis by auto
qed

theorem mpsc_exclusive_slots_witness:
  "\<exists>s p. mpsc_reach 8 8 (0 :: nat) 0 4096 ex_mpsc s \<and> holds (sy_prod s 0) = Some (5, p) \<and>
     rg_turn (sy_ring s) (slot_ptr ex_mpsc p) = turn_free (turn ex_mpsc p)"
proof -
  obtain s p where s: "mpsc_reach 8 8 (0 :: nat) 0 4096 ex_mpsc s" "holds (sy_prod s 0) = Some (5, p)"
    using ex_mpsc_claimed by blast
  from mpsc_exclusive_slots [OF s] s show ?thesis by blast
qed



end
