(* ===== verification/V5_Queue.thy ===== *)
theory V5_Queue
  imports Mpsc_Conc
begin

text \<open>
  The data queue of the V5 protocol (\<open>src/v5/queue.rs\<close>) and the release queue (\<open>src/v5/release_queue.rs\<close>):
  a ring behind a 64-byte header that holds the working flag of the consumer. What both
  peers share is \<open>queue_mem\<close>; what a side keeps for itself, the ring handle and the closed flag, is
  \<open>data_queue\<close>. The memory file is its size and the address it is mapped at. The second half
  interleaves the wakeup protocol with the ring: \<open>wake_up_peer\<close> and the drain loop of
  \<open>src/session/mod.rs\<close> around \<open>mpsc_step\<close>.
\<close>

section \<open>Elements\<close>

definition OP_OPEN_STREAM :: nat where "OP_OPEN_STREAM = 1"
definition OP_CLOSE_STREAM :: nat where "OP_CLOSE_STREAM = 2"
definition OP_STREAM_DATA :: nat where "OP_STREAM_DATA = 3"

record element =
  el_stream_id :: nat
  el_op :: nat
  el_unused :: "byte list"
  el_data :: "byte list"

definition element_new :: "nat \<Rightarrow> nat \<Rightarrow> element" where
  "element_new stream_id op =
     \<lparr> el_stream_id = stream_id, el_op = op, el_unused = replicate 3 0, el_data = replicate 8 0 \<rparr>"

definition element_with_offset :: "nat \<Rightarrow> nat \<Rightarrow> int \<Rightarrow> element" where
  "element_with_offset stream_id op offset =
     \<lparr> el_stream_id = stream_id, el_op = op, el_unused = replicate 3 0, el_data = le_bytes 8 (i64_bits offset) \<rparr>"

definition element_offset :: "element \<Rightarrow> int" where
  "element_offset e = i64_of (le_nat (el_data e))"

definition element_set_offset :: "element \<Rightarrow> int \<Rightarrow> element" where
  "element_set_offset e offset = e \<lparr> el_data := le_bytes 8 (i64_bits offset) \<rparr>"

text \<open>\<open>size_of::<Element>()\<close> and \<open>align_of::<Element>()\<close> of the C layout, and the all-zero element.\<close>

definition ELEMENT_SIZE :: nat where "ELEMENT_SIZE = 16"
definition ELEMENT_ALIGN :: nat where "ELEMENT_ALIGN = 4"

definition zero_element :: element where
  "zero_element = element_new 0 0"

section \<open>Sizes\<close>

definition queue_mem_size :: "nat \<Rightarrow> nat option" where
  "queue_mem_size cap = do {
     ring \<leftarrow> mpsc_mem_size ELEMENT_SIZE cap;
     checked_add QUEUE_HEADER_SIZE ring
   }"

definition queue_cap :: "nat \<Rightarrow> nat" where
  "queue_cap mapping_len =
     (if mapping_len < QUEUE_HEADER_SIZE then 0
      else let ring_len = mapping_len - QUEUE_HEADER_SIZE in
        if ring_len mod PAGE_SIZE \<noteq> 0 then 0 else mpsc_cap ELEMENT_SIZE ring_len)"

definition validate_queue_size :: "nat \<Rightarrow> bool" where
  "validate_queue_size sz \<longleftrightarrow>
     \<not> sz < QUEUE_HEADER_SIZE + PAGE_SIZE \<and> (sz - QUEUE_HEADER_SIZE) mod PAGE_SIZE = 0"

section \<open>The queue\<close>

record queue_mem =
  qm_flag :: nat
  qm_ring :: "element ring"

record data_queue =
  dq_size :: nat
  dq_ring :: mpsc
  dq_closed :: bool

datatype queue_error = InvalidQueueSize nat | QueueTooSmall nat | RingLayout layout_error | QueueClosed

definition data_queue_create :: "nat \<Rightarrow> nat \<Rightarrow> (queue_error + data_queue \<times> queue_mem) option" where
  "data_queue_create base cap = do {
     sz \<leftarrow> queue_mem_size cap;
     Some (case mpsc_new ELEMENT_SIZE ELEMENT_ALIGN zero_element (base + QUEUE_HEADER_SIZE) (sz - QUEUE_HEADER_SIZE) of
         Inl e \<Rightarrow> Inl (RingLayout e)
       | Inr (m, r) \<Rightarrow> Inr (\<lparr> dq_size = sz, dq_ring = m, dq_closed = False \<rparr>, \<lparr> qm_flag = 0, qm_ring = r \<rparr>))
   }"

definition data_queue_map :: "nat \<Rightarrow> nat \<Rightarrow> queue_error + data_queue" where
  "data_queue_map base sz =
     (if \<not> validate_queue_size sz then Inl (InvalidQueueSize sz)
      else if queue_cap sz = 0 then Inl (QueueTooSmall sz)
      else case mpsc_map ELEMENT_SIZE ELEMENT_ALIGN (base + QUEUE_HEADER_SIZE) (sz - QUEUE_HEADER_SIZE) of
        Inl e \<Rightarrow> Inl (RingLayout e)
      | Inr m \<Rightarrow> Inr \<lparr> dq_size = sz, dq_ring = m, dq_closed = False \<rparr>)"

definition dq_push :: "data_queue \<Rightarrow> queue_mem \<Rightarrow> element \<Rightarrow> (data_queue \<times> queue_mem \<times> (push_error + unit)) option" where
  "dq_push q mem e =
     (if dq_closed q then Some (q, mem, Inl Closed)
      else do {
        (m, r, ok) \<leftarrow> mpsc_try_push (dq_ring q) (qm_ring mem) e;
        Some (q \<lparr> dq_ring := m \<rparr>, mem \<lparr> qm_ring := r \<rparr>, if ok then Inr () else Inl Full)
      })"

definition dq_pop :: "data_queue \<Rightarrow> queue_mem \<Rightarrow> (queue_mem \<times> (queue_error + element option)) option" where
  "dq_pop q mem =
     (if dq_closed q then Some (mem, Inl QueueClosed)
      else do {
        (r, x) \<leftarrow> mpsc_pop (dq_ring q) (qm_ring mem);
        Some (mem \<lparr> qm_ring := r \<rparr>, Inr x)
      })"

definition dq_try_pop :: "data_queue \<Rightarrow> queue_mem \<Rightarrow> queue_mem \<times> (queue_error + element pop_result)" where
  "dq_try_pop q mem =
     (if dq_closed q then (mem, Inl QueueClosed)
      else let (r, x) = mpsc_try_pop (dq_ring q) (qm_ring mem) in (mem \<lparr> qm_ring := r \<rparr>, Inr x))"

definition consumer_working :: "queue_mem \<Rightarrow> bool" where
  "consumer_working mem \<longleftrightarrow> qm_flag mem \<noteq> 0"

definition mark_working :: "data_queue \<Rightarrow> queue_mem \<Rightarrow> queue_mem \<times> bool" where
  "mark_working q mem =
     (if dq_closed q then (mem, False)
      else if qm_flag mem = 0 then (mem \<lparr> qm_flag := 1 \<rparr>, True)
      else (mem, False))"

definition mark_not_working :: "data_queue \<Rightarrow> queue_mem \<Rightarrow> queue_mem \<times> bool" where
  "mark_not_working q mem =
     (if dq_closed q then (mem, True)
      else let mem' = mem \<lparr> qm_flag := 0 \<rparr> in
        if \<not> head_ready (dq_ring q) (qm_ring mem') then (mem', True)
        else (mem' \<lparr> qm_flag := 1 \<rparr>, False))"

definition dq_length :: "queue_mem \<Rightarrow> nat" where
  "dq_length mem = mpsc_length (qm_ring mem)"

definition dq_cap :: "data_queue \<Rightarrow> nat" where
  "dq_cap q = mpsc_capacity (dq_ring q)"

definition dq_close :: "data_queue \<Rightarrow> data_queue" where
  "dq_close q = q \<lparr> dq_closed := True \<rparr>"

text \<open>The two roles.\<close>

definition send_queue_new :: "nat \<Rightarrow> nat \<Rightarrow> (queue_error + data_queue \<times> queue_mem) option" where
  "send_queue_new base cap = data_queue_create base cap"

definition send_put :: "data_queue \<Rightarrow> queue_mem \<Rightarrow> element \<Rightarrow> (data_queue \<times> queue_mem \<times> (push_error + unit)) option" where
  "send_put q mem e = (if dq_closed q then Some (q, mem, Inl Closed) else dq_push q mem e)"

definition claim_peer_consumer :: "data_queue \<Rightarrow> queue_mem \<Rightarrow> queue_mem \<times> bool" where
  "claim_peer_consumer q mem = mark_working q mem"

definition recv_queue_map :: "nat \<Rightarrow> nat \<Rightarrow> queue_error + data_queue" where
  "recv_queue_map base sz = data_queue_map base sz"

definition recv_try_pop :: "data_queue \<Rightarrow> queue_mem \<Rightarrow> queue_mem \<times> (queue_error + element pop_result)" where
  "recv_try_pop q mem = dq_try_pop q mem"

definition recv_pop :: "data_queue \<Rightarrow> queue_mem \<Rightarrow> (queue_mem \<times> (queue_error + element option)) option" where
  "recv_pop q mem = dq_pop q mem"

definition finish_draining :: "data_queue \<Rightarrow> queue_mem \<Rightarrow> queue_mem \<times> bool" where
  "finish_draining q mem = mark_not_working q mem"

section \<open>The release queue\<close>

definition RQ_SIZE :: nat where "RQ_SIZE = 128 * PAGE_SIZE"

text \<open>A ring of \<open>i64\<close> offsets over the first \<open>RQ_SIZE\<close> bytes of a mapping at \<open>base\<close> of \<open>len\<close> bytes.\<close>

definition new_rq :: "nat \<Rightarrow> nat \<Rightarrow> layout_error + mpsc \<times> int ring" where
  "new_rq base len = (if len < RQ_SIZE then Inl (TooSmall len) else mpsc_new 8 8 0 base RQ_SIZE)"

definition map_rq :: "nat \<Rightarrow> nat \<Rightarrow> layout_error + mpsc" where
  "map_rq base len = (if len < RQ_SIZE then Inl (TooSmall len) else mpsc_map 8 8 base RQ_SIZE)"

section \<open>Wakeups\<close>

datatype waker = WIdle | WSignal

datatype drainer = DPop | DClear | DCheck | DTurn "64 word" | DSet | DSleep

text \<open>\<open>qs_events\<close> counts wakeups written and not yet taken by the consumer.\<close>

record 'a queue_sys = "'a mpsc_sys" +
  qs_flag :: nat
  qs_events :: nat
  qs_wake :: "nat \<Rightarrow> waker"
  qs_drain :: drainer

inductive queue_step :: "mpsc \<Rightarrow> 'a queue_sys \<Rightarrow> 'a queue_sys \<Rightarrow> bool" for m where
  ring: "mpsc_step m s s' \<Longrightarrow> queue_step m s s'"
| put: "sy_prod s i = PIdle \<Longrightarrow> qs_wake s i = WIdle \<Longrightarrow> queue_step m s (set_prod s i (PLoad v))"
| put_full: "sy_prod s i = PDone False \<Longrightarrow> queue_step m s (set_prod s i PIdle)"
| claim_won: "sy_prod s i = PDone True \<Longrightarrow> qs_flag s = 0 \<Longrightarrow>
    queue_step m s (set_prod (s \<lparr> qs_flag := 1, qs_wake := (qs_wake s)(i := WSignal) \<rparr>) i PIdle)"
| claim_lost: "sy_prod s i = PDone True \<Longrightarrow> qs_flag s \<noteq> 0 \<Longrightarrow> queue_step m s (set_prod s i PIdle)"
| signal: "qs_wake s i = WSignal \<Longrightarrow>
    queue_step m s (s \<lparr> qs_events := qs_events s + 1, qs_wake := (qs_wake s)(i := WIdle) \<rparr>)"
| pop: "qs_drain s = DPop \<Longrightarrow> sy_cons s = CIdle \<or> sy_cons s = COut (Ready v) \<or> sy_cons s = COut HeadNotReady \<Longrightarrow>
    queue_step m s (s \<lparr> sy_cons := CLoad \<rparr>)"
| drained: "qs_drain s = DPop \<Longrightarrow> sy_cons s = COut Empty \<or> sy_cons s = COut HeadNotReady \<Longrightarrow>
    queue_step m s (s \<lparr> sy_cons := CIdle, qs_drain := DClear \<rparr>)"
| clear: "qs_drain s = DClear \<Longrightarrow> queue_step m s (s \<lparr> qs_flag := 0, qs_drain := DCheck \<rparr>)"
| check_head: "qs_drain s = DCheck \<Longrightarrow> queue_step m s (s \<lparr> qs_drain := DTurn (rg_head (sy_ring s)) \<rparr>)"
| check_turn: "qs_drain s = DTurn h \<Longrightarrow>
    queue_step m s (s \<lparr> qs_drain := (if rg_turn (sy_ring s) (slot_ptr m h) = turn_published (turn m h) then DSet else DSleep) \<rparr>)"
| again: "qs_drain s = DSet \<Longrightarrow> queue_step m s (s \<lparr> qs_flag := 1, qs_drain := DPop \<rparr>)"
| wake: "qs_drain s = DSleep \<Longrightarrow> 0 < qs_events s \<Longrightarrow> queue_step m s (s \<lparr> qs_events := 0, qs_drain := DPop \<rparr>)"
| barrier: "qs_drain s = DSleep \<Longrightarrow> queue_step m s (s \<lparr> qs_drain := DPop \<rparr>)"

definition queue_start :: "'a ring \<Rightarrow> 'a queue_sys" where
  "queue_start r = \<lparr> sy_ring = r, sy_cache = 0, sy_prod = (\<lambda>_. PIdle), sy_cons = CIdle, sy_claimed = [], sy_popped = [],
     qs_flag = 0, qs_events = 0, qs_wake = (\<lambda>_. WIdle), qs_drain = DSleep \<rparr>"

inductive queue_run :: "mpsc \<Rightarrow> 'a queue_sys \<Rightarrow> 'a queue_sys \<Rightarrow> bool" for m s0 where
  refl: "queue_run m s0 s0"
| step: "queue_run m s0 s \<Longrightarrow> queue_step m s s' \<Longrightarrow> queue_run m s0 s'"

section \<open>No wakeup is lost\<close>

text \<open>While the consumer is on its way to sleep or asleep, a set flag comes with a wakeup that is written or
  about to be; and a published head that nobody will see is followed by a claim of the flag.\<close>

definition wakeup_pending :: "'a queue_sys \<Rightarrow> bool" where
  "wakeup_pending s \<longleftrightarrow> 0 < qs_events s \<or> (\<exists>i. qs_wake s i = WSignal)"

definition claim_due :: "('a, 'm) mpsc_sys_scheme \<Rightarrow> bool" where
  "claim_due s \<longleftrightarrow> (\<exists>i. sy_prod s i = PDone True)"

definition flag_ok :: "'a queue_sys \<Rightarrow> bool" where
  "flag_ok s \<longleftrightarrow> (qs_flag s \<noteq> 0 \<longrightarrow> qs_drain s = DPop \<or> qs_drain s = DClear \<or> wakeup_pending s)"

definition sleep_ok :: "'a queue_sys \<Rightarrow> bool" where
  "sleep_ok s \<longleftrightarrow> (qs_drain s = DSleep \<and> head_full s \<longrightarrow> qs_flag s \<noteq> 0 \<or> claim_due s)"

definition drain_ok :: "'a queue_sys \<Rightarrow> bool" where
  "drain_ok s \<longleftrightarrow> (qs_drain s \<noteq> DPop \<longrightarrow> sy_cons s = CIdle) \<and> (\<forall>h. qs_drain s = DTurn h \<longrightarrow> unat h = pops s)"

definition queue_inv :: "mpsc \<Rightarrow> 'a queue_sys \<Rightarrow> bool" where
  "queue_inv m s \<longleftrightarrow> mpsc_inv m s \<and> flag_ok s \<and> sleep_ok s \<and> drain_ok s"

lemma mpsc_step_frame:
  assumes "mpsc_step m s s'"
  shows "qs_flag s' = qs_flag s" "qs_events s' = qs_events s" "qs_wake s' = qs_wake s" "qs_drain s' = qs_drain s"
    "sy_cons s = CIdle \<Longrightarrow> sy_cons s' = CIdle \<and> sy_popped s' = sy_popped s"
    "sy_prod s i = PDone True \<Longrightarrow> sy_prod s' i = PDone True"
  using assms by (cases rule: mpsc_step.cases; auto simp: set_prod_def set_turn_def)+

lemma held_set_prod:
  assumes "holds pc = holds (sy_prod s i)"
  shows "held (set_prod s i pc) = held s"
proof -
  have "holds (sy_prod (set_prod s i pc) j) = holds (sy_prod s j)" for j using assms by simp
  then show ?thesis unfolding held_def by simp
qed

lemma held_frame [simp]:
  "held (s \<lparr> sy_ring := r \<rparr>) = held s" "held (s \<lparr> sy_cache := h \<rparr>) = held s" "held (s \<lparr> sy_cons := c \<rparr>) = held s"
  "held (s \<lparr> sy_claimed := l \<rparr>) = held s" "held (s \<lparr> sy_popped := l \<rparr>) = held s" "held (set_turn s p w) = held s"
  by (simp_all add: held_def)

text \<open>While the consumer rests, only a publication fills the head, and its producer then goes for the flag.\<close>

lemma mpsc_step_head:
  assumes step: "mpsc_step m s s'" and inv: "mpsc_inv m s" and c: "sy_cons s = CIdle"
    and full: "head_full s'" "\<not> head_full s"
  shows "claim_due s'"
  using step
proof (cases rule: mpsc_step.cases)
  case (p_publish i v p)
  then show ?thesis unfolding claim_due_def by (intro exI [of _ i]) simp
next
  case (p_claim i v t)
  have "held s' = insert (unat t) (held s)" by (rule held_claim) (use p_claim in simp_all)
  then show ?thesis using full p_claim countersD(3) [OF mpsc_invD(1) [OF inv]] by (auto simp: head_full_def)
qed (use full c in \<open>auto simp: head_full_def held_set_prod split: if_splits\<close>)

lemma ring_step_inv:
  assumes inv: "queue_inv m s" and step: "mpsc_step m s s'" and b: "claims s' + 1 < 2 ^ 63"
  shows "queue_inv m s'"
proof -
  note f = mpsc_step_frame [OF step]
  have i: "mpsc_inv m s" "flag_ok s" "sleep_ok s" "drain_ok s" using inv by (auto simp: queue_inv_def)
  have "mpsc_inv m s'" by (rule step_inv [OF step i(1) b])
  moreover have "flag_ok s'" using i(2) f(1-4) by (simp add: flag_ok_def wakeup_pending_def)
  moreover have "drain_ok s'" using i(4) f(4,5) by (auto simp: drain_ok_def)
  moreover have "sleep_ok s'"
    unfolding sleep_ok_def
  proof
    assume a: "qs_drain s' = DSleep \<and> head_full s'"
    then have c: "sy_cons s = CIdle" using i(4) f(4) by (simp add: drain_ok_def)
    show "qs_flag s' \<noteq> 0 \<or> claim_due s'"
    proof (cases "head_full s")
      case True
      then show ?thesis using i(3) a f(1,4,6) unfolding sleep_ok_def claim_due_def by auto
    next
      case False
      then show ?thesis using mpsc_step_head [OF step i(1) c] a by blast
    qed
  qed
  ultimately show ?thesis by (simp add: queue_inv_def)
qed

lemma inv_more:
  fixes s :: "('a, 'b) queue_sys_scheme"
  shows "mpsc_inv m (s \<lparr> qs_flag := f \<rparr>) = mpsc_inv m s" "mpsc_inv m (s \<lparr> qs_events := e \<rparr>) = mpsc_inv m s"
  "mpsc_inv m (s \<lparr> qs_wake := w \<rparr>) = mpsc_inv m s" "mpsc_inv m (s \<lparr> qs_drain := d \<rparr>) = mpsc_inv m s"
proof -
  have *: "mpsc_inv m s' = mpsc_inv m s" if e: "sy_ring s' = sy_ring s" "sy_cache s' = sy_cache s" "sy_prod s' = sy_prod s"
    "sy_cons s' = sy_cons s" "sy_claimed s' = sy_claimed s" "sy_popped s' = sy_popped s" for s' s :: "('a, 'b) queue_sys_scheme"
  proof -
    have held: "held s' = held s" and rel: "released s' = released s" using e by (simp_all add: held_def released_def)
    have p: "prod_ok m s' c = prod_ok m s c" for c using e rel by (cases c) (simp_all add: has_pos_def)
    have c: "cons_ok s' c = cons_ok s c" for c using e held by (cases c) (simp_all add: head_full_def)
    show ?thesis by (simp add: mpsc_inv_def counters_ok_def apart_def cells_ok_def p c e held rel)
  qed
  show "mpsc_inv m (s \<lparr> qs_flag := f \<rparr>) = mpsc_inv m s" "mpsc_inv m (s \<lparr> qs_events := e \<rparr>) = mpsc_inv m s"
    "mpsc_inv m (s \<lparr> qs_wake := w \<rparr>) = mpsc_inv m s" "mpsc_inv m (s \<lparr> qs_drain := d \<rparr>) = mpsc_inv m s"
    using * [of "s \<lparr> qs_flag := f \<rparr>" s] * [of "s \<lparr> qs_events := e \<rparr>" s] * [of "s \<lparr> qs_wake := w \<rparr>" s]
      * [of "s \<lparr> qs_drain := d \<rparr>" s] by simp_all
qed

lemma head_full_frame [simp]:
  "head_full (s \<lparr> qs_flag := f \<rparr>) = head_full s" "head_full (s \<lparr> qs_events := e \<rparr>) = head_full s"
  "head_full (s \<lparr> qs_wake := w \<rparr>) = head_full s" "head_full (s \<lparr> qs_drain := d \<rparr>) = head_full s"
  "head_full (s \<lparr> sy_cons := c \<rparr>) = head_full s"
  by (simp_all add: head_full_def held_def)

lemma set_prod_more [simp]:
  "qs_flag (set_prod s i pc) = qs_flag s" "qs_events (set_prod s i pc) = qs_events s"
  "qs_wake (set_prod s i pc) = qs_wake s" "qs_drain (set_prod s i pc) = qs_drain s"
  by (simp_all add: set_prod_def)

lemma claim_due_frame [simp]:
  "claim_due (s \<lparr> qs_flag := f \<rparr>) = claim_due s" "claim_due (s \<lparr> qs_events := e \<rparr>) = claim_due s"
  "claim_due (s \<lparr> qs_wake := w \<rparr>) = claim_due s" "claim_due (s \<lparr> qs_drain := d \<rparr>) = claim_due s"
  "claim_due (s \<lparr> sy_cons := c \<rparr>) = claim_due s"
  by (simp_all add: claim_due_def)

lemma claim_due_prod:
  "sy_prod s i \<noteq> PDone True \<Longrightarrow> pc \<noteq> PDone True \<Longrightarrow> claim_due (set_prod s i pc) = claim_due s"
  unfolding claim_due_def by (metis fun_upd_apply set_prod_simps(6))

lemma head_full_prod: "holds pc = holds (sy_prod s i) \<Longrightarrow> head_full (set_prod s i pc) = head_full s"
  by (simp add: head_full_def held_set_prod)

lemma queue_step_inv:
  assumes step: "queue_step m s s'" and inv: "queue_inv m s" and b: "claims s' + 1 < 2 ^ 63"
  shows "queue_inv m s'"
proof -
  have i: "mpsc_inv m s" "flag_ok s" "sleep_ok s" "drain_ok s" using inv by (auto simp: queue_inv_def)
  note defs = queue_inv_def flag_ok_def sleep_ok_def drain_ok_def wakeup_pending_def
  show ?thesis
    using step
  proof (cases rule: queue_step.cases)
    case ring
    then show ?thesis using ring_step_inv [OF inv] b by blast
  next
    case (put i v)
    then show ?thesis using i inv_prod_local [OF i(1), of "PLoad v" i] head_full_prod [of "PLoad v" s i]
        claim_due_prod [of s i "PLoad v"] by (auto simp: defs)
  next
    case (put_full i)
    then show ?thesis using i inv_prod_local [OF i(1), of PIdle i] head_full_prod [of PIdle s i]
        claim_due_prod [of s i PIdle] by (auto simp: defs)
  next
    case (claim_won i)
    have "mpsc_inv m (s \<lparr> qs_flag := 1, qs_wake := (qs_wake s)(i := WSignal) \<rparr>)" using i(1) by (simp add: inv_more)
    from inv_prod_local [OF this, of PIdle i] claim_won i show ?thesis by (auto simp: defs)
  next
    case (claim_lost i)
    then show ?thesis using i inv_prod_local [OF i(1), of PIdle i] by (auto simp: defs)
  next
    case (signal i)
    then show ?thesis using i by (auto simp: defs inv_more)
  next
    case (pop v)
    then show ?thesis using i inv_cons_local [OF i(1), of CLoad] by (auto simp: defs)
  next
    case drained
    have "mpsc_inv m (s \<lparr> sy_cons := CIdle \<rparr>)" by (rule inv_cons_local [OF i(1)]) (use drained in auto)
    then show ?thesis using i drained by (auto simp: defs inv_more)
  next
    case clear
    then show ?thesis using i by (auto simp: defs inv_more)
  next
    case check_head
    then show ?thesis using i countersD(4) [OF mpsc_invD(1) [OF i(1)]] by (auto simp: defs inv_more)
  next
    case (check_turn h)
    have "rg_turn (sy_ring s) (slot_ptr m h) = turn_published (turn m h) \<longleftrightarrow> head_full s"
      by (rule head_published [OF i(1)]) (use i(4) check_turn in \<open>auto simp: drain_ok_def\<close>)
    then show ?thesis using i check_turn by (auto simp: defs inv_more)
  next
    case again
    then show ?thesis using i by (auto simp: defs inv_more)
  next
    case wake
    then show ?thesis using i by (auto simp: defs inv_more)
  next
    case barrier
    then show ?thesis using i by (auto simp: defs inv_more)
  qed
qed

lemma queue_step_claims: "queue_step m s s' \<Longrightarrow> claims s \<le> claims s'"
  by (erule queue_step.cases) (auto dest: step_claims)

lemma queue_start_inv:
  assumes "mpsc_ok m" "r = ring_zero z"
  shows "queue_inv m (queue_start r)"
proof -
  have h: "held (queue_start r) = {}" "released (queue_start r) = 0"
    by (simp_all add: held_def queue_start_def released_def)
  then have "mpsc_inv m (queue_start r)" using assms
    by (simp add: mpsc_inv_def counters_ok_def apart_def cells_ok_def queue_start_def ring_zero_def)
  then show ?thesis
    by (simp add: queue_inv_def flag_ok_def sleep_ok_def drain_ok_def head_full_def queue_start_def)
qed

lemma queue_run_inv:
  assumes "queue_run m s0 s" "queue_inv m s0" "claims s + 1 < 2 ^ 63"
  shows "queue_inv m s"
  using assms(1,3)
proof induction
  case refl
  show ?case by (rule assms(2))
next
  case (step s s')
  have "queue_inv m s" using step.IH step.prems queue_step_claims [OF step.hyps(2)] by linarith
  then show ?case using queue_step_inv [OF step.hyps(2)] step.prems by blast
qed

text \<open>C30. No element waits behind a sleeping consumer: whatever the interleaving of pushes, flag claims,
  eventfd writes and drains, when the consumer sleeps while the head element is published, a wakeup is
  under way or a producer is still about to claim the flag; and once every producer has returned and
  no wakeup is left, everything pushed has been popped.\<close>

theorem queue_no_lost_wakeup:
  assumes "mpsc_new payload align z base len = Inr (m, r)" "len \<le> usize_max"
    and "queue_run m (queue_start r) s" "claims s + 1 < 2 ^ 63" "qs_drain s = DSleep"
  shows "(head_ready m (sy_ring s) \<longrightarrow> wakeup_pending s \<or> claim_due s) \<and>
    (qs_events s = 0 \<and> (\<forall>i. sy_prod s i = PIdle \<and> qs_wake s i = WIdle) \<longrightarrow> sy_popped s = sy_claimed s)"
proof -
  note n = mpsc_newD [OF assms(1,2)]
  have inv: "queue_inv m s" by (rule queue_run_inv [OF assms(3) queue_start_inv [OF n(1,2)] assms(4)])
  have i: "mpsc_inv m s" "flag_ok s" "sleep_ok s" "drain_ok s" using inv by (auto simp: queue_inv_def)
  note c = countersD [OF mpsc_invD(1) [OF i(1)]]
  have cons: "sy_cons s = CIdle" using i(4) assms(5) by (simp add: drain_ok_def)
  have "head_ready m (sy_ring s) \<longleftrightarrow> head_full s"
    using head_published [OF i(1), of "rg_head (sy_ring s)"] c(4) cons by (simp add: head_ready_def Let_def)
  moreover have w: "head_full s \<Longrightarrow> wakeup_pending s \<or> claim_due s"
    using i(2,3) assms(5) by (auto simp: flag_ok_def sleep_ok_def)
  moreover have "sy_popped s = sy_claimed s" if q: "qs_events s = 0" "\<And>i. sy_prod s i = PIdle" "\<And>i. qs_wake s i = WIdle"
  proof -
    have "\<not> head_full s" using w q by (auto simp: wakeup_pending_def claim_due_def)
    then have "claims s \<le> pops s" using q(2) by (simp add: head_full_def held_def)
    then show ?thesis using c(7) by simp
  qed
  ultimately show ?thesis by blast
qed

section \<open>Sizes agree\<close>

lemma next_power_of_two_pos [simp]: "0 < next_power_of_two n"
  by (simp add: next_power_of_two_def)

lemma power_le_ilog2:
  assumes "2 ^ k \<le> n"
  shows "(2 :: nat) ^ k \<le> 2 ^ ilog2 n"
proof -
  have "(2 :: nat) ^ k < 2 ^ Suc (ilog2 n)" using assms ilog2_bounds(2) [of n] by linarith
  then have "k \<le> ilog2 n" by (simp del: power_Suc)
  then show ?thesis by (simp add: power_increasing)
qed

lemma mpsc_mem_size_holds:
  assumes "mpsc_mem_size payload cap = Some len"
  shows "len mod 4096 = 0" "len \<le> usize_max" "4096 \<le> len" "cap \<le> mpsc_cap payload len"
proof -
  let ?z = "128 + next_power_of_two cap * slot_size payload"
  have l: "len = (?z + 4096 - 1) div 4096 * 4096" "?z + 4096 \<le> usize_max"
    using assms by (auto simp: mpsc_mem_size_def bind_eq_Some_conv MPSC_HEADER_SIZE_def PAGE_SIZE_def split: if_splits)
  show "len mod 4096 = 0" using l(1) by simp
  show "len \<le> usize_max" using l div_times_less_eq_dividend [of "?z + 4096 - 1" 4096] by linarith
  have "?z + 4096 - 1 < len + 4096" using l(1) mod_less_divisor [of 4096 "?z + 4096 - 1"] div_mult_mod_eq [of "?z + 4096 - 1" 4096]
    by linarith
  then have ge: "?z \<le> len" by linarith
  then show "4096 \<le> len" using l(1) by (cases "(?z + 4096 - 1) div 4096") auto
  have pos: "0 < slot_size payload" using slot_size_ge [of payload] by simp
  have "next_power_of_two cap \<le> (len - 128) div slot_size payload"
    using ge pos by (metis div_le_mono add_le_imp_le_diff add.commute div_mult_self_is_m)
  moreover obtain k where k: "next_power_of_two cap = 2 ^ k" using next_power_of_two_exp by blast
  ultimately have "next_power_of_two cap \<le> 2 ^ ilog2 ((len - 128) div slot_size payload)"
    using power_le_ilog2 by metis
  moreover have "(len - 128) div slot_size payload \<noteq> 0"
    using \<open>next_power_of_two cap \<le> (len - 128) div slot_size payload\<close> next_power_of_two_pos [of cap] by linarith
  ultimately show "cap \<le> mpsc_cap payload len"
    using next_power_of_two_ge [of cap] by (simp add: mpsc_cap_def Let_def MPSC_HEADER_SIZE_def)
qed

lemma from_raw_parts_total:
  assumes "align \<le> 8" "len mod 4096 = 0" "4096 \<le> len" "base mod 8 = 0" "mpsc_cap payload len \<noteq> 0"
  shows "\<exists>m. from_raw_parts payload align base len = Inr m"
proof -
  have "(len - 128) div 2 ^ ilog2 (slot_size payload) \<noteq> 0"
    using assms(5) slot_size_exp [of payload] by (simp add: mpsc_cap_def Let_def MPSC_HEADER_SIZE_def split: if_splits)
  then show ?thesis using assms by (simp add: from_raw_parts_def MAX_PAYLOAD_ALIGN_def PAGE_SIZE_def MPSC_HEADER_SIZE_def Let_def)
qed

lemma geometry_unique:
  assumes "from_raw_parts payload align base len = Inr m" "from_raw_parts payload align base' len = Inr m'"
  shows "m' = m \<lparr> m_base := base' \<rparr>"
  using assms by (auto simp: from_raw_parts_def Let_def split: if_splits)

text \<open>C31. A queue created for \<open>cap\<close> elements holds at least that many, its size tells its capacity, and the
  peer that maps a file of that size anywhere derives the very same ring geometry. Creation fails only
  when the size does not fit the address space.\<close>

theorem queue_geometry:
  assumes "queue_mem_size cap = Some sz" "base mod 8 = 0" "base' mod 8 = 0"
  shows "\<exists>q mem q'. send_queue_new base cap = Some (Inr (q, mem)) \<and> dq_size q = sz \<and>
    0 < dq_cap q \<and> cap \<le> dq_cap q \<and> queue_cap sz = dq_cap q \<and>
    recv_queue_map base' sz = Inr q' \<and> dq_ring q' = (dq_ring q) \<lparr> m_base := base' + 64 \<rparr> \<and>
    dq_length mem = 0 \<and> \<not> consumer_working mem"
proof -
  obtain len where len: "mpsc_mem_size 16 cap = Some len" "sz = 64 + len" "64 + len \<le> usize_max"
    using assms(1) by (auto simp: queue_mem_size_def bind_eq_Some_conv ELEMENT_SIZE_def QUEUE_HEADER_SIZE_def)
  note l = mpsc_mem_size_holds [OF len(1)]
  have "16 \<le> slot_size 16" using slot_size_ge [of 16] by simp
  have cap: "mpsc_cap 16 len \<noteq> 0"
    using l(3) by (simp add: mpsc_cap_def Let_def MPSC_HEADER_SIZE_def slot_size_def SLOT_HEADER_SIZE_def
        next_power_of_two_def bit_length.simps)
  have b: "(base + 64) mod 8 = 0" "(base' + 64) mod 8 = 0" using assms(2,3) by presburger+
  obtain m m' where m: "from_raw_parts 16 4 (base + 64) len = Inr m" "from_raw_parts 16 4 (base' + 64) len = Inr m'"
    using from_raw_parts_total [of 4 len "base + 64" 16] from_raw_parts_total [of 4 len "base' + 64" 16] l(1,3) b cap by auto
  let ?q = "\<lparr> dq_size = sz, dq_ring = m, dq_closed = False \<rparr>"
  let ?q' = "\<lparr> dq_size = sz, dq_ring = m', dq_closed = False \<rparr>"
  let ?mem = "\<lparr> qm_flag = 0, qm_ring = ring_zero zero_element \<rparr>"
  have new: "send_queue_new base cap = Some (Inr (?q, ?mem))"
    using assms(1) m(1) len(2)
    by (simp add: send_queue_new_def data_queue_create_def mpsc_new_def ELEMENT_SIZE_def ELEMENT_ALIGN_def QUEUE_HEADER_SIZE_def)
  have qc: "queue_cap sz = mpsc_cap 16 len"
    using l(1) len(2) by (simp add: queue_cap_def QUEUE_HEADER_SIZE_def PAGE_SIZE_def ELEMENT_SIZE_def)
  have map: "recv_queue_map base' sz = Inr ?q'"
    using m(2) qc cap l(1,3) len(2)
    by (simp add: recv_queue_map_def data_queue_map_def validate_queue_size_def mpsc_map_def QUEUE_HEADER_SIZE_def
        PAGE_SIZE_def ELEMENT_SIZE_def ELEMENT_ALIGN_def)
  note ok = from_raw_parts_ok [OF m(1) l(2)]
  have "mpsc_capacity m = capacity m"
    using unat_mask [OF ok(1)] capacity_le [OF ok(1)] unat_Suc_word [of "m_mask m"] capacity_pos(1) [of m]
    by (simp add: mpsc_capacity_def)
  then have dc: "dq_cap ?q = mpsc_cap 16 len" using ok(3) by (simp add: dq_cap_def)
  show ?thesis
    using new map qc dc cap l(4) geometry_unique [OF m]
    by (simp add: dq_length_def mpsc_length_def ring_zero_def consumer_working_def)
qed

section \<open>Witnesses\<close>

lemma ex_queue_size: "queue_mem_size 100 = Some 8256"
  by (simp add: queue_mem_size_def mpsc_mem_size_def next_power_of_two_def bit_length.simps slot_size_def usize_max_def
      checked_mul_def checked_add_def ELEMENT_SIZE_def SLOT_HEADER_SIZE_def MPSC_HEADER_SIZE_def PAGE_SIZE_def QUEUE_HEADER_SIZE_def)

theorem queue_geometry_witness:
  "\<exists>q mem q'. send_queue_new 4096 100 = Some (Inr (q, mem)) \<and> 100 \<le> dq_cap q \<and> recv_queue_map 8192 8256 = Inr q' \<and>
     m_mask (dq_ring q') = m_mask (dq_ring q)"
  using queue_geometry [OF ex_queue_size, of 4096 8192] by force

theorem queue_no_lost_wakeup_witness:
  "queue_run ex_mpsc (queue_start (ring_zero (0 :: nat))) (queue_start (ring_zero 0)) \<and>
   qs_drain (queue_start (ring_zero (0 :: nat))) = DSleep \<and>
   sy_popped (queue_start (ring_zero (0 :: nat))) = sy_claimed (queue_start (ring_zero (0 :: nat)))"
  using queue_no_lost_wakeup [OF ex_mpsc_new _ queue_run.refl] queue_run.refl [of ex_mpsc "queue_start (ring_zero (0 :: nat))"]
  by (simp add: queue_start_def usize_max_def)

end
