(* ===== verification/Local_Manager.thy ===== *)
theory Local_Manager
  imports Region V5_Queue
begin

text \<open>
  The owning side of a dynamic shared-memory segment (\<open>LocalManager\<close> of \<open>src/v5/dynshm.rs\<close>): the release
  queue at the front, the shared regions behind it, dedicated regions carved downwards from the end.
  Every region owns its range of the mapping; \<open>lm_seg\<close> holds the bytes that belong to no region, and
  \<open>segment\<close> puts the whole mapping together, which is what the peer reads. The release queue is
  the handle and the ring. A pointer to a buffer header is its global offset. The clock is the
  argument \<open>now\<close>, one reading per call; calls run one at a time, so \<open>try_lock\<close> succeeds. Log lines are
  left out. The cleanup thread is the call \<open>cleanup_tick\<close> it makes.
\<close>

section \<open>Constants and layout\<close>

definition DEFAULT_PINNED_REGION_NUM :: nat where "DEFAULT_PINNED_REGION_NUM = 4"
definition MAX_AGE :: int where "MAX_AGE = 30 * 10 ^ 9"
definition MAX_CHAIN_NODES :: nat where "MAX_CHAIN_NODES = DYNSHM_TOTAL_SIZE div MIN_BLOCK_SIZE"
definition DEDICATED_REGION_PUNCHED :: int where "DEDICATED_REGION_PUNCHED = - 1"

datatype manager_error = NoSpace | NotAllocatedM | InvalidOffsetM | OutOfBounds | ReleaseQueueFull | ClosedM

text \<open>\<open>parsed\<close> is what \<open>parse::<usize>\<close> makes of the environment variable, if it is set.\<close>

definition pinned_region_num_from :: "nat option \<Rightarrow> nat \<Rightarrow> nat" where
  "pinned_region_num_from parsed max_region_num =
     min (case parsed of Some n \<Rightarrow> n | None \<Rightarrow> DEFAULT_PINNED_REGION_NUM) max_region_num"

definition calc_dedicated_region_size :: "nat \<Rightarrow> nat" where
  "calc_dedicated_region_size data_size =
     (if data_size > 2 ^ 31 - 1 then 0
      else (data_size + DYNSHM_BUFFER_HEADER_SIZE + MAX_BLOCK_SIZE - 1) div MAX_BLOCK_SIZE * MAX_BLOCK_SIZE)"

definition arena_window :: "arena \<Rightarrow> nat \<Rightarrow> nat \<Rightarrow> arena" where
  "arena_window ar off len = \<lparr> alen = len, abytes = (\<lambda>i. abytes ar (off + i)) \<rparr>"

definition arena_paste :: "arena \<Rightarrow> nat \<Rightarrow> arena \<Rightarrow> arena" where
  "arena_paste ar off w =
     ar \<lparr> abytes := (\<lambda>i. if off \<le> i \<and> i < off + alen w then abytes w (i - off) else abytes ar i) \<rparr>"

section \<open>State\<close>

record local_manager =
  lm_seg :: arena
  lm_size :: nat
  lm_rq :: "mpsc \<times> int ring"
  lm_shared :: "shared_region list"
  lm_min_shared :: nat
  lm_max_shared_payload :: nat
  lm_max_shared_offset :: nat
  lm_alloc_idx :: "32 word"
  lm_min_block :: nat
  lm_max_block :: nat
  lm_dedicated :: "dedicated_region list"
  lm_ded_offset :: nat
  lm_closed :: bool

record manager_stats =
  st_rq_pending :: nat
  st_shared_regions :: nat
  st_shared_active :: nat
  st_shared_free_bytes :: nat
  st_shared_bytes :: nat
  st_dedicated_regions :: nat
  st_dedicated_active :: nat
  st_dedicated_bytes :: nat
  st_dedicated_used :: nat

text \<open>What can go wrong when a segment is built.\<close>

datatype build_error = SegmentTooSmall | CapBelowPinned | BlockNotPowerOfTwo | MinAboveMax
  | RqLayout layout_error | RegionBuild error

text \<open>The loop that builds \<open>n\<close> shared regions from offset \<open>off\<close> on.\<close>

fun build_regions :: "bool \<Rightarrow> arena \<Rightarrow> nat \<Rightarrow> nat \<Rightarrow> nat \<Rightarrow> nat \<Rightarrow> (build_error + shared_region list) option" where
  "build_regions uf seg 0 off min_block max_block = Some (Inr [])"
| "build_regions uf seg (Suc n) off min_block max_block = do {
     r \<leftarrow> region_new uf (arena_window seg off SHARED_REGION_SIZE) SHARED_REGION_SIZE off min_block max_block;
     case r of
       Inl e \<Rightarrow> Some (Inl (RegionBuild e))
     | Inr region \<Rightarrow> do {
         rest \<leftarrow> build_regions uf seg n (off + SHARED_REGION_SIZE) min_block max_block;
         Some (map_sum id (\<lambda>regions. region # regions) rest)
       }
   }"

text \<open>\<open>seg\<close> is the fresh mapping at \<open>base\<close>, \<open>uf\<close> whether the fixed allocator is configured.\<close>

definition lm_new_with_size ::
  "bool \<Rightarrow> nat \<Rightarrow> arena \<Rightarrow> nat \<Rightarrow> nat \<Rightarrow> nat \<Rightarrow> nat \<Rightarrow> nat \<Rightarrow> (build_error + local_manager) option" where
  "lm_new_with_size uf base seg total_size pinned_shared shared_cap min_block max_block =
     (if total_size < RQ_SIZE + SHARED_REGION_SIZE then Some (Inl SegmentTooSmall)
      else if shared_cap < pinned_shared then Some (Inl CapBelowPinned)
      else if \<not> is_power_of_two min_block \<or> \<not> is_power_of_two max_block then Some (Inl BlockNotPowerOfTwo)
      else if min_block > max_block then Some (Inl MinAboveMax)
      else case new_rq base RQ_SIZE of
        Inl e \<Rightarrow> Some (Inl (RqLayout e))
      | Inr rq \<Rightarrow> do {
          let shared_count = shared_cap div SHARED_REGION_SIZE;
          built \<leftarrow> build_regions uf seg shared_count RQ_SIZE min_block max_block;
          case built of
            Inl e \<Rightarrow> Some (Inl e)
          | Inr regions \<Rightarrow> do {
              max_payload \<leftarrow> (case regions of [] \<Rightarrow> Some 0 | region # _ \<Rightarrow> region_max_payload region);
              Some (Inr \<lparr> lm_seg = seg, lm_size = total_size, lm_rq = rq, lm_shared = regions,
                lm_min_shared = pinned_shared div SHARED_REGION_SIZE, lm_max_shared_payload = max_payload,
                lm_max_shared_offset = RQ_SIZE + shared_count * SHARED_REGION_SIZE, lm_alloc_idx = 0,
                lm_min_block = min_block, lm_max_block = max_block, lm_dedicated = [], lm_ded_offset = total_size,
                lm_closed = False \<rparr>)
            }
        })"

definition lm_new :: "bool \<Rightarrow> nat option \<Rightarrow> nat \<Rightarrow> arena \<Rightarrow> (build_error + local_manager) option" where
  "lm_new uf parsed base seg =
     (let total_size = DYNSHM_TOTAL_SIZE; shared_cap = total_size div 4;
          pinned = SHARED_REGION_SIZE * pinned_region_num_from parsed (shared_cap div SHARED_REGION_SIZE)
      in lm_new_with_size uf base seg total_size pinned shared_cap MIN_BLOCK_SIZE MAX_BLOCK_SIZE)"

text \<open>The mapping as the peer sees it.\<close>

definition in_shared :: "nat \<Rightarrow> shared_region \<Rightarrow> bool" where
  "in_shared g r \<longleftrightarrow> r_offset r \<le> g \<and> g < r_offset r + r_size r"

definition in_dedicated :: "nat \<Rightarrow> dedicated_region \<Rightarrow> bool" where
  "in_dedicated g d \<longleftrightarrow> d_offset d \<le> g \<and> g < d_offset d + d_size d"

definition segment :: "local_manager \<Rightarrow> arena" where
  "segment m = \<lparr> alen = lm_size m, abytes = (\<lambda>g.
     case find (in_shared g) (lm_shared m) of
       Some r \<Rightarrow> abytes (r_data r) (g - r_offset r)
     | None \<Rightarrow> (case find (in_dedicated g) (lm_dedicated m) of
         Some d \<Rightarrow> abytes (d_data d) (g - d_offset d)
       | None \<Rightarrow> abytes (lm_seg m) g)) \<rparr>"

section \<open>Allocation\<close>

text \<open>Trying the shared regions with the given indices, in order.\<close>

fun alloc_from :: "shared_region list \<Rightarrow> nat list \<Rightarrow> int \<Rightarrow> nat \<Rightarrow> (shared_region list \<times> nat option) option" where
  "alloc_from rs [] now sz = Some (rs, None)"
| "alloc_from rs (k # ks) now sz = do {
     r \<leftarrow> vec_get rs k;
     (r', buf) \<leftarrow> region_alloc r now sz;
     case buf of
       Some d \<Rightarrow> Some (rs[k := r'], Some (r_offset r' + d))
     | None \<Rightarrow> alloc_from (rs[k := r']) ks now sz
   }"

fun reuse_dedicated :: "dedicated_region list \<Rightarrow> nat \<Rightarrow> int \<Rightarrow> nat \<Rightarrow> (dedicated_region list \<times> nat option) option" where
  "reuse_dedicated [] region_size now sz = Some ([], None)"
| "reuse_dedicated (d # ds) region_size now sz = do {
     freed \<leftarrow> dedicated_is_freed d;
     if freed \<and> d_size d \<ge> region_size \<and> d_size d \<le> region_size + MAX_BLOCK_SIZE then do {
       (d', buf) \<leftarrow> dedicated_alloc d now sz;
       case buf of
         Some p \<Rightarrow> Some (d' # ds, Some (d_offset d' + p))
       | None \<Rightarrow> do {
           (ds', res) \<leftarrow> reuse_dedicated ds region_size now sz;
           Some (d' # ds', res)
         }
     } else do {
       (ds', res) \<leftarrow> reuse_dedicated ds region_size now sz;
       Some (d # ds', res)
     }
   }"

definition alloc_dedicated :: "local_manager \<Rightarrow> int \<Rightarrow> nat \<Rightarrow> (local_manager \<times> (manager_error + nat)) option" where
  "alloc_dedicated m now sz =
     (let region_size = calc_dedicated_region_size sz in
      if region_size = 0 then Some (m, Inl NoSpace)
      else do {
        (ds, reused) \<leftarrow> reuse_dedicated (lm_dedicated m) region_size now sz;
        let m1 = m \<lparr> lm_dedicated := ds \<rparr>;
        case reused of
          Some g \<Rightarrow> Some (m1, Inr g)
        | None \<Rightarrow>
            (case checked_sub (lm_ded_offset m) region_size of
               None \<Rightarrow> Some (m1, Inl NoSpace)
             | Some new_offset \<Rightarrow>
                 if new_offset < lm_max_shared_offset m then Some (m1, Inl NoSpace)
                 else do {
                   region \<leftarrow> dedicated_new (arena_window (lm_seg m) new_offset region_size) region_size new_offset;
                   (region', buf) \<leftarrow> dedicated_alloc region now sz;
                   case buf of
                     None \<Rightarrow> Some (m1, Inl NoSpace)
                   | Some p \<Rightarrow> Some (m1 \<lparr> lm_dedicated := ds @ [region'], lm_ded_offset := new_offset \<rparr>,
                       Inr (d_offset region' + p))
                 })
      })"

section \<open>Release\<close>

definition shared_by_offset :: "local_manager \<Rightarrow> int \<Rightarrow> nat option" where
  "shared_by_offset m offset =
     (if offset < int RQ_SIZE \<or> offset \<ge> int (lm_max_shared_offset m) then None
      else let k = (nat offset - RQ_SIZE) div SHARED_REGION_SIZE in
        if k < length (lm_shared m) then Some k else None)"

definition get_shared_by_offset :: "local_manager \<Rightarrow> int \<Rightarrow> nat option" where
  "get_shared_by_offset m offset = (if lm_closed m then None else shared_by_offset m offset)"

text \<open>The first dedicated region whose range holds the offset; the region it is is what is visited.\<close>

definition with_dedicated_by_offset :: "local_manager \<Rightarrow> int \<Rightarrow> dedicated_region option" where
  "with_dedicated_by_offset m offset =
     (if lm_closed m then None
      else find (\<lambda>d. int (d_offset d) \<le> offset \<and> offset < int (d_offset d + d_size d)) (lm_dedicated m))"

fun mark_freed_at :: "dedicated_region list \<Rightarrow> int \<Rightarrow> int \<Rightarrow> dedicated_region list option" where
  "mark_freed_at [] now offset = Some []"
| "mark_freed_at (d # ds) now offset =
     (if int (d_offset d) = offset then do {
        (d', _) \<leftarrow> dedicated_mark_freed d now;
        Some (d' # ds)
      } else do {
        ds' \<leftarrow> mark_freed_at ds now offset;
        Some (d # ds')
      })"

definition free_at_inner :: "local_manager \<Rightarrow> int \<Rightarrow> int \<Rightarrow> local_manager option" where
  "free_at_inner m now offset =
     (case shared_by_offset m offset of
        Some k \<Rightarrow> do {
          (r, _) \<leftarrow> region_free_at (lm_shared m ! k) offset;
          Some (m \<lparr> lm_shared := (lm_shared m)[k := r] \<rparr>)
        }
      | None \<Rightarrow> do {
          ds \<leftarrow> mark_freed_at (lm_dedicated m) now offset;
          Some (m \<lparr> lm_dedicated := ds \<rparr>)
        })"

definition lm_free_at :: "local_manager \<Rightarrow> int \<Rightarrow> int \<Rightarrow> local_manager option" where
  "lm_free_at m now offset = (if lm_closed m then Some m else free_at_inner m now offset)"

definition rq_pending :: "local_manager \<Rightarrow> nat" where
  "rq_pending m = (case lm_rq m of (q, r) \<Rightarrow> unat (rg_tail r - rg_head r))"

text \<open>The drain loop, with \<open>fuel\<close> iterations at most; the ring shrinks by one in each.\<close>

fun drain_loop :: "nat \<Rightarrow> local_manager \<Rightarrow> int \<Rightarrow> nat \<Rightarrow> (local_manager \<times> nat) option" where
  "drain_loop 0 m now freed = None"
| "drain_loop (Suc fuel) m now freed =
     (case lm_rq m of (q, r) \<Rightarrow>
       (case mpsc_try_pop q r of
          (r', Ready offset) \<Rightarrow> do {
            m' \<leftarrow> free_at_inner (m \<lparr> lm_rq := (q, r') \<rparr>) now offset;
            drain_loop fuel m' now (freed + 1)
          }
        | (r', _) \<Rightarrow> Some (m \<lparr> lm_rq := (q, r') \<rparr>, freed)))"

definition drain_rq_inner :: "local_manager \<Rightarrow> int \<Rightarrow> (local_manager \<times> nat) option" where
  "drain_rq_inner m now = drain_loop (Suc (rq_pending m)) m now 0"

definition drain_rq :: "local_manager \<Rightarrow> int \<Rightarrow> (local_manager \<times> nat) option" where
  "drain_rq m now = (if lm_closed m then Some (m, 0) else drain_rq_inner m now)"

definition lm_alloc :: "local_manager \<Rightarrow> int \<Rightarrow> nat \<Rightarrow> (local_manager \<times> (manager_error + nat)) option" where
  "lm_alloc m now sz =
     (if lm_closed m then Some (m, Inl ClosedM)
      else if sz = 0 then Some (m, Inl NoSpace)
      else do {
        m1 \<leftarrow> (if rq_pending m > 0 then map_option fst (drain_rq_inner m now) else Some m);
        if sz > lm_max_shared_payload m1 then alloc_dedicated m1 now sz
        else do {
          (m2, pinned) \<leftarrow>
            (if lm_min_shared m1 > 0 then do {
               let start = unat (lm_alloc_idx m1 + 1);
               let m' = m1 \<lparr> lm_alloc_idx := lm_alloc_idx m1 + 1 \<rparr>;
               (rs, buf) \<leftarrow> alloc_from (lm_shared m') (map (\<lambda>i. (start + i) mod lm_min_shared m') [0..<lm_min_shared m']) now sz;
               Some (m' \<lparr> lm_shared := rs \<rparr>, buf)
             } else Some (m1, None));
          case pinned of
            Some g \<Rightarrow> Some (m2, Inr g)
          | None \<Rightarrow>
              if lm_min_shared m2 > length (lm_shared m2) then None
              else do {
                (rs, buf) \<leftarrow> alloc_from (lm_shared m2) [lm_min_shared m2..<length (lm_shared m2)] now sz;
                Some (m2 \<lparr> lm_shared := rs \<rparr>, case buf of Some g \<Rightarrow> Inr g | None \<Rightarrow> Inl NoSpace)
              }
        }
      })"

section \<open>Pruning, statistics, closing\<close>

definition prune_dedicated_one :: "int \<Rightarrow> dedicated_region \<Rightarrow> dedicated_region option" where
  "prune_dedicated_one now d = do {
     freed \<leftarrow> dedicated_is_freed d;
     Some (if d_updated d \<le> 0 \<or> \<not> freed then d
           else if now - d_updated d \<ge> MAX_AGE then dedicated_set_updated d DEDICATED_REGION_PUNCHED
           else d)
   }"

fun prune_dedicated :: "int \<Rightarrow> dedicated_region list \<Rightarrow> dedicated_region list option" where
  "prune_dedicated now [] = Some []"
| "prune_dedicated now (d # ds) = do {
     d' \<leftarrow> prune_dedicated_one now d;
     ds' \<leftarrow> prune_dedicated now ds;
     Some (d' # ds')
   }"

text \<open>Popping punched regions off the end; their bytes go back to the free area.\<close>

fun trim_rev :: "dedicated_region list \<Rightarrow> arena \<Rightarrow> dedicated_region list \<times> arena" where
  "trim_rev [] seg = ([], seg)"
| "trim_rev (d # ds) seg =
     (if d_updated d = DEDICATED_REGION_PUNCHED then trim_rev ds (arena_paste seg (d_offset d) (d_data d))
      else (d # ds, seg))"

definition prune_idle_regions :: "local_manager \<Rightarrow> int \<Rightarrow> local_manager option" where
  "prune_idle_regions m now =
     (if lm_closed m then Some m
      else if lm_min_shared m > length (lm_shared m) then None
      else do {
        let shared = take (lm_min_shared m) (lm_shared m) @
          map (\<lambda>r. fst (region_punch_if_idle r now MAX_AGE)) (drop (lm_min_shared m) (lm_shared m));
        ds \<leftarrow> prune_dedicated now (lm_dedicated m);
        let (rest, seg) = trim_rev (rev ds) (lm_seg m);
        Some (m \<lparr> lm_shared := shared, lm_dedicated := rev rest, lm_seg := seg,
          lm_ded_offset := (case rest of d # _ \<Rightarrow> d_offset d | [] \<Rightarrow> lm_size m) \<rparr>)
      })"

definition lm_stats :: "local_manager \<Rightarrow> manager_stats option" where
  "lm_stats m =
     (if lm_closed m then Some \<lparr> st_rq_pending = 0, st_shared_regions = 0, st_shared_active = 0, st_shared_free_bytes = 0,
        st_shared_bytes = 0, st_dedicated_regions = 0, st_dedicated_active = 0, st_dedicated_bytes = 0, st_dedicated_used = 0 \<rparr>
      else do {
        freed \<leftarrow> those (map dedicated_is_freed (lm_dedicated m));
        let busy = map fst (filter (\<lambda>(d, f). \<not> f) (zip (lm_dedicated m) freed));
        Some \<lparr> st_rq_pending = mpsc_length (snd (lm_rq m)), st_shared_regions = length (lm_shared m),
          st_shared_active = length (filter (\<lambda>r. r_allocs r > 0) (lm_shared m)),
          st_shared_free_bytes = (\<Sum>r\<leftarrow>lm_shared m. region_available r),
          st_shared_bytes = (\<Sum>r\<leftarrow>lm_shared m. r_size r),
          st_dedicated_regions = length (lm_dedicated m), st_dedicated_active = length busy,
          st_dedicated_bytes = (\<Sum>d\<leftarrow>lm_dedicated m. d_size d), st_dedicated_used = (\<Sum>d\<leftarrow>busy. d_size d) \<rparr>
      })"

definition cleanup_tick :: "local_manager \<Rightarrow> int \<Rightarrow> local_manager option" where
  "cleanup_tick m now = do {
     (m', _) \<leftarrow> drain_rq m now;
     prune_idle_regions m' now
   }"

text \<open>\<open>close_all\<close> lets the cleanup thread make its last pass and then refuses everything.\<close>

definition lm_close_all :: "local_manager \<Rightarrow> int \<Rightarrow> local_manager option" where
  "lm_close_all m now = do {
     m' \<leftarrow> cleanup_tick m now;
     Some (m' \<lparr> lm_closed := True \<rparr>)
   }"

end
