(* ===== verification/Local_Safety.thy ===== *)
theory Local_Safety
  imports Local_Manager
begin

text \<open>
  The invariant of the owning side of a segment and its preservation by every operation of
  \<open>Local_Manager\<close>. \<open>lm_inv m G\<close> says that the manager \<open>m\<close> serves exactly the live buffers \<open>G\<close>, a map
  from global offsets to sizes; \<open>lm_put\<close> is a client's write through a buffer pointer.
\<close>

section \<open>Invariant of the owning side\<close>

text \<open>Dedicated regions lie one below the other, from the end of the segment downwards.\<close>

primrec stacked :: "nat \<Rightarrow> dedicated_region list \<Rightarrow> nat \<Rightarrow> bool" where
  "stacked hi [] off \<longleftrightarrow> off = hi"
| "stacked hi (d # ds) off \<longleftrightarrow> d_offset d + d_size d = hi \<and> stacked (d_offset d) ds off"

definition shared_ok :: "shared_region list \<Rightarrow> live list \<Rightarrow> bool" where
  "shared_ok rs Ls \<longleftrightarrow> length Ls = length rs \<and>
     (\<forall>k<length rs. region_ok (rs ! k) (Ls ! k) \<and> r_offset (rs ! k) = RQ_SIZE + k * SHARED_REGION_SIZE \<and>
        r_size (rs ! k) = SHARED_REGION_SIZE)"

definition dedicated_all_ok :: "dedicated_region list \<Rightarrow> bool list \<Rightarrow> bool" where
  "dedicated_all_ok ds Bs \<longleftrightarrow> length Bs = length ds \<and>
     (\<forall>k<length ds. dedicated_ok (ds ! k) (Bs ! k) \<and> (d_updated (ds ! k) = DEDICATED_REGION_PUNCHED \<longrightarrow> \<not> Bs ! k))"

definition lm_ok :: "local_manager \<Rightarrow> live list \<Rightarrow> bool list \<Rightarrow> bool" where
  "lm_ok m Ls Bs \<longleftrightarrow> shared_ok (lm_shared m) Ls \<and> dedicated_all_ok (lm_dedicated m) Bs \<and>
     stacked (lm_size m) (lm_dedicated m) (lm_ded_offset m) \<and>
     lm_max_shared_offset m = RQ_SIZE + length (lm_shared m) * SHARED_REGION_SIZE \<and>
     lm_max_shared_offset m \<le> lm_ded_offset m \<and> lm_min_shared m \<le> length (lm_shared m) \<and>
     lm_size m \<le> 2 ^ 32 \<and> alen (lm_seg m) = lm_size m"

text \<open>The live buffers by global offset: a shared buffer with the capacity of its block, a dedicated one
  with the size of its region, headers included.\<close>

definition region_index :: "nat \<Rightarrow> nat" where
  "region_index g = (g - RQ_SIZE) div SHARED_REGION_SIZE"

definition shared_lives :: "live list \<Rightarrow> live" where
  "shared_lives Ls g =
     (if RQ_SIZE \<le> g \<and> region_index g < length Ls then (Ls ! region_index g) ((g - RQ_SIZE) mod SHARED_REGION_SIZE) else None)"

definition dedicated_lives :: "dedicated_region list \<Rightarrow> bool list \<Rightarrow> live" where
  "dedicated_lives ds Bs g = map_option (d_size \<circ> fst) (find (\<lambda>(d, b). b \<and> d_offset d = g) (zip ds Bs))"

definition lives :: "local_manager \<Rightarrow> live list \<Rightarrow> bool list \<Rightarrow> live" where
  "lives m Ls Bs g = (if g < lm_max_shared_offset m then shared_lives Ls g else dedicated_lives (lm_dedicated m) Bs g)"

definition lm_inv :: "local_manager \<Rightarrow> live \<Rightarrow> bool" where
  "lm_inv m G \<longleftrightarrow> (\<exists>Ls Bs. lm_ok m Ls Bs \<and> G = lives m Ls Bs)"

lemma lm_okD:
  assumes "lm_ok m Ls Bs"
  shows "shared_ok (lm_shared m) Ls" "dedicated_all_ok (lm_dedicated m) Bs"
    "stacked (lm_size m) (lm_dedicated m) (lm_ded_offset m)"
    "lm_max_shared_offset m = RQ_SIZE + length (lm_shared m) * SHARED_REGION_SIZE"
    "lm_max_shared_offset m \<le> lm_ded_offset m" "lm_min_shared m \<le> length (lm_shared m)"
    "lm_size m \<le> 2 ^ 32" "alen (lm_seg m) = lm_size m"
  using assms by (simp_all add: lm_ok_def)

lemma shared_okD:
  assumes "shared_ok rs Ls" "k < length rs"
  shows "length Ls = length rs" "region_ok (rs ! k) (Ls ! k)" "r_offset (rs ! k) = RQ_SIZE + k * SHARED_REGION_SIZE"
    "r_size (rs ! k) = SHARED_REGION_SIZE"
  using assms by (auto simp: shared_ok_def)

lemma srs_pos [simp]: "0 < SHARED_REGION_SIZE" "SHARED_REGION_SIZE \<noteq> 0"
  by (simp_all add: SHARED_REGION_SIZE_def)

lemma region_index_at: "d < SHARED_REGION_SIZE \<Longrightarrow> region_index (RQ_SIZE + k * SHARED_REGION_SIZE + d) = k"
  by (simp add: region_index_def)

lemma region_split:
  assumes "RQ_SIZE \<le> g"
  shows "g = RQ_SIZE + region_index g * SHARED_REGION_SIZE + (g - RQ_SIZE) mod SHARED_REGION_SIZE"
  using assms div_mult_mod_eq [of "g - RQ_SIZE" SHARED_REGION_SIZE] by (simp add: region_index_def)

lemma region_index_less: "RQ_SIZE \<le> g \<Longrightarrow> g < RQ_SIZE + n * SHARED_REGION_SIZE \<longleftrightarrow> region_index g < n"
  by (simp add: region_index_def div_less_iff_less_mult less_diff_conv2 add.commute)

lemma shared_lives_at:
  assumes "k < length Ls" "d < SHARED_REGION_SIZE"
  shows "shared_lives Ls (RQ_SIZE + k * SHARED_REGION_SIZE + d) = (Ls ! k) d"
  using assms by (simp add: shared_lives_def region_index_at)

lemma shared_lives_update:
  assumes "k < length Ls" "d < SHARED_REGION_SIZE"
  shows "shared_lives (Ls[k := (Ls ! k)(d := x)]) = (shared_lives Ls)(RQ_SIZE + k * SHARED_REGION_SIZE + d := x)"
proof
  fix g
  show "shared_lives (Ls[k := (Ls ! k)(d := x)]) g = ((shared_lives Ls)(RQ_SIZE + k * SHARED_REGION_SIZE + d := x)) g"
  proof (cases "g = RQ_SIZE + k * SHARED_REGION_SIZE + d")
    case True
    then show ?thesis using assms shared_lives_at [of k "Ls[k := (Ls ! k)(d := x)]" d] by simp
  next
    case False
    show ?thesis
    proof (cases "RQ_SIZE \<le> g \<and> region_index g = k")
      case True
      then have "(g - RQ_SIZE) mod SHARED_REGION_SIZE \<noteq> d" using False region_split [of g] by metis
      then show ?thesis using False True by (simp add: shared_lives_def)
    next
      case ne: False
      then have "region_index g \<noteq> k \<or> \<not> RQ_SIZE \<le> g" by blast
      then show ?thesis using False by (auto simp: shared_lives_def)
    qed
  qed
qed

section \<open>Stacks of dedicated regions\<close>

lemma stacked_le: "stacked hi ds off \<Longrightarrow> off \<le> hi"
proof (induction ds arbitrary: hi)
  case (Cons d ds)
  have "off \<le> d_offset d" using Cons.IH Cons.prems by simp
  then show ?case using Cons.prems by simp
qed simp

lemma stacked_bounds:
  assumes "stacked hi ds off" "d \<in> set ds"
  shows "off \<le> d_offset d \<and> d_offset d + d_size d \<le> hi"
  using assms
proof (induction ds arbitrary: hi)
  case (Cons e ds)
  then have s: "stacked (d_offset e) ds off" "d_offset e + d_size e = hi" by auto
  show ?case
  proof (cases "d = e")
    case True
    then show ?thesis using s stacked_le [OF s(1)] by simp
  next
    case False
    then show ?thesis using Cons.IH [OF s(1)] Cons.prems(2) s(2) by auto
  qed
qed simp

text \<open>The ranges of a stack are pairwise disjoint.\<close>

lemma stacked_disjoint:
  assumes "stacked hi ds off" "j < k" "k < length ds"
  shows "d_offset (ds ! k) + d_size (ds ! k) \<le> d_offset (ds ! j)"
  using assms
proof (induction ds arbitrary: hi j k)
  case (Cons e ds)
  then have s: "stacked (d_offset e) ds off" by auto
  show ?case
  proof (cases j)
    case 0
    then show ?thesis using stacked_bounds [OF s, of "ds ! (k - 1)"] Cons.prems(2,3) by (cases k) auto
  next
    case (Suc i)
    then show ?thesis using Cons.IH [OF s, of i "k - 1"] Cons.prems(2,3) by (cases k) auto
  qed
qed simp

lemma stacked_append: "stacked hi (ds @ [d]) off \<longleftrightarrow> off = d_offset d \<and> stacked hi ds (d_offset d + d_size d)"
  by (induction ds arbitrary: hi) auto

lemma stacked_cong:
  "length es = length ds \<Longrightarrow> (\<And>k. k < length ds \<Longrightarrow> d_offset (es ! k) = d_offset (ds ! k) \<and> d_size (es ! k) = d_size (ds ! k)) \<Longrightarrow>
   stacked hi es off = stacked hi ds off"
proof (induction es arbitrary: ds hi)
  case (Cons e es)
  then obtain d ds' where ds: "ds = d # ds'" by (cases ds) auto
  have "stacked (d_offset d) es off = stacked (d_offset d) ds' off"
    by (rule Cons.IH) (use Cons.prems ds in force)+
  then show ?case using Cons.prems(2) [of 0] ds by simp
qed simp

lemma dedicated_all_okD:
  assumes "dedicated_all_ok ds Bs" "k < length ds"
  shows "length Bs = length ds" "dedicated_ok (ds ! k) (Bs ! k)"
    "d_updated (ds ! k) = DEDICATED_REGION_PUNCHED \<Longrightarrow> \<not> Bs ! k"
  using assms by (auto simp: dedicated_all_ok_def)

lemma stacked_offset_inj:
  assumes "stacked hi ds off" "dedicated_all_ok ds Bs" "j < length ds" "k < length ds" "d_offset (ds ! j) = d_offset (ds ! k)"
  shows "j = k"
proof (rule ccontr)
  assume "j \<noteq> k"
  then consider "j < k" | "k < j" by linarith
  then show False
  proof cases
    case 1
    then show ?thesis
      using stacked_disjoint [OF assms(1) 1 assms(4)] dedicated_all_okD(2) [OF assms(2,4)] assms(5) by (auto simp: dedicated_ok_def)
  next
    case 2
    then show ?thesis
      using stacked_disjoint [OF assms(1) 2 assms(3)] dedicated_all_okD(2) [OF assms(2,3)] assms(5) by (auto simp: dedicated_ok_def)
  qed
qed

lemma dedicated_lives_Some:
  assumes "stacked hi ds off" "dedicated_all_ok ds Bs"
  shows "dedicated_lives ds Bs g = Some c \<longleftrightarrow> (\<exists>k<length ds. Bs ! k \<and> d_offset (ds ! k) = g \<and> c = d_size (ds ! k))"
proof -
  have len: "length Bs = length ds" using assms(2) by (simp add: dedicated_all_ok_def)
  show ?thesis
  proof
    assume "dedicated_lives ds Bs g = Some c"
    then obtain p where p: "find (\<lambda>(d, b). b \<and> d_offset d = g) (zip ds Bs) = Some p" "c = d_size (fst p)"
      by (auto simp: dedicated_lives_def)
    then obtain k where "k < length (zip ds Bs)" "p = zip ds Bs ! k" "case p of (d, b) \<Rightarrow> b \<and> d_offset d = g"
      by (auto simp: find_Some_iff)
    then show "\<exists>k<length ds. Bs ! k \<and> d_offset (ds ! k) = g \<and> c = d_size (ds ! k)" using p(2) len by (auto intro!: exI [of _ k])
  next
    assume "\<exists>k<length ds. Bs ! k \<and> d_offset (ds ! k) = g \<and> c = d_size (ds ! k)"
    then obtain k where k: "k < length ds" "Bs ! k" "d_offset (ds ! k) = g" "c = d_size (ds ! k)" by blast
    have "find (\<lambda>(d, b). b \<and> d_offset d = g) (zip ds Bs) = Some (ds ! k, Bs ! k)"
      unfolding find_Some_iff
    proof (intro exI [of _ k] conjI allI impI)
      fix j assume "j < k"
      then show "\<not> (case zip ds Bs ! j of (d, b) \<Rightarrow> b \<and> d_offset d = g)"
        using stacked_offset_inj [OF assms, of j k] k len by auto
    qed (use k len in auto)
    then show "dedicated_lives ds Bs g = Some c" using k(4) by (simp add: dedicated_lives_def)
  qed
qed

section \<open>Shared regions of a manager\<close>

definition shared_frame :: "live list \<Rightarrow> shared_region list \<Rightarrow> shared_region list \<Rightarrow> bool" where
  "shared_frame Ls rs rs' \<longleftrightarrow> length rs' = length rs \<and> (\<forall>k<length rs. \<forall>d c i. (Ls ! k) d = Some c \<longrightarrow> d \<le> i \<longrightarrow> i < d + c \<longrightarrow>
     abytes (r_data (rs' ! k)) i = abytes (r_data (rs ! k)) i)"

lemma shared_frame_refl [simp]: "shared_frame Ls rs rs"
  by (simp add: shared_frame_def)

lemma shared_frame_trans: "shared_frame Ls rs rs' \<Longrightarrow> shared_frame Ls rs' rs'' \<Longrightarrow> shared_frame Ls rs rs''"
  by (auto simp: shared_frame_def)

lemma shared_frame_one:
  assumes "k < length rs" "\<And>d c i. (Ls ! k) d = Some c \<Longrightarrow> d \<le> i \<Longrightarrow> i < d + c \<Longrightarrow> abytes (r_data r) i = abytes (r_data (rs ! k)) i"
  shows "shared_frame Ls rs (rs[k := r])"
  using assms by (auto simp: shared_frame_def nth_list_update)

lemma shared_ok_update:
  assumes "shared_ok rs Ls" "k < length rs" "region_ok r L" "r_offset r = r_offset (rs ! k)" "r_size r = r_size (rs ! k)"
  shows "shared_ok (rs[k := r]) (Ls[k := L])"
  using assms by (auto simp: shared_ok_def nth_list_update)

lemma shared_ok_update_same:
  "shared_ok rs Ls \<Longrightarrow> k < length rs \<Longrightarrow> region_ok r (Ls ! k) \<Longrightarrow> r_offset r = r_offset (rs ! k) \<Longrightarrow> r_size r = r_size (rs ! k) \<Longrightarrow>
   shared_ok (rs[k := r]) Ls"
  using shared_ok_update [of rs Ls k r "Ls ! k"] by simp

lemma srs_le: "SHARED_REGION_SIZE \<le> 2 ^ 32"
  by (simp add: SHARED_REGION_SIZE_def)

lemma alloc_from_cases:
  assumes "shared_ok rs Ls" "\<forall>k\<in>set ks. k < length rs" "now \<noteq> 0"
  obtains
    (miss) rs' where "alloc_from rs ks now sz = Some (rs', None)" "shared_ok rs' Ls" "shared_frame Ls rs rs'"
  | (hit) rs' k d c where "alloc_from rs ks now sz = Some (rs', Some (RQ_SIZE + k * SHARED_REGION_SIZE + d))"
      "k < length rs" "(Ls ! k) d = None" "24 + sz \<le> c" "d + c \<le> SHARED_REGION_SIZE"
      "shared_ok rs' (Ls[k := (Ls ! k)(d \<mapsto> c)])" "shared_frame Ls rs rs'"
      "read_buf_header (r_data (rs' ! k)) d =
         Some \<lparr> h_offset = int (RQ_SIZE + k * SHARED_REGION_SIZE + d), h_next = 0, h_len = sz, h_cap = c - 24 \<rparr>"
  using assms
proof (induction ks arbitrary: rs thesis)
  case Nil
  then show ?case by simp
next
  case (Cons k ks)
  have k: "k < length rs" using Cons.prems(4) by simp
  note r = shared_okD [OF Cons.prems(3) k]
  note frame = region_alloc_frame [OF r(2) Cons.prems(5)]
  show ?case
  proof (cases rule: region_alloc_cases [OF r(2) Cons.prems(5), of sz])
    case (1 r')
    let ?rs = "rs[k := r']"
    have ok: "shared_ok ?rs Ls" by (rule shared_ok_update_same [OF Cons.prems(3) k 1(2,4,5)])
    have fr: "shared_frame Ls rs ?rs" by (rule shared_frame_one [OF k]) (use frame [OF 1(1)] in blast)
    have step: "alloc_from rs (k # ks) now sz = alloc_from ?rs ks now sz" using 1(1) k by (simp add: vec_get_def)
    have ks: "\<forall>j\<in>set ks. j < length ?rs" using Cons.prems(4) by simp
    show ?thesis
    proof (rule Cons.IH [OF _ _ ok ks Cons.prems(5)])
      fix rs' assume a: "alloc_from ?rs ks now sz = Some (rs', None)" "shared_ok rs' Ls" "shared_frame Ls ?rs rs'"
      show thesis by (rule Cons.prems(1) [OF _ a(2) shared_frame_trans [OF fr a(3)]]) (use a(1) step in simp)
    next
      fix rs' j d c
      assume a: "alloc_from ?rs ks now sz = Some (rs', Some (RQ_SIZE + j * SHARED_REGION_SIZE + d))" "j < length ?rs"
        "(Ls ! j) d = None" "24 + sz \<le> c" "d + c \<le> SHARED_REGION_SIZE" "shared_ok rs' (Ls[j := (Ls ! j)(d \<mapsto> c)])"
        "shared_frame Ls ?rs rs'" "read_buf_header (r_data (rs' ! j)) d =
           Some \<lparr> h_offset = int (RQ_SIZE + j * SHARED_REGION_SIZE + d), h_next = 0, h_len = sz, h_cap = c - 24 \<rparr>"
      show thesis by (rule Cons.prems(2) [OF _ _ a(3-6) shared_frame_trans [OF fr a(7)] a(8)]) (use a(1,2) step in simp_all)
    qed
  next
    case (2 r' d c)
    let ?rs = "rs[k := r']"
    have b: "d + c \<le> SHARED_REGION_SIZE" "8 \<le> d" using region_live_bounds [OF 2(4), of d c] 2(8) r(4) by simp_all
    show ?thesis
    proof (rule Cons.prems(2))
      show "alloc_from rs (k # ks) now sz = Some (?rs, Some (RQ_SIZE + k * SHARED_REGION_SIZE + d))"
        using 2(1,7) k r(3) by (simp add: vec_get_def)
      show "shared_ok ?rs (Ls[k := (Ls ! k)(d \<mapsto> c)])" by (rule shared_ok_update [OF Cons.prems(3) k 2(4,7,8)])
      show "shared_frame Ls rs ?rs" by (rule shared_frame_one [OF k]) (use frame [OF 2(1)] in blast)
      have "c < 2 ^ 32" using b srs_le by linarith
      then show "read_buf_header (r_data (?rs ! k)) d =
          Some \<lparr> h_offset = int (RQ_SIZE + k * SHARED_REGION_SIZE + d), h_next = 0, h_len = sz, h_cap = c - 24 \<rparr>"
        using 2(6) r(3) k by (simp add: fresh_header_def)
    qed (use k 2(2,3) b in simp_all)
  qed
qed

section \<open>Dedicated regions of a manager\<close>

lemma calc_dedicated_region_size_bounds:
  assumes "calc_dedicated_region_size sz \<noteq> 0"
  shows "sz + 24 \<le> calc_dedicated_region_size sz" "sz < 2 ^ 31" "24 \<le> calc_dedicated_region_size sz"
proof -
  have sz: "sz < 2 ^ 31" using assms by (auto simp: calc_dedicated_region_size_def split: if_splits)
  let ?n = "sz + 24 + MAX_BLOCK_SIZE - 1"
  have c: "calc_dedicated_region_size sz = ?n div MAX_BLOCK_SIZE * MAX_BLOCK_SIZE"
    using sz by (simp add: calc_dedicated_region_size_def DYNSHM_BUFFER_HEADER_SIZE_def)
  have "?n mod MAX_BLOCK_SIZE < MAX_BLOCK_SIZE" by (rule mod_less_divisor) (simp add: MAX_BLOCK_SIZE_def)
  then show "sz + 24 \<le> calc_dedicated_region_size sz"
    using div_mult_mod_eq [of ?n MAX_BLOCK_SIZE] c by linarith
  with sz show "sz < 2 ^ 31" "24 \<le> calc_dedicated_region_size sz" by simp_all
qed

lemma dedicated_all_ok_Cons:
  "dedicated_all_ok (d # ds) Bs \<longleftrightarrow> (\<exists>b Bs'. Bs = b # Bs' \<and> dedicated_ok d b \<and>
     (d_updated d = DEDICATED_REGION_PUNCHED \<longrightarrow> \<not> b) \<and> dedicated_all_ok ds Bs')"
proof (cases Bs)
  case (Cons b Bs')
  then show ?thesis by (auto simp: dedicated_all_ok_def less_Suc_eq_0_disj)
qed (simp add: dedicated_all_ok_def)

lemma dedicated_all_ok_update:
  assumes "dedicated_all_ok ds Bs" "k < length ds" "dedicated_ok d b" "d_updated d = DEDICATED_REGION_PUNCHED \<Longrightarrow> \<not> b"
  shows "dedicated_all_ok (ds[k := d]) (Bs[k := b])"
  using assms by (auto simp: dedicated_all_ok_def nth_list_update)

lemma dedicated_alloc_stamp: "dedicated_alloc d now sz = Some (d', Some p) \<Longrightarrow> d_updated d' = now"
  by (auto simp: dedicated_alloc_def bind_eq_Some_conv split: if_splits)

lemma reuse_dedicated_cases:
  assumes "dedicated_all_ok ds Bs" "sz + 24 \<le> region_size"
  obtains
    (miss) "reuse_dedicated ds region_size now sz = Some (ds, None)"
  | (hit) k d' where "reuse_dedicated ds region_size now sz = Some (ds[k := d'], Some (d_offset (ds ! k)))"
      "k < length ds" "\<not> Bs ! k" "sz + 24 \<le> d_size (ds ! k)" "dedicated_ok d' True" "d_offset d' = d_offset (ds ! k)"
      "d_size d' = d_size (ds ! k)" "d_updated d' = now"
      "d_size (ds ! k) \<le> 2 ^ 32 \<Longrightarrow> read_buf_header (d_data d') 0 =
         Some \<lparr> h_offset = int (d_offset (ds ! k)), h_next = 0, h_len = sz, h_cap = d_size (ds ! k) - 24 \<rparr>"
  using assms(1)
proof (induction ds arbitrary: Bs thesis)
  case Nil
  then show ?case by simp
next
  case (Cons d ds)
  obtain b Bs' where B: "Bs = b # Bs'" "dedicated_ok d b" "dedicated_all_ok ds Bs'"
    using Cons.prems(3) by (auto simp: dedicated_all_ok_Cons)
  note freed = dedicated_is_freed_ok [OF B(2)]
  show ?case
  proof (cases "\<not> b \<and> d_size d \<ge> region_size \<and> d_size d \<le> region_size + MAX_BLOCK_SIZE")
    case True
    then obtain d' where a: "dedicated_alloc d now sz = Some (d', Some 0)" "dedicated_ok d' True" "d_offset d' = d_offset d"
      "d_size d' = d_size d" "d_size d \<le> 2 ^ 32 \<longrightarrow> read_buf_header (d_data d') 0 =
         Some \<lparr> h_offset = int (d_offset d), h_next = 0, h_len = sz, h_cap = d_size d - 24 \<rparr>"
      using dedicated_alloc_ok(2) [OF B(2), of sz now] assms(2) by auto
    show ?thesis
      by (rule Cons.prems(2) [of 0 d']) (use True a freed B assms(2) dedicated_alloc_stamp [OF a(1)] in auto)
  next
    case False
    then have step: "reuse_dedicated (d # ds) region_size now sz =
        map_option (\<lambda>(ds', res). (d # ds', res)) (reuse_dedicated ds region_size now sz)"
      using freed by (cases "reuse_dedicated ds region_size now sz") auto
    show ?thesis
    proof (rule Cons.IH [OF _ _ B(3)])
      assume "reuse_dedicated ds region_size now sz = Some (ds, None)"
      then show thesis using Cons.prems(1) step by simp
    next
      fix k d'
      assume a: "reuse_dedicated ds region_size now sz = Some (ds[k := d'], Some (d_offset (ds ! k)))"
        "k < length ds" "\<not> Bs' ! k" "sz + 24 \<le> d_size (ds ! k)" "dedicated_ok d' True" "d_offset d' = d_offset (ds ! k)"
        "d_size d' = d_size (ds ! k)" "d_updated d' = now"
        "d_size (ds ! k) \<le> 2 ^ 32 \<Longrightarrow> read_buf_header (d_data d') 0 =
         Some \<lparr> h_offset = int (d_offset (ds ! k)), h_next = 0, h_len = sz, h_cap = d_size (ds ! k) - 24 \<rparr>"
      show thesis by (rule Cons.prems(2) [of "Suc k" d']) (use a step B in auto)
    qed
  qed
qed

lemma dedicated_mark_stamp: "dedicated_mark_freed d now = Some (d', Inr ()) \<Longrightarrow> d_updated d' = now"
  by (auto simp: dedicated_mark_freed_def bind_eq_Some_conv split: if_splits)

lemma mark_freed_at_cases:
  assumes "dedicated_all_ok ds Bs"
  obtains
    (nothing) "mark_freed_at ds now g = Some ds" "\<And>k. k < length ds \<Longrightarrow> int (d_offset (ds ! k)) = g \<Longrightarrow> (\<And>j. j < k \<Longrightarrow> int (d_offset (ds ! j)) \<noteq> g) \<Longrightarrow> \<not> Bs ! k"
  | (freed) k d' where "mark_freed_at ds now g = Some (ds[k := d'])" "k < length ds" "Bs ! k" "int (d_offset (ds ! k)) = g"
      "dedicated_ok d' False" "d_offset d' = d_offset (ds ! k)" "d_size d' = d_size (ds ! k)" "d_updated d' = now"
  using assms
proof (induction ds arbitrary: Bs thesis)
  case Nil
  then show ?case by simp
next
  case (Cons d ds)
  obtain b Bs' where B: "Bs = b # Bs'" "dedicated_ok d b" "dedicated_all_ok ds Bs'"
    using Cons.prems(3) by (auto simp: dedicated_all_ok_Cons)
  show ?case
  proof (cases "int (d_offset d) = g")
    case True
    show ?thesis
    proof (cases b)
      case False
      show ?thesis
      proof (rule Cons.prems(1))
        show "mark_freed_at (d # ds) now g = Some (d # ds)" using dedicated_mark_freed_ok(1) [OF B(2) False, of now] True by simp
        fix k assume "\<And>j. j < k \<Longrightarrow> int (d_offset ((d # ds) ! j)) \<noteq> g"
        then show "\<not> Bs ! k" using True False B(1) by (cases k) force+
      qed
    next
      case b: True
      obtain d' where "dedicated_mark_freed d now = Some (d', Inr ())" "dedicated_ok d' False" "d_offset d' = d_offset d" "d_size d' = d_size d"
        using dedicated_mark_freed_ok(2) [OF B(2) b, of now] by blast
      then show ?thesis using Cons.prems(2) [of 0 d'] True b B dedicated_mark_stamp by auto
    qed
  next
    case False
    show ?thesis
    proof (rule Cons.IH [OF _ _ B(3)])
      assume a: "mark_freed_at ds now g = Some ds"
        "\<And>k. k < length ds \<Longrightarrow> int (d_offset (ds ! k)) = g \<Longrightarrow> (\<And>j. j < k \<Longrightarrow> int (d_offset (ds ! j)) \<noteq> g) \<Longrightarrow> \<not> Bs' ! k"
      show thesis
      proof (rule Cons.prems(1))
        show "mark_freed_at (d # ds) now g = Some (d # ds)" using False a(1) by simp
        fix k assume k: "k < length (d # ds)" "int (d_offset ((d # ds) ! k)) = g" "\<And>j. j < k \<Longrightarrow> int (d_offset ((d # ds) ! j)) \<noteq> g"
        then obtain i where i: "k = Suc i" using False by (cases k) auto
        have "int (d_offset (ds ! j)) \<noteq> g" if "j < i" for j using k(3) [of "Suc j"] that i by simp
        then show "\<not> Bs ! k" using a(2) [of i] k(1,2) i B(1) by simp
      qed
    next
      fix k d'
      assume "mark_freed_at ds now g = Some (ds[k := d'])" "k < length ds" "Bs' ! k" "int (d_offset (ds ! k)) = g"
        "dedicated_ok d' False" "d_offset d' = d_offset (ds ! k)" "d_size d' = d_size (ds ! k)" "d_updated d' = now"
      then show thesis using Cons.prems(2) [of "Suc k" d'] False B by auto
    qed
  qed
qed

lemma prune_dedicated_ok:
  assumes "dedicated_all_ok ds Bs"
  shows "\<exists>es. prune_dedicated now ds = Some es \<and> dedicated_all_ok es Bs \<and> map d_offset es = map d_offset ds \<and>
    map d_size es = map d_size ds \<and> map d_data es = map d_data ds"
  using assms
proof (induction ds arbitrary: Bs)
  case (Cons d ds)
  obtain b Bs' where B: "Bs = b # Bs'" "dedicated_ok d b" "d_updated d = DEDICATED_REGION_PUNCHED \<longrightarrow> \<not> b" "dedicated_all_ok ds Bs'"
    using Cons.prems(1) by (auto simp: dedicated_all_ok_Cons)
  obtain es where es: "prune_dedicated now ds = Some es" "dedicated_all_ok es Bs'" "map d_offset es = map d_offset ds"
    "map d_size es = map d_size ds" "map d_data es = map d_data ds" using Cons.IH [OF B(4)] by blast
  have "\<exists>e. prune_dedicated_one now d = Some e \<and> dedicated_ok e b \<and> (d_updated e = DEDICATED_REGION_PUNCHED \<longrightarrow> \<not> b) \<and>
      d_offset e = d_offset d \<and> d_size e = d_size d \<and> d_data e = d_data d"
    using B(2,3) dedicated_is_freed_ok [OF B(2)]
    by (auto simp: prune_dedicated_one_def dedicated_set_updated_def dedicated_ok_def)
  then show ?case using es B(1) by (auto simp: dedicated_all_ok_Cons)
qed (simp add: dedicated_all_ok_def)

section \<open>The segment as a whole\<close>

lemma shared_find:
  assumes "shared_ok rs Ls" "k < length rs" "d < SHARED_REGION_SIZE"
  shows "find (in_shared (RQ_SIZE + k * SHARED_REGION_SIZE + d)) rs = Some (rs ! k)"
  unfolding find_Some_iff
proof (intro exI [of _ k] conjI allI impI)
  show "in_shared (RQ_SIZE + k * SHARED_REGION_SIZE + d) (rs ! k)"
    using shared_okD(3,4) [OF assms(1,2)] assms(3) by (simp add: in_shared_def)
  fix j assume "j < k"
  then have "Suc j * SHARED_REGION_SIZE \<le> k * SHARED_REGION_SIZE" by (intro mult_le_mono1) simp
  then show "\<not> in_shared (RQ_SIZE + k * SHARED_REGION_SIZE + d) (rs ! j)"
    using shared_okD(3,4) [OF assms(1), of j] assms(2) \<open>j < k\<close> by (simp add: in_shared_def)
qed (use assms in simp_all)

lemma segment_shared:
  assumes "lm_ok m Ls Bs" "k < length (lm_shared m)" "d < SHARED_REGION_SIZE"
  shows "abytes (segment m) (RQ_SIZE + k * SHARED_REGION_SIZE + d) = abytes (r_data (lm_shared m ! k)) d"
  using shared_find [OF lm_okD(1) [OF assms(1)] assms(2,3)] shared_okD(3) [OF lm_okD(1) [OF assms(1)] assms(2)]
  by (simp add: segment_def)

lemma dedicated_above:
  assumes "lm_ok m Ls Bs" "k < length (lm_dedicated m)"
  shows "lm_max_shared_offset m \<le> d_offset (lm_dedicated m ! k)"
    "d_offset (lm_dedicated m ! k) + d_size (lm_dedicated m ! k) \<le> lm_size m" "24 \<le> d_size (lm_dedicated m ! k)"
  using stacked_bounds [OF lm_okD(3) [OF assms(1)], of "lm_dedicated m ! k"] lm_okD(5) [OF assms(1)] assms(2)
    dedicated_all_okD(2) [OF lm_okD(2) [OF assms(1)] assms(2)] by (auto simp: dedicated_ok_def)

lemma segment_dedicated:
  assumes "lm_ok m Ls Bs" "k < length (lm_dedicated m)" "i < d_size (lm_dedicated m ! k)"
  shows "abytes (segment m) (d_offset (lm_dedicated m ! k) + i) = abytes (d_data (lm_dedicated m ! k)) i"
proof -
  let ?ds = "lm_dedicated m"
  let ?g = "d_offset (?ds ! k) + i"
  have "\<not> in_shared ?g r" if r: "r \<in> set (lm_shared m)" for r
  proof -
    obtain j where j: "j < length (lm_shared m)" "r = lm_shared m ! j" using r by (auto simp: in_set_conv_nth)
    have "Suc j * SHARED_REGION_SIZE \<le> length (lm_shared m) * SHARED_REGION_SIZE" using j(1) by (intro mult_le_mono1) simp
    then show ?thesis
      using shared_okD(3,4) [OF lm_okD(1) [OF assms(1)] j(1)] j(2) dedicated_above(1) [OF assms(1,2)] lm_okD(4) [OF assms(1)]
      by (simp add: in_shared_def)
  qed
  then have "find (in_shared ?g) (lm_shared m) = None" by (simp add: find_None_iff)
  moreover have "find (in_dedicated ?g) ?ds = Some (?ds ! k)"
    unfolding find_Some_iff
  proof (intro exI [of _ k] conjI allI impI)
    fix j assume "j < k"
    then show "\<not> in_dedicated ?g (?ds ! j)"
      using stacked_disjoint [OF lm_okD(3) [OF assms(1)] \<open>j < k\<close> assms(2)] assms(3) by (simp add: in_dedicated_def)
  qed (use assms in \<open>simp_all add: in_dedicated_def\<close>)
  ultimately show ?thesis by (simp add: segment_def)
qed

lemma lives_cases:
  assumes "lm_ok m Ls Bs" "lives m Ls Bs g = Some c"
  obtains
    (shared) k d where "g = RQ_SIZE + k * SHARED_REGION_SIZE + d" "k < length (lm_shared m)" "(Ls ! k) d = Some c"
      "8 \<le> d" "d + c \<le> SHARED_REGION_SIZE" "24 \<le> c"
  | (dedicated) k where "k < length (lm_dedicated m)" "Bs ! k" "g = d_offset (lm_dedicated m ! k)" "c = d_size (lm_dedicated m ! k)"
proof (cases "g < lm_max_shared_offset m")
  case True
  then have s: "shared_lives Ls g = Some c" using assms(2) by (simp add: lives_def)
  let ?k = "region_index g" and ?d = "(g - RQ_SIZE) mod SHARED_REGION_SIZE"
  have g: "RQ_SIZE \<le> g" "?k < length Ls" "(Ls ! ?k) ?d = Some c" using s by (auto simp: shared_lives_def split: if_splits)
  have k: "?k < length (lm_shared m)" using g(2) lm_okD(1) [OF assms(1)] by (simp add: shared_ok_def)
  note r = shared_okD [OF lm_okD(1) [OF assms(1)] k]
  show thesis
    by (rule shared [OF region_split [OF g(1)] k g(3)])
      (use region_live_bounds [OF r(2) g(3)] region_okD(7) [OF r(2) g(3)] r(4) in simp_all)
next
  case False
  then have "dedicated_lives (lm_dedicated m) Bs g = Some c" using assms(2) by (simp add: lives_def)
  then show thesis using dedicated dedicated_lives_Some [OF lm_okD(3,2) [OF assms(1)], of g c] by metis
qed

lemma lives_shared:
  assumes "lm_ok m Ls Bs" "k < length (lm_shared m)" "d < SHARED_REGION_SIZE"
  shows "lives m Ls Bs (RQ_SIZE + k * SHARED_REGION_SIZE + d) = (Ls ! k) d"
proof -
  have "Suc k * SHARED_REGION_SIZE \<le> length (lm_shared m) * SHARED_REGION_SIZE" using assms(2) by (intro mult_le_mono1) simp
  then have "RQ_SIZE + k * SHARED_REGION_SIZE + d < lm_max_shared_offset m" using lm_okD(4) [OF assms(1)] assms(3) by simp
  then show ?thesis
    using shared_lives_at [of k Ls d] assms lm_okD(1) [OF assms(1)] by (simp add: lives_def shared_ok_def)
qed

lemma lives_dedicated:
  assumes "lm_ok m Ls Bs" "k < length (lm_dedicated m)"
  shows "lives m Ls Bs (d_offset (lm_dedicated m ! k)) = (if Bs ! k then Some (d_size (lm_dedicated m ! k)) else None)"
proof -
  let ?g = "d_offset (lm_dedicated m ! k)"
  have "\<not> ?g < lm_max_shared_offset m" using dedicated_above(1) [OF assms] by simp
  then have l: "lives m Ls Bs ?g = dedicated_lives (lm_dedicated m) Bs ?g" by (simp add: lives_def)
  show ?thesis
  proof (cases "Bs ! k")
    case True
    then show ?thesis using dedicated_lives_Some [OF lm_okD(3,2) [OF assms(1)], of ?g] assms(2) l by auto
  next
    case False
    have "dedicated_lives (lm_dedicated m) Bs ?g \<noteq> Some c" for c
      using dedicated_lives_Some [OF lm_okD(3,2) [OF assms(1)], of ?g c]
        stacked_offset_inj [OF lm_okD(3,2) [OF assms(1)] _ assms(2)] False by metis
    then show ?thesis using False l by auto
  qed
qed

text \<open>The bytes of the live buffers \<open>G\<close> are the same before and after.\<close>

definition live_frame :: "live \<Rightarrow> local_manager \<Rightarrow> local_manager \<Rightarrow> bool" where
  "live_frame G m m' \<longleftrightarrow> (\<forall>g c i. G g = Some c \<longrightarrow> g \<le> i \<longrightarrow> i < g + c \<longrightarrow> abytes (segment m') i = abytes (segment m) i)"

definition lm_same :: "local_manager \<Rightarrow> local_manager \<Rightarrow> bool" where
  "lm_same m m' \<longleftrightarrow> lm_size m' = lm_size m \<and> lm_min_shared m' = lm_min_shared m \<and>
     lm_max_shared_payload m' = lm_max_shared_payload m \<and> lm_max_shared_offset m' = lm_max_shared_offset m \<and> lm_closed m' = lm_closed m"

lemma lm_same_refl [simp]: "lm_same m m"
  by (simp add: lm_same_def)

lemma lm_same_trans: "lm_same m m' \<Longrightarrow> lm_same m' m'' \<Longrightarrow> lm_same m m''"
  by (simp add: lm_same_def)

lemma live_frame_trans: "live_frame G m m' \<Longrightarrow> live_frame G m' m'' \<Longrightarrow> live_frame G m m''"
  by (auto simp: live_frame_def)

lemma live_frame_sub: "live_frame G m m' \<Longrightarrow> (\<And>g c. H g = Some c \<Longrightarrow> G g = Some c) \<Longrightarrow> live_frame H m m'"
  by (auto simp: live_frame_def)

lemma live_frameI:
  assumes ok: "lm_ok m Ls Bs" "lm_ok m' Ls' Bs'"
    and sh: "length (lm_shared m') = length (lm_shared m)"
      "\<And>k d c i. k < length (lm_shared m) \<Longrightarrow> (Ls ! k) d = Some c \<Longrightarrow> H (RQ_SIZE + k * SHARED_REGION_SIZE + d) \<noteq> None \<Longrightarrow>
         d \<le> i \<Longrightarrow> i < d + c \<Longrightarrow> abytes (r_data (lm_shared m' ! k)) i = abytes (r_data (lm_shared m ! k)) i"
    and de: "\<And>k. k < length (lm_dedicated m) \<Longrightarrow> Bs ! k \<Longrightarrow> H (d_offset (lm_dedicated m ! k)) \<noteq> None \<Longrightarrow>
         k < length (lm_dedicated m') \<and> d_offset (lm_dedicated m' ! k) = d_offset (lm_dedicated m ! k) \<and>
         d_size (lm_dedicated m' ! k) = d_size (lm_dedicated m ! k) \<and> d_data (lm_dedicated m' ! k) = d_data (lm_dedicated m ! k)"
    and H: "\<And>g c. H g = Some c \<Longrightarrow> lives m Ls Bs g = Some c"
  shows "live_frame H m m'"
  unfolding live_frame_def
proof (intro allI impI)
  fix g c i assume g: "H g = Some c" "g \<le> i" "i < g + c"
  show "abytes (segment m') i = abytes (segment m) i"
    using ok(1) H [OF g(1)]
  proof (cases rule: lives_cases)
    case (shared k d)
    let ?j = "i - (RQ_SIZE + k * SHARED_REGION_SIZE)"
    have i: "i = RQ_SIZE + k * SHARED_REGION_SIZE + ?j" "?j < SHARED_REGION_SIZE" "d \<le> ?j" "?j < d + c"
      using g shared by linarith+
    have "abytes (r_data (lm_shared m' ! k)) ?j = abytes (r_data (lm_shared m ! k)) ?j"
      using sh(2) [OF shared(2,3)] i(3,4) g(1) shared(1) by simp
    then show ?thesis
      using segment_shared [OF ok(1) shared(2) i(2)] segment_shared [OF ok(2) _ i(2), of k] sh(1) shared(2) i(1) by simp
  next
    case (dedicated k)
    let ?j = "i - d_offset (lm_dedicated m ! k)"
    have i: "i = d_offset (lm_dedicated m ! k) + ?j" "?j < d_size (lm_dedicated m ! k)" using g dedicated by linarith+
    note d = de [OF dedicated(1,2)]
    show ?thesis
      using segment_dedicated [OF ok(1) dedicated(1) i(2)] segment_dedicated [OF ok(2), of k ?j] d g(1) dedicated(3) i by simp
  qed
qed

section \<open>Operations on the live buffers\<close>

lemma read_buf_header_window:
  assumes "read_buf_header ar p = Some h" "g + 24 \<le> alen br" "\<And>i. i < 24 \<Longrightarrow> abytes br (g + i) = abytes ar (p + i)"
  shows "read_buf_header br g = Some h"
proof -
  have "map (abytes br) [g..<g + 24] = map (abytes ar) [p..<p + 24]"
    by (rule nth_equalityI) (use assms(3) in auto)
  then show ?thesis using assms(1,2)
    by (auto simp: read_buf_header_def arena_get_def DYNSHM_BUFFER_HEADER_SIZE_def split: if_splits)
qed

lemma option_eqI: "(\<And>c. x = Some c \<longleftrightarrow> y = Some c) \<Longrightarrow> x = y"
  by (cases x; cases y) auto

lemma dedicated_lives_update:
  assumes s: "stacked hi ds off" "dedicated_all_ok ds Bs" "dedicated_all_ok es (Bs[k := b])" and k: "k < length ds"
    and same: "map d_offset es = map d_offset ds" "map d_size es = map d_size ds"
  shows "dedicated_lives es (Bs[k := b]) = (dedicated_lives ds Bs)(d_offset (ds ! k) := if b then Some (d_size (ds ! k)) else None)"
proof (rule ext, rule option_eqI)
  fix g c
  have len: "length es = length ds" using same(1) by (metis length_map)
  have off: "d_offset (es ! j) = d_offset (ds ! j)" "d_size (es ! j) = d_size (ds ! j)" if "j < length ds" for j
    using same len that by (metis nth_map)+
  have es: "stacked hi es off" using s(1) off stacked_cong [OF len] by blast
  have B: "length Bs = length ds" using s(2) by (simp add: dedicated_all_ok_def)
  note inj = stacked_offset_inj [OF s(1,2) _ k]
  show "dedicated_lives es (Bs[k := b]) g = Some c \<longleftrightarrow>
      ((dedicated_lives ds Bs)(d_offset (ds ! k) := if b then Some (d_size (ds ! k)) else None)) g = Some c"
  proof (cases "g = d_offset (ds ! k)")
    case True
    have "dedicated_lives es (Bs[k := b]) g = Some c \<longleftrightarrow> b \<and> c = d_size (ds ! k)"
      unfolding dedicated_lives_Some [OF es s(3)] len
    proof
      assume "\<exists>j<length ds. Bs[k := b] ! j \<and> d_offset (es ! j) = g \<and> c = d_size (es ! j)"
      then obtain j where j: "j < length ds" "Bs[k := b] ! j" "d_offset (es ! j) = g" "c = d_size (es ! j)" by blast
      then have "j = k" using inj off(1) True by simp
      then show "b \<and> c = d_size (ds ! k)" using j off(2) k B by simp
    next
      assume "b \<and> c = d_size (ds ! k)"
      then show "\<exists>j<length ds. Bs[k := b] ! j \<and> d_offset (es ! j) = g \<and> c = d_size (es ! j)"
        using off k B True by (intro exI [of _ k]) simp
    qed
    then show ?thesis using True by auto
  next
    case False
    have "dedicated_lives es (Bs[k := b]) g = Some c \<longleftrightarrow> dedicated_lives ds Bs g = Some c"
      unfolding dedicated_lives_Some [OF es s(3)] dedicated_lives_Some [OF s(1,2)] len
      using False off k B by (metis nth_list_update_neq)
    then show ?thesis using False by simp
  qed
qed

lemma dedicated_lives_append:
  assumes "length Bs = length ds" "\<And>e. e \<in> set ds \<Longrightarrow> d_offset e \<noteq> d_offset d"
  shows "dedicated_lives (ds @ [d]) (Bs @ [True]) = (dedicated_lives ds Bs)(d_offset d \<mapsto> d_size d)"
proof
  fix g
  let ?P = "\<lambda>(e, b). b \<and> d_offset e = g"
  have ap: "find ?P (zip (ds @ [d]) (Bs @ [True])) = (case find ?P (zip ds Bs) of Some p \<Rightarrow> Some p | None \<Rightarrow> if d_offset d = g then Some (d, True) else None)"
    using assms(1) [symmetric] by (induction ds Bs rule: list_induct2) auto
  have no: "find ?P (zip ds Bs) = None" if "d_offset d = g"
    using assms(2) that by (auto simp: find_None_iff dest: set_zip_leftD)
  show "dedicated_lives (ds @ [d]) (Bs @ [True]) g = ((dedicated_lives ds Bs)(d_offset d \<mapsto> d_size d)) g"
    unfolding dedicated_lives_def ap using no by (auto split: option.splits)
qed

lemma lives_shared_update:
  assumes "lm_ok m Ls Bs" "k < length (lm_shared m)" "d < SHARED_REGION_SIZE" "lm_max_shared_offset m' = lm_max_shared_offset m"
    "lm_dedicated m' = lm_dedicated m"
  shows "lives m' (Ls[k := (Ls ! k)(d := x)]) Bs = (lives m Ls Bs)(RQ_SIZE + k * SHARED_REGION_SIZE + d := x)"
proof -
  have "Suc k * SHARED_REGION_SIZE \<le> length (lm_shared m) * SHARED_REGION_SIZE" using assms(2) by (intro mult_le_mono1) simp
  then have "RQ_SIZE + k * SHARED_REGION_SIZE + d < lm_max_shared_offset m" using lm_okD(4) [OF assms(1)] assms(3) by simp
  moreover have "k < length Ls" using assms(2) lm_okD(1) [OF assms(1)] by (simp add: shared_ok_def)
  ultimately show ?thesis
    using shared_lives_update [OF _ assms(3), of k Ls x] assms(4,5) by (auto simp: lives_def fun_eq_iff)
qed

lemma lives_dedicated_eq:
  assumes "lm_ok m Ls Bs" "lm_max_shared_offset m' = lm_max_shared_offset m" "lm_max_shared_offset m \<le> g"
    "dedicated_lives (lm_dedicated m') Bs' = (dedicated_lives (lm_dedicated m) Bs)(g := x)"
  shows "lives m' Ls Bs' = (lives m Ls Bs)(g := x)"
  using assms(2-4) by (auto simp: lives_def fun_eq_iff)

text \<open>What a successful allocation of \<open>sz\<close> bytes at \<open>g\<close> means for the manager and the segment.\<close>

definition alloc_done :: "local_manager \<Rightarrow> live \<Rightarrow> nat \<Rightarrow> local_manager \<Rightarrow> live \<Rightarrow> nat \<Rightarrow> bool" where
  "alloc_done m G sz m' G' g \<longleftrightarrow> (\<exists>c. G g = None \<and> G' = G(g \<mapsto> c) \<and> 24 + sz \<le> c \<and>
     read_buf_header (segment m') g = Some \<lparr> h_offset = int g, h_next = 0, h_len = sz, h_cap = c - 24 \<rparr>) \<and>
     lm_same m m' \<and> lm_rq m' = lm_rq m \<and> live_frame G m m'"

lemma alloc_doneI:
  "G g = None \<Longrightarrow> G' = G(g \<mapsto> c) \<Longrightarrow> 24 + sz \<le> c \<Longrightarrow>
   read_buf_header (segment m') g = Some \<lparr> h_offset = int g, h_next = 0, h_len = sz, h_cap = c - 24 \<rparr> \<Longrightarrow>
   live_frame G m m' \<Longrightarrow> lm_same m m' \<Longrightarrow> lm_rq m' = lm_rq m \<Longrightarrow> alloc_done m G sz m' G' g"
  unfolding alloc_done_def by blast

lemma dedicated_reuse:
  assumes ok: "lm_ok m Ls Bs" and k: "k < length (lm_dedicated m)" "\<not> Bs ! k" and fit: "sz + 24 \<le> d_size (lm_dedicated m ! k)"
    and d': "dedicated_ok d' True" "d_offset d' = d_offset (lm_dedicated m ! k)" "d_size d' = d_size (lm_dedicated m ! k)"
      "d_updated d' \<noteq> DEDICATED_REGION_PUNCHED"
    and hd: "d_size (lm_dedicated m ! k) \<le> 2 ^ 32 \<Longrightarrow> read_buf_header (d_data d') 0 = Some \<lparr> h_offset = int (d_offset (lm_dedicated m ! k)),
       h_next = 0, h_len = sz, h_cap = d_size (lm_dedicated m ! k) - 24 \<rparr>"
    and m': "m' = m \<lparr> lm_dedicated := (lm_dedicated m)[k := d'] \<rparr>"
  shows "lm_ok m' Ls (Bs[k := True])"
    "alloc_done m (lives m Ls Bs) sz m' (lives m' Ls (Bs[k := True])) (d_offset (lm_dedicated m ! k))"
proof -
  let ?ds = "lm_dedicated m" and ?g = "d_offset (lm_dedicated m ! k)"
  note D = lm_okD [OF ok] and ab = dedicated_above [OF ok k(1)]
  have all: "dedicated_all_ok (?ds[k := d']) (Bs[k := True])"
    by (rule dedicated_all_ok_update [OF D(2) k(1) d'(1)]) (use d'(4) in simp)
  have same: "map d_offset (?ds[k := d']) = map d_offset ?ds" "map d_size (?ds[k := d']) = map d_size ?ds"
    using k(1) d'(2,3) by (simp_all add: map_update list_update_same_conv)
  have "stacked (lm_size m) (?ds[k := d']) (lm_ded_offset m)"
    using D(3) stacked_cong [of "?ds[k := d']" ?ds "lm_size m" "lm_ded_offset m"] k(1) d'(2,3) by (simp add: nth_list_update)
  then show ok': "lm_ok m' Ls (Bs[k := True])" using ok all by (simp add: lm_ok_def m')
  have none: "lives m Ls Bs ?g = None" using lives_dedicated [OF ok k(1)] k(2) by simp
  have liv: "lives m' Ls (Bs[k := True]) = (lives m Ls Bs)(?g \<mapsto> d_size (?ds ! k))"
    by (rule lives_dedicated_eq [OF ok]) (use ab D(5) dedicated_lives_update [OF D(3,2) all k(1) same] in \<open>simp_all add: m'\<close>)
  have fr: "live_frame (lives m Ls Bs) m m'"
    by (rule live_frameI [OF ok ok']) (use k in \<open>auto simp: nth_list_update m'\<close>)
  have "read_buf_header (segment m') ?g = Some \<lparr> h_offset = int ?g, h_next = 0, h_len = sz, h_cap = d_size (?ds ! k) - 24 \<rparr>"
  proof (rule read_buf_header_window)
    show "read_buf_header (d_data d') 0 = Some \<lparr> h_offset = int ?g, h_next = 0, h_len = sz, h_cap = d_size (?ds ! k) - 24 \<rparr>"
      by (rule hd) (use ab D(7) in linarith)
    show "?g + 24 \<le> alen (segment m')" using ab by (simp add: segment_def m')
    show "abytes (segment m') (?g + i) = abytes (d_data d') (0 + i)" if "i < 24" for i
      using segment_dedicated [OF ok', of k i] k(1) d'(2,3) ab that by (simp add: m')
  qed
  then show "alloc_done m (lives m Ls Bs) sz m' (lives m' Ls (Bs[k := True])) ?g"
    using alloc_doneI [OF none liv _ _ fr] fit by (simp add: m' lm_same_def)
qed

lemma dedicated_carve:
  assumes ok: "lm_ok m Ls Bs" and d': "dedicated_ok d' True" "d_offset d' + d_size d' = lm_ded_offset m"
      "d_updated d' \<noteq> DEDICATED_REGION_PUNCHED" and room: "lm_max_shared_offset m \<le> d_offset d'" and fit: "sz + 24 \<le> d_size d'"
    and hd: "d_size d' \<le> 2 ^ 32 \<Longrightarrow> read_buf_header (d_data d') 0 = Some \<lparr> h_offset = int (d_offset d'),
       h_next = 0, h_len = sz, h_cap = d_size d' - 24 \<rparr>"
    and m': "m' = m \<lparr> lm_dedicated := lm_dedicated m @ [d'], lm_ded_offset := d_offset d' \<rparr>"
  shows "lm_ok m' Ls (Bs @ [True])" "alloc_done m (lives m Ls Bs) sz m' (lives m' Ls (Bs @ [True])) (d_offset d')"
proof -
  let ?ds = "lm_dedicated m" and ?g = "d_offset d'"
  note D = lm_okD [OF ok]
  have len: "length Bs = length ?ds" using D(2) by (simp add: dedicated_all_ok_def)
  have "dedicated_all_ok (?ds @ [d']) (Bs @ [True])"
    using D(2) d'(1,3) by (auto simp: dedicated_all_ok_def nth_append less_Suc_eq)
  then show ok': "lm_ok m' Ls (Bs @ [True])" using ok room d'(2) by (simp add: lm_ok_def stacked_append m')
  have new: "d_offset x \<noteq> ?g" if "x \<in> set ?ds" for x
    using stacked_bounds [OF D(3) that] d'(2) fit by linarith
  have none: "lives m Ls Bs ?g = None"
  proof (rule ccontr)
    assume "lives m Ls Bs ?g \<noteq> None"
    then obtain c where "dedicated_lives ?ds Bs ?g = Some c" using room by (auto simp: lives_def)
    then show False using dedicated_lives_Some [OF D(3,2)] new by (metis nth_mem)
  qed
  have liv: "lives m' Ls (Bs @ [True]) = (lives m Ls Bs)(?g \<mapsto> d_size d')"
    by (rule lives_dedicated_eq [OF ok]) (use room dedicated_lives_append [OF len new] in \<open>simp_all add: m'\<close>)
  have fr: "live_frame (lives m Ls Bs) m m'"
    by (rule live_frameI [OF ok ok']) (auto simp: nth_append m')
  have hi: "?g + d_size d' \<le> lm_size m" using d'(2) stacked_le [OF D(3)] by simp
  have "read_buf_header (segment m') ?g = Some \<lparr> h_offset = int ?g, h_next = 0, h_len = sz, h_cap = d_size d' - 24 \<rparr>"
  proof (rule read_buf_header_window)
    show "read_buf_header (d_data d') 0 = Some \<lparr> h_offset = int ?g, h_next = 0, h_len = sz, h_cap = d_size d' - 24 \<rparr>"
      by (rule hd) (use hi D(7) in linarith)
    show "?g + 24 \<le> alen (segment m')" using hi fit by (simp add: segment_def m')
    show "abytes (segment m') (?g + i) = abytes (d_data d') (0 + i)" if "i < 24" for i
      using segment_dedicated [OF ok', of "length ?ds" i] fit that by (simp add: m')
  qed
  then show "alloc_done m (lives m Ls Bs) sz m' (lives m' Ls (Bs @ [True])) ?g"
    using alloc_doneI [OF none liv _ _ fr] fit by (simp add: m' lm_same_def)
qed

lemma alloc_dedicated_cases:
  assumes ok: "lm_ok m Ls Bs" and now: "0 < now"
  obtains
    (fail) "alloc_dedicated m now sz = Some (m, Inl NoSpace)"
  | (hit) m' Bs' g where "alloc_dedicated m now sz = Some (m', Inr g)" "lm_ok m' Ls Bs'" "alloc_done m (lives m Ls Bs) sz m' (lives m' Ls Bs') g"
proof (cases "calc_dedicated_region_size sz = 0")
  case True
  then show thesis using fail by (simp add: alloc_dedicated_def)
next
  case rs: False
  let ?R = "calc_dedicated_region_size sz" and ?ds = "lm_dedicated m"
  note R = calc_dedicated_region_size_bounds [OF rs] and D = lm_okD [OF ok]
  show thesis
    using D(2) R(1)
  proof (cases rule: reuse_dedicated_cases [where now = now])
    case (hit k d')
    have "d_updated d' \<noteq> DEDICATED_REGION_PUNCHED" using hit(8) now by (simp add: DEDICATED_REGION_PUNCHED_def)
    note r = dedicated_reuse [OF ok hit(2-7) this hit(9) HOL.refl]
    show thesis by (rule that(2) [OF _ r]) (use rs hit(1) in \<open>simp_all add: alloc_dedicated_def\<close>)
  next
    case miss
    let ?off = "lm_ded_offset m - ?R"
    show thesis
    proof (cases "?R \<le> lm_ded_offset m \<and> lm_max_shared_offset m \<le> ?off")
      case False
      then have "alloc_dedicated m now sz = Some (m, Inl NoSpace)"
        using rs miss by (auto simp: alloc_dedicated_def checked_sub_def Let_def)
      then show thesis by (rule fail)
    next
      case room: True
      have "0 < lm_max_shared_offset m" using D(4) by (simp add: RQ_SIZE_def PAGE_SIZE_def)
      then have pos: "0 < ?off" using room by linarith
      have fits: "?off + ?R < 2 ^ 63" using room stacked_le [OF D(3)] D(7) by simp
      have "\<exists>ar. write_buf_header (arena_window (lm_seg m) ?off ?R) 0 h = Some ar" for h
        by (rule write_buf_header_total) (use R(3) in \<open>simp add: arena_window_def\<close>)
      then obtain e where e: "dedicated_new (arena_window (lm_seg m) ?off ?R) ?R ?off = Some e"
        unfolding dedicated_new_def by (metis bind.bind_lunit)
      note eo = dedicated_new_ok [OF e R(3) _ pos fits]
      obtain d' where d': "dedicated_alloc e now sz = Some (d', Some 0)" "dedicated_ok d' True" "d_offset d' = ?off" "d_size d' = ?R"
        "?R \<le> 2 ^ 32 \<longrightarrow> read_buf_header (d_data d') 0 = Some \<lparr> h_offset = int ?off, h_next = 0, h_len = sz, h_cap = ?R - 24 \<rparr>"
        using dedicated_alloc_ok(2) [of e False sz now] eo R(1) by (auto simp: arena_window_def)
      have "d_updated d' \<noteq> DEDICATED_REGION_PUNCHED" using dedicated_alloc_stamp [OF d'(1)] now by (simp add: DEDICATED_REGION_PUNCHED_def)
      note r = dedicated_carve [OF ok d'(2) _ this _ _ _ HOL.refl, of sz]
      show thesis
        by (rule that(2) [OF _ r]) (use room rs miss e d' R(1) in \<open>simp_all add: alloc_dedicated_def checked_sub_def Let_def\<close>)
    qed
  qed
qed

lemma lm_okI_shared:
  assumes "lm_ok m Ls Bs" "shared_ok rs Ls'" "length rs = length (lm_shared m)"
  shows "lm_ok (m \<lparr> lm_shared := rs, lm_alloc_idx := i \<rparr>) Ls' Bs" "lm_ok (m \<lparr> lm_shared := rs \<rparr>) Ls' Bs"
  using assms by (simp_all add: lm_ok_def)

lemma segment_header:
  assumes "lm_ok m Ls Bs" "k < length (lm_shared m)" "d + 24 \<le> SHARED_REGION_SIZE" "read_buf_header (r_data (lm_shared m ! k)) d = Some h"
  shows "read_buf_header (segment m) (RQ_SIZE + k * SHARED_REGION_SIZE + d) = Some h"
proof (rule read_buf_header_window [OF assms(4)])
  have "Suc k * SHARED_REGION_SIZE \<le> length (lm_shared m) * SHARED_REGION_SIZE" using assms(2) by (intro mult_le_mono1) simp
  then show "RQ_SIZE + k * SHARED_REGION_SIZE + d + 24 \<le> alen (segment m)"
    using lm_okD(4,5) [OF assms(1)] stacked_le [OF lm_okD(3) [OF assms(1)]] assms(3) by (simp add: segment_def)
  show "abytes (segment m) (RQ_SIZE + k * SHARED_REGION_SIZE + d + i) = abytes (r_data (lm_shared m ! k)) (d + i)" if "i < 24" for i
    using segment_shared [OF assms(1,2), of "d + i"] assms(3) that by (simp add: add.assoc)
qed

lemma shared_place:
  assumes ok: "lm_ok m Ls Bs" and k: "k < length (lm_shared m)" and free: "(Ls ! k) d = None" and fit: "24 + sz \<le> c" "d + c \<le> SHARED_REGION_SIZE"
    and rs: "shared_ok rs (Ls[k := (Ls ! k)(d \<mapsto> c)])" "shared_frame Ls (lm_shared m) rs"
    and hd: "read_buf_header (r_data (rs ! k)) d =
         Some \<lparr> h_offset = int (RQ_SIZE + k * SHARED_REGION_SIZE + d), h_next = 0, h_len = sz, h_cap = c - 24 \<rparr>"
    and m': "m' = m \<lparr> lm_shared := rs, lm_alloc_idx := i \<rparr>"
  shows "lm_ok m' (Ls[k := (Ls ! k)(d \<mapsto> c)]) Bs"
    "alloc_done m (lives m Ls Bs) sz m' (lives m' (Ls[k := (Ls ! k)(d \<mapsto> c)]) Bs) (RQ_SIZE + k * SHARED_REGION_SIZE + d)"
proof -
  have len: "length rs = length (lm_shared m)" using rs(2) by (simp add: shared_frame_def)
  have d: "d < SHARED_REGION_SIZE" using fit by simp
  show ok': "lm_ok m' (Ls[k := (Ls ! k)(d \<mapsto> c)]) Bs" unfolding m' by (rule lm_okI_shared [OF ok rs(1) len])
  have none: "lives m Ls Bs (RQ_SIZE + k * SHARED_REGION_SIZE + d) = None" using lives_shared [OF ok k d] free by simp
  have liv: "lives m' (Ls[k := (Ls ! k)(d \<mapsto> c)]) Bs = (lives m Ls Bs)(RQ_SIZE + k * SHARED_REGION_SIZE + d \<mapsto> c)"
    by (rule lives_shared_update [OF ok k d]) (simp_all add: m')
  have fr: "live_frame (lives m Ls Bs) m m'"
    by (rule live_frameI [OF ok ok']) (use rs(2) in \<open>auto simp: m' shared_frame_def\<close>)
  have hd': "read_buf_header (segment m') (RQ_SIZE + k * SHARED_REGION_SIZE + d) =
       Some \<lparr> h_offset = int (RQ_SIZE + k * SHARED_REGION_SIZE + d), h_next = 0, h_len = sz, h_cap = c - 24 \<rparr>"
    by (rule segment_header [OF ok']) (use k len fit hd in \<open>simp_all add: m'\<close>)
  show "alloc_done m (lives m Ls Bs) sz m' (lives m' (Ls[k := (Ls ! k)(d \<mapsto> c)]) Bs) (RQ_SIZE + k * SHARED_REGION_SIZE + d)"
    by (rule alloc_doneI [OF none liv fit(1) hd' fr]) (simp_all add: m' lm_same_def)
qed

text \<open>Nothing that a client can see changed.\<close>

definition lm_keeps :: "local_manager \<Rightarrow> live \<Rightarrow> local_manager \<Rightarrow> bool" where
  "lm_keeps m G m' \<longleftrightarrow> lm_inv m' G \<and> lm_same m m' \<and> lm_rq m' = lm_rq m \<and> live_frame G m m'"

lemma lm_invI: "lm_ok m Ls Bs \<Longrightarrow> G = lives m Ls Bs \<Longrightarrow> lm_inv m G"
  unfolding lm_inv_def by blast

lemma shared_miss:
  assumes "lm_ok m Ls Bs" "shared_ok rs Ls" "shared_frame Ls (lm_shared m) rs" "m' = m \<lparr> lm_shared := rs, lm_alloc_idx := i \<rparr>"
  shows "lm_ok m' Ls Bs" "lm_keeps m (lives m Ls Bs) m'" "lives m' Ls Bs = lives m Ls Bs"
proof -
  have len: "length rs = length (lm_shared m)" using assms(3) by (simp add: shared_frame_def)
  show ok': "lm_ok m' Ls Bs" using lm_okI_shared(1) [OF assms(1,2) len] assms(4) by simp
  have "live_frame (lives m Ls Bs) m m'"
    by (rule live_frameI [OF assms(1) ok']) (use assms(3,4) in \<open>auto simp: shared_frame_def\<close>)
  moreover show l: "lives m' Ls Bs = lives m Ls Bs" by (simp add: assms(4) lives_def fun_eq_iff)
  moreover have "lm_inv m' (lives m Ls Bs)" using lm_invI [OF ok'] l by simp
  ultimately show "lm_keeps m (lives m Ls Bs) m'" by (simp add: lm_keeps_def lm_same_def assms(4))
qed

lemma alloc_done_after:
  assumes "lm_keeps m G m1" "alloc_done m1 G sz m' G' g"
  shows "alloc_done m G sz m' G' g"
proof -
  have k: "lm_same m m1" "lm_rq m1 = lm_rq m" "live_frame G m m1" using assms(1) by (simp_all add: lm_keeps_def)
  have a: "lm_same m1 m'" "lm_rq m' = lm_rq m1" "live_frame G m1 m'" using assms(2) by (simp_all add: alloc_done_def)
  have rq: "lm_rq m' = lm_rq m" using k(2) a(2) by simp
  show ?thesis
    using assms(2) lm_same_trans [OF k(1) a(1)] live_frame_trans [OF k(3) a(3)] rq unfolding alloc_done_def by blast
qed

lemma shared_indices:
  assumes "lm_min_shared m \<le> n"
  shows "\<forall>k\<in>set (map (\<lambda>i. (start + i) mod lm_min_shared m) [0..<lm_min_shared m]). k < n"
proof
  fix k assume "k \<in> set (map (\<lambda>i. (start + i) mod lm_min_shared m) [0..<lm_min_shared m])"
  then obtain i where i: "i < lm_min_shared m" "k = (start + i) mod lm_min_shared m" by auto
  then have "k < lm_min_shared m" by simp
  then show "k < n" using assms by simp
qed

text \<open>The part of \<open>alloc\<close> behind the drain.\<close>

definition lm_serve :: "local_manager \<Rightarrow> int \<Rightarrow> nat \<Rightarrow> (local_manager \<times> (manager_error + nat)) option" where
  "lm_serve m1 now sz =
     (if sz > lm_max_shared_payload m1 then alloc_dedicated m1 now sz
      else do {
        (m2, pinned) \<leftarrow>
          (if lm_min_shared m1 > 0 then do {
             let start = unat (lm_alloc_idx m1 + 1);
             let m' = m1 \<lparr> lm_alloc_idx := lm_alloc_idx m1 + 1 \<rparr>;
             (rs, buf) \<leftarrow> alloc_from (lm_shared m') (map (\<lambda>i. (start + i) mod lm_min_shared m') [0..<lm_min_shared m']) now sz;
             Some (m' \<lparr> lm_shared := rs \<rparr>, buf)
           } else Some (m1, None));
        case pinned of
          Some g \<Rightarrow> Some (m2, Inr g)
        | None \<Rightarrow>
            if lm_min_shared m2 > length (lm_shared m2) then None
            else do {
              (rs, buf) \<leftarrow> alloc_from (lm_shared m2) [lm_min_shared m2..<length (lm_shared m2)] now sz;
              Some (m2 \<lparr> lm_shared := rs \<rparr>, case buf of Some g \<Rightarrow> Inr g | None \<Rightarrow> Inl NoSpace)
            }
      })"

lemma lm_alloc_serve:
  "lm_alloc m now sz =
     (if lm_closed m then Some (m, Inl ClosedM)
      else if sz = 0 then Some (m, Inl NoSpace)
      else do {
        m1 \<leftarrow> (if rq_pending m > 0 then map_option fst (drain_rq_inner m now) else Some m);
        lm_serve m1 now sz
      })"
  unfolding lm_alloc_def lm_serve_def ..

text \<open>Trying shared regions from a manager state, at the level of its live buffers.\<close>

lemma alloc_shared_cases:
  assumes ok: "lm_ok m Ls Bs" and ks: "\<forall>k\<in>set ks. k < length (lm_shared m)" and now: "now \<noteq> 0"
  obtains
    (miss) rs where "alloc_from (lm_shared m) ks now sz = Some (rs, None)"
      "\<And>i. lm_ok (m \<lparr> lm_shared := rs, lm_alloc_idx := i \<rparr>) Ls Bs" "length rs = length (lm_shared m)"
      "\<And>i. lm_keeps m (lives m Ls Bs) (m \<lparr> lm_shared := rs, lm_alloc_idx := i \<rparr>)"
      "\<And>i. lives (m \<lparr> lm_shared := rs, lm_alloc_idx := i \<rparr>) Ls Bs = lives m Ls Bs"
  | (hit) rs Ls' g where "alloc_from (lm_shared m) ks now sz = Some (rs, Some g)"
      "\<And>i. lm_ok (m \<lparr> lm_shared := rs, lm_alloc_idx := i \<rparr>) Ls' Bs"
      "\<And>i. alloc_done m (lives m Ls Bs) sz (m \<lparr> lm_shared := rs, lm_alloc_idx := i \<rparr>) (lives (m \<lparr> lm_shared := rs, lm_alloc_idx := i \<rparr>) Ls' Bs) g"
  using lm_okD(1) [OF ok] ks now
proof (cases rule: alloc_from_cases [where sz = sz])
  case (miss rs)
  then show thesis
    using that(1) shared_miss [OF ok miss(2,3) HOL.refl] by (simp add: shared_frame_def)
next
  case (hit rs k d c)
  note p = shared_place [OF ok hit(2,3,4,5,6,7,8) HOL.refl]
  show thesis using that(2) [OF hit(1)] p by blast
qed

definition lm_rest :: "local_manager \<Rightarrow> int \<Rightarrow> nat \<Rightarrow> (local_manager \<times> (manager_error + nat)) option" where
  "lm_rest m now sz = do {
     (rs, buf) \<leftarrow> alloc_from (lm_shared m) [lm_min_shared m..<length (lm_shared m)] now sz;
     Some (m \<lparr> lm_shared := rs \<rparr>, case buf of Some g \<Rightarrow> Inr g | None \<Rightarrow> Inl NoSpace)
   }"

lemma lm_keeps_trans: "lm_keeps m G m1 \<Longrightarrow> lm_keeps m1 G m2 \<Longrightarrow> lm_keeps m G m2"
  using lm_same_trans [of m m1 m2] live_frame_trans [of G m m1 m2] by (simp add: lm_keeps_def)

lemma lm_rest_cases:
  assumes m2: "lm_keeps m G m2" "lm_ok m2 Ls Bs" "lives m2 Ls Bs = G" and now: "0 < now"
  obtains
    (fail) m' where "lm_rest m2 now sz = Some (m', Inl NoSpace)" "lm_keeps m G m'"
  | (hit) m' G' g where "lm_rest m2 now sz = Some (m', Inr g)" "lm_inv m' G'" "alloc_done m G sz m' G' g"
proof -
  have ix: "\<forall>k\<in>set [lm_min_shared m2..<length (lm_shared m2)]. k < length (lm_shared m2)" by simp
  show thesis
    using m2(2) ix now [THEN less_imp_neq, symmetric]
  proof (cases rule: alloc_shared_cases [where sz = sz])
    case (miss rs)
    have "lm_keeps m2 G (m2 \<lparr> lm_shared := rs \<rparr>)" using miss(4) [of "lm_alloc_idx m2"] m2(3) by simp
    then show thesis using that(1) lm_keeps_trans [OF m2(1)] miss(1) by (simp add: lm_rest_def)
  next
    case (hit rs Ls' g)
    have "lm_inv (m2 \<lparr> lm_shared := rs \<rparr>) (lives (m2 \<lparr> lm_shared := rs \<rparr>) Ls' Bs)"
      using lm_invI [OF hit(2) [of "lm_alloc_idx m2"]] by simp
    moreover have "alloc_done m G sz (m2 \<lparr> lm_shared := rs \<rparr>) (lives (m2 \<lparr> lm_shared := rs \<rparr>) Ls' Bs) g"
      using alloc_done_after [OF m2(1)] hit(3) [of "lm_alloc_idx m2"] m2(3) by simp
    ultimately show thesis using that(2) hit(1) by (simp add: lm_rest_def)
  qed
qed

lemma lm_serve_cases:
  assumes inv: "lm_inv m G" and now: "0 < now"
  obtains
    (fail) m' where "lm_serve m now sz = Some (m', Inl NoSpace)" "lm_keeps m G m'"
  | (hit) m' G' g where "lm_serve m now sz = Some (m', Inr g)" "lm_inv m' G'" "alloc_done m G sz m' G' g"
proof -
  obtain Ls Bs where ok: "lm_ok m Ls Bs" and G: "G = lives m Ls Bs" using inv by (auto simp: lm_inv_def)
  have self: "lm_keeps m G m" using inv by (simp add: lm_keeps_def live_frame_def)
  show thesis
  proof (cases "sz > lm_max_shared_payload m")
    case big: True
    show thesis
      using ok now
    proof (cases rule: alloc_dedicated_cases [where sz = sz])
      case fail
      then show thesis using that(1) [of m] big self by (simp add: lm_serve_def)
    next
      case (hit m' Bs' g)
      then show thesis using that(2) [of m' g] big G by (auto simp: lm_serve_def intro: lm_invI)
    qed
  next
    case small: False
    note D = lm_okD [OF ok]
    have comm: "m \<lparr> lm_alloc_idx := i, lm_shared := rs \<rparr> = m \<lparr> lm_shared := rs, lm_alloc_idx := i \<rparr>" for i rs by simp
    let ?start = "unat (lm_alloc_idx m + 1)"
    let ?ks = "map (\<lambda>i. (?start + i) mod lm_min_shared m) [0..<lm_min_shared m]"
    have rest: thesis if "lm_serve m now sz = lm_rest m2 now sz" "lm_keeps m G m2" "lm_ok m2 Ls Bs" "lives m2 Ls Bs = G" for m2
      by (rule lm_rest_cases [OF that(2-4) now]) (use \<open>lm_serve m now sz = _\<close> fail hit in auto)
    show thesis
    proof (cases "lm_min_shared m > 0")
      case False
      then have "lm_serve m now sz = lm_rest m now sz" using small by (simp add: lm_serve_def lm_rest_def)
      then show thesis using rest self ok G by blast
    next
      case True
      show thesis
        using ok shared_indices [OF D(6)] now [THEN less_imp_neq, symmetric]
      proof (cases rule: alloc_shared_cases [where ks = ?ks and sz = sz])
        case (miss rs)
        let ?m2 = "m \<lparr> lm_alloc_idx := lm_alloc_idx m + 1, lm_shared := rs \<rparr>"
        have "lm_serve m now sz = lm_rest ?m2 now sz"
          using small True miss(1,3) D(6) by (simp add: lm_serve_def lm_rest_def Let_def)
        then show thesis by (rule rest) (use miss G in \<open>simp_all add: comm\<close>)
      next
        case (hit rs Ls' g)
        let ?m2 = "m \<lparr> lm_alloc_idx := lm_alloc_idx m + 1, lm_shared := rs \<rparr>"
        have "lm_serve m now sz = Some (?m2, Inr g)" using small True hit(1) by (simp add: lm_serve_def Let_def)
        then show thesis unfolding comm by (rule that(2) [OF _ lm_invI [OF hit(2) HOL.refl]]) (use hit(3) G in simp)
      qed
    qed
  qed
qed

section \<open>Releases\<close>

lemma shared_by_offset_live:
  assumes "lm_ok m Ls Bs" "k < length (lm_shared m)" "d < SHARED_REGION_SIZE"
  shows "shared_by_offset m (int (RQ_SIZE + k * SHARED_REGION_SIZE + d)) = Some k"
proof -
  let ?g = "RQ_SIZE + k * SHARED_REGION_SIZE + d"
  have "Suc k * SHARED_REGION_SIZE \<le> length (lm_shared m) * SHARED_REGION_SIZE" using assms(2) by (intro mult_le_mono1) simp
  then have "?g < lm_max_shared_offset m" using lm_okD(4) [OF assms(1)] assms(3) by simp
  moreover have "(?g - RQ_SIZE) div SHARED_REGION_SIZE = k" using region_index_at [OF assms(3), of k] by (simp add: region_index_def)
  moreover have "\<not> (int ?g < int RQ_SIZE \<or> int ?g \<ge> int (lm_max_shared_offset m))" using calculation(1) by linarith
  ultimately show ?thesis using assms(2) unfolding shared_by_offset_def nat_int Let_def by (simp only: if_False if_True)
qed

text \<open>A release of the live buffer at \<open>g\<close>.\<close>

definition free_done :: "local_manager \<Rightarrow> live \<Rightarrow> nat \<Rightarrow> local_manager \<Rightarrow> bool" where
  "free_done m G g m' \<longleftrightarrow> lm_inv m' (G(g := None)) \<and> lm_same m m' \<and> lm_rq m' = lm_rq m \<and> live_frame (G(g := None)) m m'"

lemma shared_release:
  assumes ok: "lm_ok m Ls Bs" and k: "k < length (lm_shared m)" and d: "(Ls ! k) d = Some c" "8 \<le> d" "d + c \<le> SHARED_REGION_SIZE" "24 \<le> c"
  shows "\<exists>m'. free_at_inner m now (int (RQ_SIZE + k * SHARED_REGION_SIZE + d)) = Some m' \<and>
    free_done m (lives m Ls Bs) (RQ_SIZE + k * SHARED_REGION_SIZE + d) m'"
proof -
  let ?g = "RQ_SIZE + k * SHARED_REGION_SIZE + d" and ?r = "lm_shared m ! k"
  note r = shared_okD [OF lm_okD(1) [OF ok] k]
  obtain r' where r': "region_free_at ?r (int (r_offset ?r + d)) = Some (r', Inr ())" "region_ok r' ((Ls ! k)(d := None))"
    "same_outside {d - 8..<d + 8} (r_data ?r) (r_data r')" "r_offset r' = r_offset ?r" "r_size r' = r_size ?r"
    using region_free_live [OF r(2) d(1)] by metis
  let ?m = "m \<lparr> lm_shared := (lm_shared m)[k := r'] \<rparr>" and ?Ls = "Ls[k := (Ls ! k)(d := None)]"
  have ds: "d < SHARED_REGION_SIZE" using d by simp
  have run: "free_at_inner m now (int ?g) = Some ?m"
    using shared_by_offset_live [OF ok k ds] r'(1) r(3) by (simp add: free_at_inner_def add.assoc)
  have ok': "lm_ok ?m ?Ls Bs"
    by (rule lm_okI_shared [OF ok shared_ok_update [OF lm_okD(1) [OF ok] k r'(2,4,5)]]) simp
  have liv: "lives ?m ?Ls Bs = (lives m Ls Bs)(?g := None)" by (rule lives_shared_update [OF ok k ds]) simp_all
  have "live_frame ((lives m Ls Bs)(?g := None)) m ?m"
  proof (rule live_frameI [OF ok ok'])
    fix j e c' i assume a: "j < length (lm_shared m)" "(Ls ! j) e = Some c'" "((lives m Ls Bs)(?g := None)) (RQ_SIZE + j * SHARED_REGION_SIZE + e) \<noteq> None"
      "e \<le> i" "i < e + c'"
    show "abytes (r_data (lm_shared ?m ! j)) i = abytes (r_data (lm_shared m ! j)) i"
    proof (cases "j = k")
      case True
      then have "e \<noteq> d" using a(3) by (simp split: if_splits)
      then have "i \<notin> {d - 8..<d + 8}" using region_live_disjoint [OF r(2), of d c e c'] a True d by auto
      then show ?thesis using r'(3) k True by (simp add: same_outside_def)
    qed simp
  qed (auto split: if_splits)
  then show ?thesis using run lm_invI [OF ok' liv [symmetric]] by (auto simp: free_done_def lm_same_def)
qed

lemma dedicated_release:
  assumes ok: "lm_ok m Ls Bs" and k: "k < length (lm_dedicated m)" "Bs ! k" and now: "0 < now"
  shows "\<exists>m'. free_at_inner m now (int (d_offset (lm_dedicated m ! k))) = Some m' \<and>
    free_done m (lives m Ls Bs) (d_offset (lm_dedicated m ! k)) m'"
proof -
  let ?ds = "lm_dedicated m" and ?g = "d_offset (lm_dedicated m ! k)"
  note D = lm_okD [OF ok] and ab = dedicated_above [OF ok k(1)]
  have no: "shared_by_offset m (int ?g) = None" using ab by (simp add: shared_by_offset_def)
  note inj = stacked_offset_inj [OF D(3,2) _ k(1)]
  have "\<exists>d'. mark_freed_at ?ds now (int ?g) = Some (?ds[k := d']) \<and> dedicated_ok d' False \<and>
      d_offset d' = ?g \<and> d_size d' = d_size (?ds ! k)"
  proof (rule mark_freed_at_cases [OF D(2), of now "int ?g"])
    assume "\<And>i. i < length ?ds \<Longrightarrow> int (d_offset (?ds ! i)) = int ?g \<Longrightarrow> (\<And>j. j < i \<Longrightarrow> int (d_offset (?ds ! j)) \<noteq> int ?g) \<Longrightarrow> \<not> Bs ! i"
    note n = this
    have "\<not> Bs ! k"
    proof (rule n [OF k(1) HOL.refl])
      fix j assume "j < k"
      then show "int (d_offset (?ds ! j)) \<noteq> int ?g" using inj [of j] k(1) by auto
    qed
    then show ?thesis using k(2) by simp
  next
    fix j d'
    assume f: "mark_freed_at ?ds now (int ?g) = Some (?ds[j := d'])" "j < length ?ds" "int (d_offset (?ds ! j)) = int ?g"
      "dedicated_ok d' False" "d_offset d' = d_offset (?ds ! j)" "d_size d' = d_size (?ds ! j)"
    have "j = k" using inj [OF f(2)] f(3) by simp
    then show ?thesis using f by blast
  qed
  then obtain d' where d': "mark_freed_at ?ds now (int ?g) = Some (?ds[k := d'])" "dedicated_ok d' False"
    "d_offset d' = ?g" "d_size d' = d_size (?ds ! k)" by blast
  let ?m = "m \<lparr> lm_dedicated := ?ds[k := d'] \<rparr>"
  have all: "dedicated_all_ok (?ds[k := d']) (Bs[k := False])" by (rule dedicated_all_ok_update [OF D(2) k(1) d'(2)]) simp
  have same: "map d_offset (?ds[k := d']) = map d_offset ?ds" "map d_size (?ds[k := d']) = map d_size ?ds"
    using k(1) d'(3,4) by (simp_all add: map_update list_update_same_conv)
  have "stacked (lm_size m) (?ds[k := d']) (lm_ded_offset m)"
    using D(3) stacked_cong [of "?ds[k := d']" ?ds "lm_size m" "lm_ded_offset m"] k(1) d'(3,4) by (simp add: nth_list_update)
  then have ok': "lm_ok ?m Ls (Bs[k := False])" using ok all by (simp add: lm_ok_def)
  have liv: "lives ?m Ls (Bs[k := False]) = (lives m Ls Bs)(?g := None)"
    by (rule lives_dedicated_eq [OF ok]) (use ab D(5) dedicated_lives_update [OF D(3,2) all k(1) same] in simp_all)
  have "live_frame ((lives m Ls Bs)(?g := None)) m ?m"
  proof (rule live_frameI [OF ok ok'])
    fix j assume j: "j < length ?ds" "((lives m Ls Bs)(?g := None)) (d_offset (?ds ! j)) \<noteq> None"
    then have "j \<noteq> k" by auto
    then show "j < length (lm_dedicated ?m) \<and> d_offset (lm_dedicated ?m ! j) = d_offset (?ds ! j) \<and>
        d_size (lm_dedicated ?m ! j) = d_size (?ds ! j) \<and> d_data (lm_dedicated ?m ! j) = d_data (?ds ! j)" using j(1) by simp
  qed (auto split: if_splits)
  then show ?thesis using no d'(1) lm_invI [OF ok' liv [symmetric]] by (auto simp: free_at_inner_def free_done_def lm_same_def)
qed

lemma free_live:
  assumes "lm_inv m G" "G g = Some c" "0 < now"
  obtains m' where "free_at_inner m now (int g) = Some m'" "free_done m G g m'"
proof -
  obtain Ls Bs where ok: "lm_ok m Ls Bs" and G: "G = lives m Ls Bs" using assms(1) by (auto simp: lm_inv_def)
  have g: "lives m Ls Bs g = Some c" using assms(2) G by simp
  show thesis
    using ok g
  proof (cases rule: lives_cases)
    case (shared k d)
    then show thesis using shared_release [OF ok shared(2,3,4,5,6)] that G by blast
  next
    case (dedicated k)
    then show thesis using dedicated_release [OF ok dedicated(1,2) assms(3)] that G by blast
  qed
qed

section \<open>Draining the release queue\<close>

lemma mpsc_repr_try_pop:
  assumes "mpsc_repr (q, r) (x # xs) b"
  obtains r' where "mpsc_try_pop q r = (r', Ready x)" "mpsc_repr (q, r') xs b" "unat (rg_head r') = unat (rg_head r) + 1"
proof -
  obtain h where h: "mpsc_ok q" "ring_at q r h (x # xs)" "h + length (x # xs) + b + 1 < 2 ^ 63" "unat (m_head_cache q) \<le> h"
    using assms by (auto simp: mpsc_repr_def)
  obtain r' where r': "mpsc_try_pop q r = (r', Ready x)" "ring_at q r' (h + 1) xs" using mpsc_pop_next [OF h(1,2)] h(3) by auto
  have "mpsc_repr (q, r') xs b" using h r'(2) by (auto simp: mpsc_repr_def intro!: exI [of _ "h + 1"])
  moreover have "unat (rg_head r') = unat (rg_head r) + 1" using ring_atD(1) [OF h(2)] ring_atD(1) [OF r'(2)] by simp
  ultimately show thesis using r'(1) that by blast
qed

lemma mpsc_repr_try_pop_empty: "mpsc_repr (q, r) [] b \<Longrightarrow> mpsc_try_pop q r = (r, Empty)"
  using mpsc_pop_empty by (fastforce simp: mpsc_repr_def)

lemma mpsc_repr_length:
  assumes "mpsc_repr (q, r) xs b"
  shows "mpsc_length r = length xs"
proof -
  obtain h where h: "ring_at q r h xs" "h + length xs + b + 1 < 2 ^ 63" using assms by (auto simp: mpsc_repr_def)
  have "rg_head r \<le> rg_tail r" using ring_atD(1,2) [OF h(1)] by (simp add: word_le_nat_alt)
  then show ?thesis using ring_atD(1,2) [OF h(1)] by (simp add: mpsc_length_def unat_sub)
qed

text \<open>The offsets \<open>xs\<close> name live buffers, each once: what a peer that follows the protocol reports.\<close>

definition honest :: "live \<Rightarrow> int list \<Rightarrow> bool" where
  "honest G xs \<longleftrightarrow> distinct xs \<and> (\<forall>x\<in>set xs. \<exists>g c. x = int g \<and> G g = Some c)"

definition without :: "live \<Rightarrow> int list \<Rightarrow> live" where
  "without G xs = (\<lambda>g. if int g \<in> set xs then None else G g)"

lemma without_Nil [simp]: "without G [] = G"
  by (simp add: without_def)

lemma without_Cons: "without G (int g # xs) = without (G(g := None)) xs"
  by (auto simp: without_def fun_eq_iff)

lemma honest_Cons:
  assumes "honest G (x # xs)"
  obtains g c where "x = int g" "G g = Some c" "honest (G(g := None)) xs"
proof -
  have a: "x \<notin> set xs" "distinct xs" "\<forall>y\<in>set xs. \<exists>g c. y = int g \<and> G g = Some c" "\<exists>g c. x = int g \<and> G g = Some c"
    using assms by (simp_all add: honest_def)
  obtain g c where g: "x = int g" "G g = Some c" using a(4) by blast
  have "honest (G(g := None)) xs" unfolding honest_def
  proof (intro conjI ballI)
    fix y assume y: "y \<in> set xs"
    then obtain g' c' where "y = int g'" "G g' = Some c'" using a(3) by blast
    moreover have "g' \<noteq> g" using a(1) y g(1) calculation(1) by auto
    ultimately show "\<exists>g' c. y = int g' \<and> (G(g := None)) g' = Some c" by auto
  qed (rule a(2))
  with g show thesis by (rule that)
qed

definition drain_done :: "local_manager \<Rightarrow> live \<Rightarrow> int list \<Rightarrow> nat \<Rightarrow> local_manager \<Rightarrow> bool" where
  "drain_done m G xs b m' \<longleftrightarrow> lm_inv m' (without G xs) \<and> mpsc_repr (lm_rq m') [] b \<and> lm_same m m' \<and> live_frame (without G xs) m m' \<and>
     fst (lm_rq m') = fst (lm_rq m) \<and> unat (rg_head (snd (lm_rq m))) \<le> unat (rg_head (snd (lm_rq m')))"

lemma lm_rq_irrelevant: "segment (m \<lparr> lm_rq := q \<rparr>) = segment m" "lm_inv (m \<lparr> lm_rq := q \<rparr>) G = lm_inv m G"
  "lm_same m (m \<lparr> lm_rq := q \<rparr>)" "lm_same (m \<lparr> lm_rq := q \<rparr>) m' = lm_same m m'"
  "live_frame G (m \<lparr> lm_rq := q \<rparr>) m' = live_frame G m m'" "live_frame G m' (m \<lparr> lm_rq := q \<rparr>) = live_frame G m' m"
proof -
  show s: "segment (m \<lparr> lm_rq := q \<rparr>) = segment m" by (auto simp: segment_def fun_eq_iff split: option.splits)
  have "lives (m \<lparr> lm_rq := q \<rparr>) Ls Bs = lives m Ls Bs" for Ls Bs by (simp add: lives_def fun_eq_iff)
  then show "lm_inv (m \<lparr> lm_rq := q \<rparr>) G = lm_inv m G" by (simp add: lm_inv_def lm_ok_def)
  show "live_frame G (m \<lparr> lm_rq := q \<rparr>) m' = live_frame G m m'" "live_frame G m' (m \<lparr> lm_rq := q \<rparr>) = live_frame G m' m"
    by (simp_all add: live_frame_def s)
qed (simp_all add: lm_same_def)

lemma drain_loop_ok:
  assumes "lm_inv m G" "mpsc_repr (lm_rq m) xs b" "honest G xs" "0 < now" "length xs < fuel"
  shows "\<exists>m'. drain_loop fuel m now freed = Some (m', freed + length xs) \<and> drain_done m G xs b m'"
  using assms
proof (induction xs arbitrary: m G fuel freed)
  case Nil
  obtain q r where q: "lm_rq m = (q, r)" by fastforce
  obtain f where "fuel = Suc f" using Nil.prems(5) by (cases fuel) auto
  moreover have "mpsc_try_pop q r = (r, Empty)" using mpsc_repr_try_pop_empty Nil.prems(2) q by simp
  ultimately show ?case using q Nil.prems(1,2) by (simp add: drain_done_def lm_rq_irrelevant live_frame_def lm_same_def)
next
  case (Cons x xs)
  obtain q r where q: "lm_rq m = (q, r)" by fastforce
  obtain f where f: "fuel = Suc f" "length xs < f" using Cons.prems(5) by (cases fuel) auto
  obtain r' where r': "mpsc_try_pop q r = (r', Ready x)" "mpsc_repr (q, r') xs b" "unat (rg_head r') = unat (rg_head r) + 1"
    using mpsc_repr_try_pop Cons.prems(2) q by metis
  obtain g c where g: "x = int g" "G g = Some c" "honest (G(g := None)) xs" using honest_Cons [OF Cons.prems(3)] by blast
  let ?m = "m \<lparr> lm_rq := (q, r') \<rparr>"
  have "lm_inv ?m G" using Cons.prems(1) by (simp add: lm_rq_irrelevant)
  from free_live [OF this g(2) Cons.prems(4)] obtain m1 where m1: "free_at_inner ?m now (int g) = Some m1" "free_done ?m G g m1" .
  have d: "lm_inv m1 (G(g := None))" "lm_same m m1" "lm_rq m1 = (q, r')" "live_frame (G(g := None)) m m1"
    using m1(2) by (simp_all add: free_done_def lm_rq_irrelevant)
  obtain m' where m': "drain_loop f m1 now (freed + 1) = Some (m', freed + 1 + length xs)" "drain_done m1 (G(g := None)) xs b m'"
    using Cons.IH [OF d(1) _ g(3) Cons.prems(4) f(2), of "freed + 1"] r'(2) d(3) by (simp del: fun_upd_apply) blast
  have "live_frame (without (G(g := None)) xs) m m1"
    by (rule live_frame_sub [OF d(4)]) (auto simp: without_def split: if_splits)
  then have "drain_done m G (x # xs) b m'"
    using m'(2) lm_same_trans [OF d(2)] live_frame_trans [of _ m m1 m'] d(3) q r'(3) by (simp add: drain_done_def without_Cons g(1))
  then show ?case using f(1) q r'(1) m1(1) m'(1) g(1) by simp
qed

lemma drain_ok:
  assumes "lm_inv m G" "mpsc_repr (lm_rq m) xs b" "honest G xs" "0 < now"
  obtains m' where "drain_rq_inner m now = Some (m', length xs)" "drain_done m G xs b m'"
proof -
  obtain q r where q: "lm_rq m = (q, r)" by fastforce
  have "rq_pending m = length xs" using mpsc_repr_length [of q r xs b] assms(2) q by (simp add: rq_pending_def mpsc_length_def)
  then show thesis using drain_loop_ok [OF assms, of "Suc (rq_pending m)" 0] that by (auto simp: drain_rq_inner_def)
qed

text \<open>An allocation drains first: the peer's releases are reclaimed, then the request is served.\<close>

lemma lm_alloc_cases:
  assumes inv: "lm_inv m G" and rq: "mpsc_repr (lm_rq m) xs b" "honest G xs" and now: "0 < now" and open_m: "\<not> lm_closed m"
    and sz: "0 < sz"
  obtains
    (fail) m1 m' where "lm_alloc m now sz = Some (m', Inl NoSpace)" "drain_done m G xs b m1" "lm_keeps m1 (without G xs) m'"
  | (hit) m1 m' G' g where "lm_alloc m now sz = Some (m', Inr g)" "drain_done m G xs b m1" "lm_inv m' G'"
      "alloc_done m1 (without G xs) sz m' G' g"
proof -
  obtain q r where q: "lm_rq m = (q, r)" by fastforce
  have pend: "rq_pending m = length xs" using mpsc_repr_length [of q r xs b] rq(1) q by (simp add: rq_pending_def mpsc_length_def)
  obtain m1 where m1: "lm_alloc m now sz = lm_serve m1 now sz" "drain_done m G xs b m1"
  proof (cases "rq_pending m > 0")
    case True
    obtain m1 where "drain_rq_inner m now = Some (m1, length xs)" "drain_done m G xs b m1" using drain_ok [OF inv rq now] .
    then show thesis using that [of m1] True open_m sz by (simp add: lm_alloc_serve)
  next
    case False
    then have "drain_done m G xs b m" using inv rq pend by (simp add: drain_done_def live_frame_def)
    then show thesis using that [of m] False open_m sz by (simp add: lm_alloc_serve)
  qed
  have "lm_inv m1 (without G xs)" using m1(2) by (simp add: drain_done_def)
  from lm_serve_cases [OF this now, of sz] show thesis using m1 that by metis
qed

section \<open>Pruning\<close>

lemma trim_rev_split: "\<exists>dropped. ds = dropped @ fst (trim_rev ds seg) \<and> (\<forall>d\<in>set dropped. d_updated d = DEDICATED_REGION_PUNCHED)"
proof (induction ds seg rule: trim_rev.induct)
  case (2 d ds seg)
  show ?case
  proof (cases "d_updated d = DEDICATED_REGION_PUNCHED")
    case True
    then obtain dropped where "ds = dropped @ fst (trim_rev ds (arena_paste seg (d_offset d) (d_data d)))"
      "\<forall>d\<in>set dropped. d_updated d = DEDICATED_REGION_PUNCHED" using 2 by blast
    then show ?thesis using True by (intro exI [of _ "d # dropped"]) simp
  qed simp
qed simp

lemma trim_rev_alen: "alen (snd (trim_rev ds seg)) = alen seg"
  by (induction ds seg rule: trim_rev.induct) (simp_all add: arena_paste_def)

lemma stacked_prefix:
  assumes "stacked hi (xs @ ys) off"
  shows "stacked hi xs (if xs = [] then hi else d_offset (last xs))" "off \<le> (if xs = [] then hi else d_offset (last xs))"
proof -
  have "stacked hi xs (if xs = [] then hi else d_offset (last xs)) \<and> off \<le> (if xs = [] then hi else d_offset (last xs))"
    using assms
  proof (induction xs arbitrary: hi)
    case Nil
    then show ?case using stacked_le by simp
  next
    case (Cons x xs)
    then show ?case using Cons.IH [of "d_offset x"] by (cases xs) auto
  qed
  then show "stacked hi xs (if xs = [] then hi else d_offset (last xs))" "off \<le> (if xs = [] then hi else d_offset (last xs))" by auto
qed

lemma find_append_None: "find P ys = None \<Longrightarrow> find P (xs @ ys) = find P xs"
  by (induction xs) auto

lemma dedicated_lives_prefix:
  assumes "length Bs = length ds" "\<forall>k<length es. \<not> Cs ! k" "length Cs = length es"
  shows "dedicated_lives (ds @ es) (Bs @ Cs) = dedicated_lives ds Bs"
proof
  fix g
  let ?P = "\<lambda>(e, b). b \<and> d_offset e = g"
  have no: "find ?P (zip es Cs) = None"
    using assms(2,3) by (auto simp: find_None_iff in_set_zip)
  have "find ?P (zip ds Bs @ zip es Cs) = find ?P (zip ds Bs)"
    by (rule find_append_None [OF no])
  then show "dedicated_lives (ds @ es) (Bs @ Cs) g = dedicated_lives ds Bs g"
    using assms(1) by (simp add: dedicated_lives_def)
qed

lemma dedicated_lives_cong:
  assumes "map d_offset es = map d_offset ds" "map d_size es = map d_size ds"
  shows "dedicated_lives es Bs = dedicated_lives ds Bs"
proof
  fix g
  let ?P = "\<lambda>(e, b). b \<and> d_offset e = g"
  have "map_option (d_size \<circ> fst) (find ?P (zip es Bs)) = map_option (d_size \<circ> fst) (find ?P (zip ds Bs))"
    using assms
  proof (induction es arbitrary: ds Bs)
    case (Cons e es)
    then obtain d ds' where ds: "ds = d # ds'" by (cases ds) auto
    then show ?case using Cons.IH [of ds'] Cons.prems by (cases Bs) auto
  qed simp
  then show "dedicated_lives es Bs g = dedicated_lives ds Bs g" by (simp add: dedicated_lives_def)
qed


lemma punch_fields [simp]:
  "r_offset (fst (region_punch_if_idle r now age)) = r_offset r" "r_size (fst (region_punch_if_idle r now age)) = r_size r"
  "r_data (fst (region_punch_if_idle r now age)) = r_data r"
  by (simp_all add: region_punch_if_idle_def)

lemma prune_shared:
  assumes "shared_ok rs Ls" "n \<le> length rs" and rs': "rs' = take n rs @ map (\<lambda>r. fst (region_punch_if_idle r now age)) (drop n rs)"
  shows "shared_ok rs' Ls" "length rs' = length rs" "k < length rs \<Longrightarrow> r_data (rs' ! k) = r_data (rs ! k)"
proof -
  show len: "length rs' = length rs" using assms(2) by (simp add: rs')
  have nth: "rs' ! k = (if k < n then rs ! k else fst (region_punch_if_idle (rs ! k) now age))" if "k < length rs" for k
    using assms(2) that by (simp add: rs' nth_append)
  then show "k < length rs \<Longrightarrow> r_data (rs' ! k) = r_data (rs ! k)" by simp
  show "shared_ok rs' Ls"
    unfolding shared_ok_def len using assms(1) nth region_punch_ok(1) by (simp add: shared_ok_def)
qed

text \<open>Pruning the dedicated regions keeps the busy ones and the stack.\<close>

lemma prune_stack:
  assumes "dedicated_all_ok ds Bs" "stacked hi ds off" "prune_dedicated now ds = Some es" and t: "trim_rev (rev es) seg = (rest, seg')"
    and off': "off' = (case rest of d # _ \<Rightarrow> d_offset d | [] \<Rightarrow> hi)"
  shows "dedicated_all_ok (rev rest) (take (length rest) Bs)" "stacked hi (rev rest) off'" "off \<le> off'"
    "dedicated_lives (rev rest) (take (length rest) Bs) = dedicated_lives ds Bs"
    "k < length ds \<Longrightarrow> Bs ! k \<Longrightarrow> k < length rest \<and> d_offset (rev rest ! k) = d_offset (ds ! k) \<and>
       d_size (rev rest ! k) = d_size (ds ! k) \<and> d_data (rev rest ! k) = d_data (ds ! k)"
proof -
  have es: "dedicated_all_ok es Bs" "map d_offset es = map d_offset ds" "map d_size es = map d_size ds" "map d_data es = map d_data ds"
    using prune_dedicated_ok [OF assms(1), of now] assms(3) by auto
  have len: "length es = length ds" using es(2) by (metis length_map)
  have at: "d_offset (es ! k) = d_offset (ds ! k)" "d_size (es ! k) = d_size (ds ! k)" "d_data (es ! k) = d_data (ds ! k)"
    if "k < length ds" for k using es len that by (metis nth_map)+
  obtain dropped where dr: "rev es = dropped @ rest" "\<forall>d\<in>set dropped. d_updated d = DEDICATED_REGION_PUNCHED"
    using trim_rev_split [of "rev es" seg] t by auto
  have split: "es = rev rest @ rev dropped" using dr(1) by (metis rev_append rev_rev_ident)
  have B: "length Bs = length es" using es(1) by (simp add: dedicated_all_ok_def)
  have idle: "\<not> Bs ! k" if "length rest \<le> k" "k < length es" for k
  proof -
    have "es ! k \<in> set (rev dropped)" using that split nth_mem [of "k - length rest" "rev dropped"] by (simp add: nth_append)
    then show ?thesis using dr(2) dedicated_all_okD(3) [OF es(1) that(2)] by auto
  qed
  have st: "stacked hi es off" using assms(2) stacked_cong [OF len] at by blast
  have "off' = (if rev rest = [] then hi else d_offset (last (rev rest)))"
    unfolding off' by (cases rest) (simp_all add: last_rev)
  then show "stacked hi (rev rest) off'" "off \<le> off'" using stacked_prefix [of hi "rev rest" "rev dropped" off] st split by simp_all
  show "dedicated_all_ok (rev rest) (take (length rest) Bs)"
    using es(1) split by (auto simp: dedicated_all_ok_def nth_append split: if_splits)
  have "dedicated_lives es Bs = dedicated_lives (rev rest @ rev dropped) (take (length rest) Bs @ drop (length rest) Bs)"
    using split by simp
  also have "\<dots> = dedicated_lives (rev rest) (take (length rest) Bs)"
    by (rule dedicated_lives_prefix) (use idle B split in auto)
  finally show "dedicated_lives (rev rest) (take (length rest) Bs) = dedicated_lives ds Bs"
    using dedicated_lives_cong [OF es(2,3)] by simp
  show "k < length rest \<and> d_offset (rev rest ! k) = d_offset (ds ! k) \<and> d_size (rev rest ! k) = d_size (ds ! k) \<and>
      d_data (rev rest ! k) = d_data (ds ! k)" if "k < length ds" "Bs ! k"
  proof -
    have k: "k < length rest" using idle [of k] that len by (cases "length rest \<le> k") auto
    then have "rev rest ! k = es ! k" using split by (simp add: nth_append)
    then show ?thesis using k at [OF that(1)] by simp
  qed
qed

lemma prune_keeps:
  assumes inv: "lm_inv m G" and open_m: "\<not> lm_closed m"
  obtains m' where "prune_idle_regions m now = Some m'" "lm_keeps m G m'"
proof -
  obtain Ls Bs where ok: "lm_ok m Ls Bs" and G: "G = lives m Ls Bs" using inv by (auto simp: lm_inv_def)
  note D = lm_okD [OF ok]
  let ?rs = "take (lm_min_shared m) (lm_shared m) @ map (\<lambda>r. fst (region_punch_if_idle r now MAX_AGE)) (drop (lm_min_shared m) (lm_shared m))"
  note rs = prune_shared [OF D(1,6) HOL.refl, where now = now and age = MAX_AGE]
  obtain es where es: "prune_dedicated now (lm_dedicated m) = Some es" using prune_dedicated_ok [OF D(2)] by blast
  obtain rest seg where t: "trim_rev (rev es) (lm_seg m) = (rest, seg)" by fastforce
  define off' where "off' = (case rest of d # _ \<Rightarrow> d_offset d | [] \<Rightarrow> lm_size m)"
  note p = prune_stack [OF D(2,3) es t off'_def]
  let ?m = "m \<lparr> lm_shared := ?rs, lm_dedicated := rev rest, lm_seg := seg, lm_ded_offset := off' \<rparr>"
  have run: "prune_idle_regions m now = Some ?m"
    using open_m D(6) es t by (simp add: prune_idle_regions_def Let_def off'_def)
  have "alen seg = alen (lm_seg m)" using trim_rev_alen [of "rev es" "lm_seg m"] t by simp
  then have ok': "lm_ok ?m Ls (take (length rest) Bs)"
    using ok rs(1,2) p(1,2,3) by (simp add: lm_ok_def)
  have liv: "lives ?m Ls (take (length rest) Bs) = G" unfolding G by (simp add: lives_def fun_eq_iff p(4))
  have "live_frame G m ?m"
    by (rule live_frameI [OF ok ok']) (use rs(2,3) p(5) G in simp_all)
  then have "lm_keeps m G ?m" using lm_invI [OF ok' liv [symmetric]] by (simp add: lm_keeps_def lm_same_def)
  with run show thesis by (rule that)
qed

section \<open>Client writes\<close>

text \<open>A write of \<open>bs\<close> at global offset \<open>i\<close> through a buffer pointer: it lands in the region that owns the
  offset.\<close>

definition lm_put :: "local_manager \<Rightarrow> nat \<Rightarrow> byte list \<Rightarrow> local_manager option" where
  "lm_put m i bs =
     (case find (\<lambda>k. in_shared i (lm_shared m ! k)) [0..<length (lm_shared m)] of
        Some k \<Rightarrow> do {
          let r = lm_shared m ! k;
          ar \<leftarrow> arena_put (r_data r) (i - r_offset r) bs;
          Some (m \<lparr> lm_shared := (lm_shared m)[k := r \<lparr> r_data := ar \<rparr>] \<rparr>)
        }
      | None \<Rightarrow> (case find (\<lambda>k. in_dedicated i (lm_dedicated m ! k)) [0..<length (lm_dedicated m)] of
          Some k \<Rightarrow> do {
            let d = lm_dedicated m ! k;
            ar \<leftarrow> arena_put (d_data d) (i - d_offset d) bs;
            Some (m \<lparr> lm_dedicated := (lm_dedicated m)[k := d \<lparr> d_data := ar \<rparr>] \<rparr>)
          }
        | None \<Rightarrow> None))"

lemma segment_elsewhere:
  assumes "\<And>r. r \<in> set (lm_shared m) \<Longrightarrow> \<not> in_shared g r" "\<And>d. d \<in> set (lm_dedicated m) \<Longrightarrow> \<not> in_dedicated g d"
  shows "abytes (segment m) g = abytes (lm_seg m) g"
proof -
  have "find (in_shared g) (lm_shared m) = None" "find (in_dedicated g) (lm_dedicated m) = None"
    using assms by (simp_all add: find_None_iff)
  then show ?thesis by (simp add: segment_def)
qed

lemma segment_update:
  assumes ok: "lm_ok m Ls Bs" "lm_ok m' Ls' Bs'" and len: "length (lm_shared m') = length (lm_shared m)" "length (lm_dedicated m') = length (lm_dedicated m)"
    and ded: "\<And>k. k < length (lm_dedicated m) \<Longrightarrow> d_offset (lm_dedicated m' ! k) = d_offset (lm_dedicated m ! k) \<and> d_size (lm_dedicated m' ! k) = d_size (lm_dedicated m ! k)"
    and seg: "lm_seg m' = lm_seg m" "lm_size m' = lm_size m"
    and sh: "\<And>k d. k < length (lm_shared m) \<Longrightarrow> d < SHARED_REGION_SIZE \<Longrightarrow>
       abytes (r_data (lm_shared m' ! k)) d = F (RQ_SIZE + k * SHARED_REGION_SIZE + d) (abytes (r_data (lm_shared m ! k)) d)"
    and de: "\<And>k d. k < length (lm_dedicated m) \<Longrightarrow> d < d_size (lm_dedicated m ! k) \<Longrightarrow>
       abytes (d_data (lm_dedicated m' ! k)) d = F (d_offset (lm_dedicated m ! k) + d) (abytes (d_data (lm_dedicated m ! k)) d)"
    and F: "\<And>g b. (\<And>r. r \<in> set (lm_shared m) \<Longrightarrow> \<not> in_shared g r) \<Longrightarrow> (\<And>d. d \<in> set (lm_dedicated m) \<Longrightarrow> \<not> in_dedicated g d) \<Longrightarrow> F g b = b"
  shows "segment m' = segment m \<lparr> abytes := (\<lambda>g. F g (abytes (segment m) g)) \<rparr>"
proof -
  have "abytes (segment m') g = F g (abytes (segment m) g)" for g
  proof -
    consider (s) k where "k < length (lm_shared m)" "in_shared g (lm_shared m ! k)"
      | (d) k where "k < length (lm_dedicated m)" "in_dedicated g (lm_dedicated m ! k)"
      | (n) "\<And>r. r \<in> set (lm_shared m) \<Longrightarrow> \<not> in_shared g r" "\<And>d. d \<in> set (lm_dedicated m) \<Longrightarrow> \<not> in_dedicated g d"
      by (metis in_set_conv_nth)
    then show ?thesis
    proof cases
      case (s k)
      let ?d = "g - (RQ_SIZE + k * SHARED_REGION_SIZE)"
      have g: "g = RQ_SIZE + k * SHARED_REGION_SIZE + ?d" "?d < SHARED_REGION_SIZE"
        using s(2) shared_okD(3,4) [OF lm_okD(1) [OF ok(1)] s(1)] by (auto simp: in_shared_def)
      show ?thesis
        using segment_shared [OF ok(1) s(1) g(2)] segment_shared [OF ok(2) _ g(2), of k] sh [OF s(1) g(2)] s(1) len(1) g(1) by simp
    next
      case (d k)
      let ?d = "g - d_offset (lm_dedicated m ! k)"
      have g: "g = d_offset (lm_dedicated m ! k) + ?d" "?d < d_size (lm_dedicated m ! k)" using d(2) by (auto simp: in_dedicated_def)
      show ?thesis
        using segment_dedicated [OF ok(1) d(1) g(2)] segment_dedicated [OF ok(2), of k ?d] ded [OF d(1)] de [OF d(1) g(2)] d(1) len(2) g by simp
    next
      case n
      have "\<not> in_shared g r" if r: "r \<in> set (lm_shared m')" for r
      proof -
        obtain k where k: "k < length (lm_shared m)" "r = lm_shared m' ! k" using r len(1) by (auto simp: in_set_conv_nth)
        have "\<not> in_shared g (lm_shared m ! k)" using n(1) k(1) by simp
        then show ?thesis
          using shared_okD(3,4) [OF lm_okD(1) [OF ok(1)] k(1)] shared_okD(3,4) [OF lm_okD(1) [OF ok(2)], of k] k len(1) by (simp add: in_shared_def)
      qed
      moreover have "\<not> in_dedicated g d" if d: "d \<in> set (lm_dedicated m')" for d
      proof -
        obtain k where k: "k < length (lm_dedicated m)" "d = lm_dedicated m' ! k" using d len(2) by (auto simp: in_set_conv_nth)
        have "\<not> in_dedicated g (lm_dedicated m ! k)" using n(2) k(1) by simp
        then show ?thesis using ded [OF k(1)] k(2) by (simp add: in_dedicated_def)
      qed
      ultimately have "abytes (segment m') g = abytes (lm_seg m') g" by (rule segment_elsewhere)
      then show ?thesis using segment_elsewhere [OF n] F [OF n] seg(1) by simp
    qed
  qed
  then show ?thesis using seg(2) by (simp add: segment_def fun_eq_iff)
qed


text \<open>The bytes a put leaves behind.\<close>

abbreviation overlay :: "nat \<Rightarrow> byte list \<Rightarrow> nat \<Rightarrow> byte \<Rightarrow> byte" where
  "overlay i bs g b \<equiv> if i \<le> g \<and> g < i + length bs then bs ! (g - i) else b"

lemma find_index_unique:
  assumes "k < n" "P k" "\<And>j. j < n \<Longrightarrow> P j \<Longrightarrow> j = k"
  shows "find P [0..<n] = Some k"
  unfolding find_Some_iff
proof (intro exI [of _ k] conjI allI impI)
  fix j assume "j < k"
  then show "\<not> P ([0..<n] ! j)" using assms(1) assms(3) [of j] by auto
qed (use assms(1,2) in simp_all)

lemma in_shared_index:
  assumes "lm_ok m Ls Bs" "j < length (lm_shared m)" "in_shared g (lm_shared m ! j)"
  shows "region_index g = j"
proof -
  note r = shared_okD(3,4) [OF lm_okD(1) [OF assms(1)] assms(2)]
  let ?d = "g - (RQ_SIZE + j * SHARED_REGION_SIZE)"
  have "g = RQ_SIZE + j * SHARED_REGION_SIZE + ?d" "?d < SHARED_REGION_SIZE"
    using assms(3) unfolding in_shared_def r by linarith+
  then show ?thesis using region_index_at by metis
qed

lemma arena_put_bytes: "arena_put ar s bs = Some br \<Longrightarrow> abytes br i = overlay s bs i (abytes ar i)"
  by (auto simp: arena_put_def split: if_splits)

lemma shared_put:
  assumes ok: "lm_ok m Ls Bs" and k: "k < length (lm_shared m)" and d: "(Ls ! k) d = Some c" "d + c \<le> SHARED_REGION_SIZE"
    and i: "RQ_SIZE + k * SHARED_REGION_SIZE + d + 8 \<le> i" "i + length bs \<le> RQ_SIZE + k * SHARED_REGION_SIZE + d + c" "bs \<noteq> []"
  obtains m' where "lm_put m i bs = Some m'" "lm_ok m' Ls Bs" "lives m' Ls Bs = lives m Ls Bs" "lm_same m m'" "lm_rq m' = lm_rq m"
    "arena_put (segment m) i bs = Some (segment m')"
proof -
  let ?base = "RQ_SIZE + k * SHARED_REGION_SIZE" and ?r = "lm_shared m ! k"
  note r = shared_okD [OF lm_okD(1) [OF ok] k] and D = lm_okD [OF ok]
  have len: "0 < length bs" using i(3) by simp
  have here: "in_shared i ?r" unfolding in_shared_def r(3,4) using i(1,2) len d(2) by linarith
  have uniq: "j = k" if "j < length (lm_shared m)" "in_shared i (lm_shared m ! j)" for j
    using in_shared_index [OF ok that] in_shared_index [OF ok k here] by simp
  have "i - ?base + length bs \<le> alen (r_data ?r)" unfolding region_okD(2) [OF r(2)] r(4) using i(1,2) d(2) by linarith
  from arena_put_ok [OF this] obtain ar where ar: "arena_put (r_data ?r) (i - ?base) bs = Some ar" by blast
  let ?m = "m \<lparr> lm_shared := (lm_shared m)[k := ?r \<lparr> r_data := ar \<rparr>] \<rparr>"
  have "find (\<lambda>j. in_shared i (lm_shared m ! j)) [0..<length (lm_shared m)] = Some k"
    using k here by (rule find_index_unique) (rule uniq)
  then have run: "lm_put m i bs = Some ?m" using ar r(3) by (simp add: lm_put_def)
  have "{i - ?base..<i - ?base + length bs} \<subseteq> client_area (Ls ! k)"
  proof
    fix x assume "x \<in> {i - ?base..<i - ?base + length bs}"
    then have "d + 8 \<le> x" "x < d + c" using i(1,2) by auto
    then show "x \<in> client_area (Ls ! k)" using d(1) unfolding client_area_mem by blast
  qed
  then have "same_outside (client_area (Ls ! k)) (r_data ?r) ar" by (rule same_outside_mono [OF arena_put_frame [OF ar]])
  from region_client_write [OF r(2) this] have "shared_ok ((lm_shared m)[k := ?r \<lparr> r_data := ar \<rparr>]) Ls"
    by (intro shared_ok_update_same [OF D(1) k]) simp_all
  then have ok': "lm_ok ?m Ls Bs" by (intro lm_okI_shared(2) [OF ok]) simp_all
  have end_k: "?base + SHARED_REGION_SIZE \<le> lm_max_shared_offset m"
    using D(4) mult_le_mono1 [of "Suc k" "length (lm_shared m)" SHARED_REGION_SIZE] k by simp
  have seg: "segment ?m = segment m \<lparr> abytes := (\<lambda>g. overlay i bs g (abytes (segment m) g)) \<rparr>"
  proof (rule segment_update [OF ok ok', where F = "overlay i bs"])
    show "length (lm_shared ?m) = length (lm_shared m)" "length (lm_dedicated ?m) = length (lm_dedicated m)"
      "lm_seg ?m = lm_seg m" "lm_size ?m = lm_size m" by simp_all
    show "d_offset (lm_dedicated ?m ! j) = d_offset (lm_dedicated m ! j) \<and> d_size (lm_dedicated ?m ! j) = d_size (lm_dedicated m ! j)" for j
      by simp
  next
    fix j e assume j: "j < length (lm_shared m)" "e < SHARED_REGION_SIZE"
    show "abytes (r_data (lm_shared ?m ! j)) e = overlay i bs (RQ_SIZE + j * SHARED_REGION_SIZE + e) (abytes (r_data (lm_shared m ! j)) e)"
    proof (cases "j = k")
      case True
      have "i - ?base \<le> e \<longleftrightarrow> i \<le> ?base + e" "e < i - ?base + length bs \<longleftrightarrow> ?base + e < i + length bs"
        "e - (i - ?base) = ?base + e - i" using i(1) by linarith+
      then show ?thesis using arena_put_bytes [OF ar, of e] True k by simp
    next
      case False
      have "\<not> (i \<le> RQ_SIZE + j * SHARED_REGION_SIZE + e \<and> RQ_SIZE + j * SHARED_REGION_SIZE + e < i + length bs)"
      proof
        assume a: "i \<le> RQ_SIZE + j * SHARED_REGION_SIZE + e \<and> RQ_SIZE + j * SHARED_REGION_SIZE + e < i + length bs"
        then have "region_index (?base + (RQ_SIZE + j * SHARED_REGION_SIZE + e - ?base)) = k"
          by (intro region_index_at) (use i d(2) in linarith)
        moreover have "?base + (RQ_SIZE + j * SHARED_REGION_SIZE + e - ?base) = RQ_SIZE + j * SHARED_REGION_SIZE + e" using a i(1) by linarith
        ultimately show False using region_index_at [OF j(2), of j] False by metis
      qed
      then have "overlay i bs (RQ_SIZE + j * SHARED_REGION_SIZE + e) (abytes (r_data (lm_shared m ! j)) e) = abytes (r_data (lm_shared m ! j)) e"
        by (rule if_not_P)
      then show ?thesis using False by simp
    qed
  next
    fix j e assume j: "j < length (lm_dedicated m)"
    have "i + length bs \<le> d_offset (lm_dedicated m ! j)" using dedicated_above(1) [OF ok j] end_k i(2) d(2) by linarith
    then show "abytes (d_data (lm_dedicated ?m ! j)) e = overlay i bs (d_offset (lm_dedicated m ! j) + e) (abytes (d_data (lm_dedicated m ! j)) e)" by simp
  next
    fix g b assume "\<And>r. r \<in> set (lm_shared m) \<Longrightarrow> \<not> in_shared g r"
    then have "\<not> in_shared g ?r" using k by simp
    then have "\<not> (i \<le> g \<and> g < i + length bs)" unfolding in_shared_def r(3,4) using i(1,2) d(2) by linarith
    then show "overlay i bs g b = b" by (rule if_not_P)
  qed
  have "i + length bs \<le> alen (segment m)"
    using end_k D(5) stacked_le [OF D(3)] i(2) d(2) by (simp add: segment_def)
  then have put: "arena_put (segment m) i bs = Some (segment ?m)" unfolding seg by (simp add: arena_put_def)
  have liv: "lives ?m Ls Bs = lives m Ls Bs" by (simp add: lives_def fun_eq_iff)
  show thesis by (rule that [OF run ok' liv _ _ put]) (simp_all add: lm_same_def)
qed

lemma dedicated_put:
  assumes ok: "lm_ok m Ls Bs" and k: "k < length (lm_dedicated m)"
    and i: "d_offset (lm_dedicated m ! k) + 8 \<le> i" "i + length bs \<le> d_offset (lm_dedicated m ! k) + d_size (lm_dedicated m ! k)" "bs \<noteq> []"
  obtains m' where "lm_put m i bs = Some m'" "lm_ok m' Ls Bs" "lives m' Ls Bs = lives m Ls Bs" "lm_same m m'" "lm_rq m' = lm_rq m"
    "arena_put (segment m) i bs = Some (segment m')"
proof -
  let ?ds = "lm_dedicated m" and ?d = "lm_dedicated m ! k"
  note D = lm_okD [OF ok] and ab = dedicated_above [OF ok k] and dk = dedicated_all_okD [OF lm_okD(2) [OF ok] k]
  have len: "0 < length bs" using i(3) by simp
  have here: "in_dedicated i ?d" unfolding in_dedicated_def using i(1,2) len by linarith
  have apart: "j = k" if "j < length ?ds" "x < d_offset (?ds ! j) + d_size (?ds ! j)" "d_offset (?ds ! j) \<le> x"
    "d_offset ?d \<le> x" "x < d_offset ?d + d_size ?d" for j x
    using stacked_disjoint [OF D(3), of j k] stacked_disjoint [OF D(3), of k j] that k by (cases j k rule: linorder_cases) auto
  have "\<not> in_shared i r" if r: "r \<in> set (lm_shared m)" for r
  proof -
    obtain j where j: "j < length (lm_shared m)" "r = lm_shared m ! j" using r by (auto simp: in_set_conv_nth)
    have "Suc j * SHARED_REGION_SIZE \<le> length (lm_shared m) * SHARED_REGION_SIZE" using j(1) by (intro mult_le_mono1) simp
    then show ?thesis
      using shared_okD(3,4) [OF D(1) j(1)] j(2) ab(1) D(4) i(1) by (simp add: in_shared_def)
  qed
  then have no: "find (\<lambda>j. in_shared i (lm_shared m ! j)) [0..<length (lm_shared m)] = None" by (auto simp: find_None_iff)
  have fd: "find (\<lambda>j. in_dedicated i (?ds ! j)) [0..<length ?ds] = Some k"
    using k here by (rule find_index_unique) (use here in \<open>auto simp: in_dedicated_def intro: apart\<close>)
  have alen: "alen (d_data ?d) = d_size ?d" using dk(2) by (simp add: dedicated_ok_def)
  have "i - d_offset ?d + length bs \<le> alen (d_data ?d)" unfolding alen using i(1,2) by linarith
  from arena_put_ok [OF this] obtain ar where ar: "arena_put (d_data ?d) (i - d_offset ?d) bs = Some ar" by blast
  let ?m = "m \<lparr> lm_dedicated := ?ds[k := ?d \<lparr> d_data := ar \<rparr>] \<rparr>"
  have run: "lm_put m i bs = Some ?m" using no fd ar by (simp add: lm_put_def)
  note fr = arena_put_frame [OF ar]
  have "offset_at ar 0 = offset_at (d_data ?d) 0" by (rule offset_at_frame [OF fr]) (use i(1) in auto)
  then have dk': "dedicated_ok (?d \<lparr> d_data := ar \<rparr>) (Bs ! k)"
    using dk(2) same_outside_alen [OF fr] by (simp add: dedicated_ok_def)
  have "dedicated_all_ok (?ds[k := ?d \<lparr> d_data := ar \<rparr>]) (Bs[k := Bs ! k])"
    by (rule dedicated_all_ok_update [OF D(2) k dk']) (use dk(3) in simp)
  moreover have "stacked (lm_size m) (?ds[k := ?d \<lparr> d_data := ar \<rparr>]) (lm_ded_offset m)"
    using D(3) stacked_cong [of "?ds[k := ?d \<lparr> d_data := ar \<rparr>]" ?ds "lm_size m" "lm_ded_offset m"] k by (simp add: nth_list_update)
  ultimately have ok': "lm_ok ?m Ls Bs" using ok by (simp add: lm_ok_def)
  have maps: "map d_offset (?ds[k := ?d \<lparr> d_data := ar \<rparr>]) = map d_offset ?ds" "map d_size (?ds[k := ?d \<lparr> d_data := ar \<rparr>]) = map d_size ?ds"
    using k by (simp_all add: map_update list_update_same_conv)
  have liv: "lives ?m Ls Bs = lives m Ls Bs" using dedicated_lives_cong [OF maps] by (simp add: lives_def fun_eq_iff)
  have seg: "segment ?m = segment m \<lparr> abytes := (\<lambda>g. overlay i bs g (abytes (segment m) g)) \<rparr>"
  proof (rule segment_update [OF ok ok', where F = "overlay i bs"])
    show "length (lm_shared ?m) = length (lm_shared m)" "length (lm_dedicated ?m) = length (lm_dedicated m)"
      "lm_seg ?m = lm_seg m" "lm_size ?m = lm_size m" by simp_all
    show "d_offset (lm_dedicated ?m ! j) = d_offset (lm_dedicated m ! j) \<and> d_size (lm_dedicated ?m ! j) = d_size (lm_dedicated m ! j)" for j
      using k by (cases "j = k") simp_all
  next
    fix j e assume j: "j < length (lm_shared m)" "e < SHARED_REGION_SIZE"
    have "Suc j * SHARED_REGION_SIZE \<le> length (lm_shared m) * SHARED_REGION_SIZE" using j(1) by (intro mult_le_mono1) simp
    then have "\<not> i \<le> RQ_SIZE + j * SHARED_REGION_SIZE + e" using j(2) ab(1) D(4) i(1) by simp
    then show "abytes (r_data (lm_shared ?m ! j)) e = overlay i bs (RQ_SIZE + j * SHARED_REGION_SIZE + e) (abytes (r_data (lm_shared m ! j)) e)"
      by simp
  next
    fix j e assume j: "j < length ?ds" "e < d_size (?ds ! j)"
    show "abytes (d_data (lm_dedicated ?m ! j)) e = overlay i bs (d_offset (?ds ! j) + e) (abytes (d_data (?ds ! j)) e)"
    proof (cases "j = k")
      case True
      have "i - d_offset ?d \<le> e \<longleftrightarrow> i \<le> d_offset ?d + e" "e < i - d_offset ?d + length bs \<longleftrightarrow> d_offset ?d + e < i + length bs"
        "e - (i - d_offset ?d) = d_offset ?d + e - i" using i(1) by linarith+
      then show ?thesis using arena_put_bytes [OF ar, of e] True k by simp
    next
      case False
      then have "\<not> (i \<le> d_offset (?ds ! j) + e \<and> d_offset (?ds ! j) + e < i + length bs)"
        using apart [of j "d_offset (?ds ! j) + e"] j i(1,2) by linarith
      then have "overlay i bs (d_offset (?ds ! j) + e) (abytes (d_data (?ds ! j)) e) = abytes (d_data (?ds ! j)) e" by (rule if_not_P)
      then show ?thesis using False by simp
    qed
  next
    fix g b assume "\<And>d. d \<in> set ?ds \<Longrightarrow> \<not> in_dedicated g d"
    then have "\<not> in_dedicated g ?d" using k by simp
    then have "\<not> (i \<le> g \<and> g < i + length bs)" unfolding in_dedicated_def using i(1,2) by linarith
    then show "overlay i bs g b = b" by (rule if_not_P)
  qed
  have "i + length bs \<le> alen (segment m)" using ab(2) i(2) by (simp add: segment_def)
  then have put: "arena_put (segment m) i bs = Some (segment ?m)" unfolding seg by (simp add: arena_put_def)
  show thesis by (rule that [OF run ok' liv _ _ put]) (simp_all add: lm_same_def)
qed

lemma lm_put_live:
  assumes "lm_inv m G" "G g = Some c" "g + 8 \<le> i" "i + length bs \<le> g + c" "bs \<noteq> []"
  obtains m' where "lm_put m i bs = Some m'" "lm_inv m' G" "lm_same m m'" "lm_rq m' = lm_rq m"
    "arena_put (segment m) i bs = Some (segment m')"
proof -
  obtain Ls Bs where ok: "lm_ok m Ls Bs" and G: "G = lives m Ls Bs" using assms(1) by (auto simp: lm_inv_def)
  have g: "lives m Ls Bs g = Some c" using assms(2) G by simp
  show thesis
    using ok g
  proof (cases rule: lives_cases)
    case (shared k d)
    show thesis
      by (rule shared_put [OF ok shared(2,3,5), of i bs]) (use assms(3-5) shared(1) G that lm_invI in auto)
  next
    case (dedicated k)
    show thesis
      by (rule dedicated_put [OF ok dedicated(1), of i bs]) (use assms(3-5) dedicated(3,4) G that lm_invI in auto)
  qed
qed

section \<open>A new segment\<close>

lemma build_regions_ok:
  assumes "build_regions uf seg n off mn mx = Some (Inr rs)" "off + n * SHARED_REGION_SIZE < 2 ^ 63" "32 \<le> mn" "mn < 2 ^ 32"
  shows "length rs = n \<and> (\<forall>k<n. region_ok (rs ! k) Map.empty \<and> r_offset (rs ! k) = off + k * SHARED_REGION_SIZE \<and>
    r_size (rs ! k) = SHARED_REGION_SIZE)"
  using assms(1,2)
proof (induction n arbitrary: off rs)
  case (Suc n)
  obtain r rest where r: "region_new uf (arena_window seg off SHARED_REGION_SIZE) SHARED_REGION_SIZE off mn mx = Some (Inr r)"
    and rest: "build_regions uf seg n (off + SHARED_REGION_SIZE) mn mx = Some (Inr rest)" and rs: "rs = r # rest"
    using Suc.prems(1) by (auto simp: bind_eq_Some_conv map_sum_Inr case_sum_Inr)
  have b: "off + SHARED_REGION_SIZE < 2 ^ 63" using Suc.prems(2) by simp
  have "region_ok r Map.empty" "r_offset r = off" "r_size r = SHARED_REGION_SIZE"
    using region_new_ok [OF r _ b assms(3,4)] by (simp_all add: arena_window_def)
  moreover note Suc.IH [OF rest]
  ultimately show ?case using Suc.prems(2) by (auto simp: rs less_Suc_eq_0_disj algebra_simps)
qed simp

text \<open>The layout the constructor does not check itself: the shared area ends inside the segment.\<close>

definition layout_fits :: "arena \<Rightarrow> nat \<Rightarrow> nat \<Rightarrow> nat \<Rightarrow> bool" where
  "layout_fits seg total_size shared_cap min_block \<longleftrightarrow> alen seg = total_size \<and> total_size \<le> 2 ^ 32 \<and>
     RQ_SIZE + shared_cap div SHARED_REGION_SIZE * SHARED_REGION_SIZE \<le> total_size \<and> 32 \<le> min_block \<and> min_block < 2 ^ 32"

lemma lm_new_inv:
  assumes new: "lm_new_with_size uf base seg total_size pinned shared_cap mn mx = Some (Inr m)"
    and fits: "layout_fits seg total_size shared_cap mn"
  shows "lm_inv m Map.empty" "new_rq base RQ_SIZE = Inr (lm_rq m)" "mpsc_repr (lm_rq m) [] (2 ^ 63 - 2)" "lm_size m = total_size" "\<not> lm_closed m"
    "m_head_cache (fst (lm_rq m)) = 0"
proof -
  let ?n = "shared_cap div SHARED_REGION_SIZE"
  have f: "alen seg = total_size" "total_size \<le> 2 ^ 32" "RQ_SIZE + ?n * SHARED_REGION_SIZE \<le> total_size" "32 \<le> mn" "mn < 2 ^ 32"
    using fits by (simp_all add: layout_fits_def)
  obtain rq rs mp where rq: "new_rq base RQ_SIZE = Inr rq" and rs: "build_regions uf seg ?n RQ_SIZE mn mx = Some (Inr rs)"
    and pin: "pinned \<le> shared_cap"
    and m: "m = \<lparr> lm_seg = seg, lm_size = total_size, lm_rq = rq, lm_shared = rs,
                lm_min_shared = pinned div SHARED_REGION_SIZE, lm_max_shared_payload = mp,
                lm_max_shared_offset = RQ_SIZE + ?n * SHARED_REGION_SIZE, lm_alloc_idx = 0,
                lm_min_block = mn, lm_max_block = mx, lm_dedicated = [], lm_ded_offset = total_size, lm_closed = False \<rparr>"
    using new by (auto simp: lm_new_with_size_def bind_eq_Some_conv Let_def case_sum_Inr split: if_splits)
  have "(2::nat) ^ 32 < 2 ^ 63" by simp
  then have lim: "RQ_SIZE + ?n * SHARED_REGION_SIZE < 2 ^ 63" using f(2,3) by linarith
  note b = build_regions_ok [OF rs lim f(4,5)]
  have "shared_ok rs (replicate ?n Map.empty)" using b by (simp add: shared_ok_def)
  moreover have "pinned div SHARED_REGION_SIZE \<le> ?n" using pin by (rule div_le_mono)
  ultimately have ok: "lm_ok m (replicate ?n Map.empty) []"
    using b f by (simp add: lm_ok_def m dedicated_all_ok_def)
  have "lives m (replicate ?n Map.empty) [] = Map.empty"
    by (auto simp: lives_def shared_lives_def dedicated_lives_def m fun_eq_iff)
  then show "lm_inv m Map.empty" using lm_invI [OF ok] by simp
  have new': "mpsc_new 8 8 0 base RQ_SIZE = Inr rq" "RQ_SIZE \<le> usize_max"
    using rq by (simp_all add: new_rq_def RQ_SIZE_def PAGE_SIZE_def usize_max_def)
  show "mpsc_repr (lm_rq m) [] (2 ^ 63 - 2)" using mpsc_new_repr(1) [OF new'] by (simp add: m)
  obtain q r where qr: "rq = (q, r)" by fastforce
  show "m_head_cache (fst (lm_rq m)) = 0" using mpsc_newD(4) [OF new'(1) [unfolded qr] new'(2)] by (simp add: m qr)
  show "new_rq base RQ_SIZE = Inr (lm_rq m)" "lm_size m = total_size" "\<not> lm_closed m" using rq by (simp_all add: m)
qed

end
