(* ===== verification/Remote_Manager.thy ===== *)
theory Remote_Manager
  imports Local_Manager
begin

text \<open>
  The reading side of a segment (\<open>RemoteManager\<close> of \<open>src/v5/dynshm.rs\<close>): it validates the buffer headers
  the peer wrote, walks the chain of a message, and reports finished buffers through the release queue. The
  mapped segment is an argument \<open>seg\<close>, the ring of the release queue an argument \<open>rq\<close>: both are shared
  with the owner. What this side keeps is \<open>remote_manager\<close>.
\<close>

record remote_manager =
  rm_size :: nat
  rm_rq :: mpsc
  rm_pending :: "int list"
  rm_closed :: bool

datatype map_error = UnexpectedSize nat nat | MapLayout layout_error

definition rm_map :: "nat \<Rightarrow> nat \<Rightarrow> nat \<Rightarrow> map_error + remote_manager" where
  "rm_map base file_size advertised =
     (let expected = (if advertised = 0 then DYNSHM_TOTAL_SIZE else advertised) in
      if file_size \<noteq> expected \<or> file_size < RQ_SIZE + DYNSHM_BUFFER_HEADER_SIZE then Inl (UnexpectedSize file_size expected)
      else case map_rq base RQ_SIZE of
        Inl e \<Rightarrow> Inl (MapLayout e)
      | Inr q \<Rightarrow> Inr \<lparr> rm_size = file_size, rm_rq = q, rm_pending = [], rm_closed = False \<rparr>)"

text \<open>The slice handed out is its start and length in the mapping.\<close>

definition read_inner :: "remote_manager \<Rightarrow> arena \<Rightarrow> int \<Rightarrow> ((nat \<times> nat) \<times> int) option option" where
  "read_inner m seg g =
     (if g < int RQ_SIZE \<or> g > int (rm_size m) - int DYNSHM_BUFFER_HEADER_SIZE then Some None
      else do {
        h \<leftarrow> read_buf_header seg (nat g);
        if h_offset h \<noteq> g \<or> h_len h > h_cap h then Some None
        else do {
          remaining \<leftarrow> checked_sub (rm_size m) (nat g + DYNSHM_BUFFER_HEADER_SIZE);
          if h_cap h > remaining then Some None
          else if h_next h \<noteq> 0 \<and>
              (h_next h < int RQ_SIZE \<or> h_next h > int (rm_size m) - int DYNSHM_BUFFER_HEADER_SIZE \<or> h_next h = g)
          then Some None
          else Some (Some ((nat g + DYNSHM_BUFFER_HEADER_SIZE, h_len h), h_next h))
        }
      })"

definition rm_read :: "remote_manager \<Rightarrow> arena \<Rightarrow> int \<Rightarrow> ((nat \<times> nat) \<times> int) option option" where
  "rm_read m seg g = (if rm_closed m then Some None else read_inner m seg g)"

text \<open>\<open>flush_releases\<close>: pushing from the front until the ring refuses.\<close>

fun flush_loop :: "mpsc \<Rightarrow> int ring \<Rightarrow> int list \<Rightarrow> (mpsc \<times> int ring \<times> int list) option" where
  "flush_loop q r [] = Some (q, r, [])"
| "flush_loop q r (g # gs) = do {
     (q', r', ok) \<leftarrow> mpsc_try_push q r g;
     if ok then flush_loop q' r' gs else Some (q', r', g # gs)
   }"

definition flush_releases :: "remote_manager \<Rightarrow> int ring \<Rightarrow> (remote_manager \<times> int ring \<times> (manager_error + unit)) option" where
  "flush_releases m rq = do {
     (q, rq', rest) \<leftarrow> flush_loop (rm_rq m) rq (rm_pending m);
     Some (m \<lparr> rm_rq := q, rm_pending := rest \<rparr>, rq', if rest = [] then Inr () else Inl ReleaseQueueFull)
   }"

definition rm_free :: "remote_manager \<Rightarrow> arena \<Rightarrow> int ring \<Rightarrow> int \<Rightarrow> (remote_manager \<times> int ring \<times> (manager_error + unit)) option" where
  "rm_free m seg rq g =
     (if rm_closed m then Some (m, rq, Inl ClosedM)
      else if g < int RQ_SIZE \<or> g > int (rm_size m) - int DYNSHM_BUFFER_HEADER_SIZE then Some (m, rq, Inl OutOfBounds)
      else do {
        h \<leftarrow> read_buf_header seg (nat g);
        if h_offset h \<noteq> g then Some (m, rq, Inl NotAllocatedM)
        else flush_releases (m \<lparr> rm_pending := rm_pending m @ [g] \<rparr>) rq
      })"

text \<open>The walk over a chain. Every visited offset is also collected, so the set of visited offsets is that
  of \<open>offsets\<close>.\<close>

function chain_walk :: "remote_manager \<Rightarrow> arena \<Rightarrow> int \<Rightarrow> int list \<Rightarrow> (manager_error + int list) option" where
  "chain_walk m seg offset offsets =
     (if \<not> offset > 0 then Some (Inr offsets)
      else if length offsets \<ge> MAX_CHAIN_NODES then Some (Inl OutOfBounds)
      else if offset \<in> set offsets then Some (Inl InvalidOffsetM)
      else do {
        res \<leftarrow> read_inner m seg offset;
        case res of
          None \<Rightarrow> Some (Inl InvalidOffsetM)
        | Some (_, next) \<Rightarrow> chain_walk m seg next (offsets @ [offset])
      })"
  by pat_completeness auto

termination
  by (relation "measure (\<lambda>(m, seg, offset, offsets). MAX_CHAIN_NODES - length offsets)") auto

definition rm_free_chain :: "remote_manager \<Rightarrow> arena \<Rightarrow> int ring \<Rightarrow> int \<Rightarrow> (remote_manager \<times> int ring \<times> (manager_error + unit)) option" where
  "rm_free_chain m seg rq root =
     (if rm_closed m then Some (m, rq, Inl ClosedM)
      else do {
        walked \<leftarrow> chain_walk m seg root [];
        case walked of
          Inl e \<Rightarrow> Some (m, rq, Inl e)
        | Inr offsets \<Rightarrow> flush_releases (m \<lparr> rm_pending := rm_pending m @ offsets \<rparr>) rq
      })"

definition retry_pending_releases :: "remote_manager \<Rightarrow> int ring \<Rightarrow> (remote_manager \<times> int ring \<times> (manager_error + unit)) option" where
  "retry_pending_releases m rq = (if rm_closed m then Some (m, rq, Inl ClosedM) else flush_releases m rq)"

definition rm_close_all :: "remote_manager \<Rightarrow> remote_manager" where
  "rm_close_all m = (if rm_closed m then m else m \<lparr> rm_closed := True, rm_pending := [] \<rparr>)"

section \<open>The reading side\<close>

text \<open>On any mapping of the right length, whatever its bytes, a read returns a slice behind the header, inside
  the mapping, or nothing.\<close>

lemma read_inner_total: "alen seg = rm_size p \<Longrightarrow> \<exists>res. read_inner p seg g = Some res"
  by (auto simp: read_inner_def read_buf_header_def arena_get_def checked_sub_def DYNSHM_BUFFER_HEADER_SIZE_def Let_def split: if_splits)

lemma read_inner_SomeD:
  assumes "read_inner p seg g = Some (Some ((s, n), nx))" "alen seg = rm_size p"
  obtains h where "int RQ_SIZE \<le> g" "s = nat g + 24" "s + n \<le> rm_size p" "read_buf_header seg (nat g) = Some h"
    "h_offset h = g" "h_len h = n" "n \<le> h_cap h" "s + h_cap h \<le> rm_size p" "h_next h = nx"
    "nx = 0 \<or> int RQ_SIZE \<le> nx \<and> nx + 24 \<le> int (rm_size p) \<and> nx \<noteq> g"
proof -
  from assms(1) have g: "int RQ_SIZE \<le> g" "g \<le> int (rm_size p) - 24"
    by (auto simp: read_inner_def DYNSHM_BUFFER_HEADER_SIZE_def split: if_splits)
  then obtain h where h: "read_buf_header seg (nat g) = Some h"
    using assms by (auto simp: read_inner_def bind_eq_Some_conv split: if_splits)
  have r: "nat g + 24 \<le> rm_size p" using g by linarith
  have body: "read_inner p seg g = (if h_offset h \<noteq> g \<or> h_len h > h_cap h then Some None
     else if h_cap h > rm_size p - (nat g + 24) then Some None
     else if h_next h \<noteq> 0 \<and> (h_next h < int RQ_SIZE \<or> h_next h > int (rm_size p) - 24 \<or> h_next h = g) then Some None
     else Some (Some ((nat g + 24, h_len h), h_next h)))"
    using g h r unfolding read_inner_def DYNSHM_BUFFER_HEADER_SIZE_def checked_sub_def by simp
  have c: "h_offset h = g" "h_len h \<le> h_cap h" "h_cap h \<le> rm_size p - (nat g + 24)" "s = nat g + 24" "n = h_len h" "h_next h = nx"
    "nx = 0 \<or> \<not> (nx < int RQ_SIZE \<or> nx > int (rm_size p) - 24 \<or> nx = g)"
    using assms(1) unfolding body by (auto split: if_splits)
  show thesis using r that [OF g(1) c(4) _ h c(1) c(5) [symmetric]] c by auto
qed

text \<open>The chain of buffers that starts at an offset, as the headers link it.\<close>

primrec path :: "remote_manager \<Rightarrow> arena \<Rightarrow> int \<Rightarrow> int list \<Rightarrow> bool" where
  "path p seg off [] \<longleftrightarrow> off \<le> 0"
| "path p seg off (g # gs) \<longleftrightarrow> off = g \<and> 0 < g \<and> (\<exists>sl nx. read_inner p seg g = Some (Some (sl, nx)) \<and> path p seg nx gs)"

declare chain_walk.simps [simp del]

lemma chain_walk_total:
  assumes "alen seg = rm_size p"
  shows "\<exists>res. chain_walk p seg off offs = Some res"
  using assms
proof (induction p seg off offs rule: chain_walk.induct)
  case (1 p seg off offs)
  obtain res where res: "read_inner p seg off = Some res" using read_inner_total [OF 1(2)] by blast
  show ?case
  proof (cases "0 < off \<and> length offs < MAX_CHAIN_NODES \<and> off \<notin> set offs \<and> res \<noteq> None")
    case True
    then obtain sl nx where "res = Some (sl, nx)" by fastforce
    then show ?thesis using 1(1) [of res "(sl, nx)" sl "nx"] 1(2) True res by (simp add: chain_walk.simps [of p seg off offs])
  next
    case False
    then show ?thesis using res by (cases res) (auto simp: chain_walk.simps [of p seg off offs] not_le)
  qed
qed

lemma chain_walk_Inr:
  assumes "chain_walk p seg off acc = Some (Inr offs)" "distinct acc" "length acc \<le> MAX_CHAIN_NODES"
  shows "\<exists>gs. offs = acc @ gs \<and> path p seg off gs \<and> distinct offs \<and> length offs \<le> MAX_CHAIN_NODES"
  using assms
proof (induction p seg off acc rule: chain_walk.induct)
  case (1 p seg off acc)
  show ?case
  proof (cases "0 < off")
    case False
    then show ?thesis using 1(2-4) by (auto simp: chain_walk.simps [of p seg off acc] intro!: exI [of _ "[]"])
  next
    case True
    then obtain sl nx where n: "length acc < MAX_CHAIN_NODES" "off \<notin> set acc" "read_inner p seg off = Some (Some (sl, nx))"
      "chain_walk p seg nx (acc @ [off]) = Some (Inr offs)"
      using 1(2) by (auto simp: chain_walk.simps [of p seg off acc] bind_eq_Some_conv split: if_splits option.splits)
    then obtain gs where "offs = (acc @ [off]) @ gs" "path p seg nx gs" "distinct offs" "length offs \<le> MAX_CHAIN_NODES"
      using 1(1) [OF _ _ _ n(3), of "(sl, nx)" sl "nx"] 1(3) True by auto
    then show ?thesis using True n(3) by (intro exI [of _ "off # gs"]) auto
  qed
qed

lemma chain_walk_path:
  assumes "path p seg off gs" "distinct (acc @ gs)" "length (acc @ gs) \<le> MAX_CHAIN_NODES"
  shows "chain_walk p seg off acc = Some (Inr (acc @ gs))"
  using assms
proof (induction gs arbitrary: off acc)
  case Nil
  then show ?case by (simp add: chain_walk.simps [of p seg off acc])
next
  case (Cons g gs)
  then obtain sl nx where n: "off = g" "0 < g" "read_inner p seg g = Some (Some (sl, nx))" "path p seg nx gs" by auto
  then have "chain_walk p seg nx (acc @ [g]) = Some (Inr (acc @ g # gs))" using Cons.IH [of "nx" "acc @ [g]"] Cons.prems by simp
  then show ?case unfolding n(1) using n(2,3) Cons.prems(2,3) by (simp add: chain_walk.simps [of p seg g acc])
qed

lemma chain_walk_Inl: "chain_walk p seg off acc = Some (Inl e) \<Longrightarrow> e = OutOfBounds \<or> e = InvalidOffsetM"
proof (induction p seg off acc rule: chain_walk.induct)
  case (1 p seg off acc)
  then show ?case
    by (subst (asm) (2) chain_walk.simps) (auto simp: bind_eq_Some_conv split: if_splits option.splits)
qed

section \<open>Reporting releases\<close>

lemma flush_loop_push_each:
  "flush_loop q r gs = map_option (\<lambda>((q', r'), rest). (q', r', rest)) (push_each fifo_push (q, r) gs)"
proof (induction gs arbitrary: q r)
  case (Cons g gs)
  show ?case
  proof (cases "mpsc_try_push q r g")
    case (Some t)
    obtain q' r' ok where "t = (q', r', ok)" by (cases t)
    then show ?thesis using Some Cons.IH by (cases ok) (simp_all add: fifo_push_def)
  qed (simp add: fifo_push_def)
qed simp

text \<open>What the peer has reported or still holds back: the ring, then the offsets that wait.\<close>

lemma flush_releases_split:
  assumes "mpsc_repr (rm_rq p, r) xs (length (rm_pending p) + b)"
  obtains q' r' ys zs where "flush_releases p r = Some (p \<lparr> rm_rq := q', rm_pending := zs \<rparr>, r', if zs = [] then Inr () else Inl ReleaseQueueFull)"
    "rm_pending p = ys @ zs" "mpsc_repr (q', r') (xs @ ys) (length zs + b)" "zs \<noteq> [] \<longrightarrow> length xs + length ys = capacity (rm_rq p)"
proof -
  obtain s' ys zs where s: "push_each fifo_push (rm_rq p, r) (rm_pending p) = Some (s', zs)" "rm_pending p = ys @ zs"
    "mpsc_repr s' (xs @ ys) (length zs + b)" "zs \<noteq> [] \<longrightarrow> length xs + length ys = capacity (rm_rq p)"
    using mq.push_each_split [OF assms] unfolding prod.case by blast
  obtain q' r' where "s' = (q', r')" by fastforce
  with s that show thesis by (simp add: flush_releases_def flush_loop_push_each)
qed

section \<open>Properties\<close>

text \<open>C32. Whatever bytes the peer put into the segment, \<open>read\<close> never reads outside the mapping and never
  fails: it returns nothing, or a slice that lies behind its header and inside the mapping, together
  with the offset of a next buffer that again has room for a header (0 if there is none).\<close>

theorem read_in_bounds:
  assumes "alen seg = rm_size p"
  shows "\<exists>res. rm_read p seg g = Some res \<and> (\<forall>s n nx. res = Some ((s, n), nx) \<longrightarrow>
    int s = g + 24 \<and> RQ_SIZE + 24 \<le> s \<and> s + n \<le> rm_size p \<and>
    (nx = 0 \<or> int RQ_SIZE \<le> nx \<and> nx + 24 \<le> int (rm_size p) \<and> nx \<noteq> g))"
proof (cases "rm_closed p")
  case True
  then show ?thesis by (simp add: rm_read_def)
next
  case False
  obtain res where res: "read_inner p seg g = Some res" using read_inner_total [OF assms] by blast
  have "int s = g + 24 \<and> RQ_SIZE + 24 \<le> s \<and> s + n \<le> rm_size p \<and>
      (nx = 0 \<or> int RQ_SIZE \<le> nx \<and> nx + 24 \<le> int (rm_size p) \<and> nx \<noteq> g)" if r: "res = Some ((s, n), nx)" for s n nx
    by (rule read_inner_SomeD [OF res [unfolded r] assms]) auto
  then show ?thesis using res False by (simp add: rm_read_def)
qed

text \<open>C33. The walk over a message's chain ends on every mapping, cyclic chains included. It succeeds exactly on
  the chains that the headers link to an end without repeating a buffer and in at most \<open>MAX_CHAIN_NODES\<close>
  nodes, and then returns their offsets in order; a refused chain changes nothing.\<close>

theorem free_chain_exact:
  assumes "alen seg = rm_size p" "\<not> rm_closed p"
  shows "(\<exists>res. chain_walk p seg root [] = Some res) \<and>
    (\<forall>offs. chain_walk p seg root [] = Some (Inr offs) \<longleftrightarrow> path p seg root offs \<and> distinct offs \<and> length offs \<le> MAX_CHAIN_NODES) \<and>
    ((\<nexists>offs. path p seg root offs \<and> distinct offs \<and> length offs \<le> MAX_CHAIN_NODES) \<longrightarrow>
      rm_free_chain p seg rq root = Some (p, rq, Inl OutOfBounds) \<or> rm_free_chain p seg rq root = Some (p, rq, Inl InvalidOffsetM))"
proof (intro conjI allI impI)
  show t: "\<exists>res. chain_walk p seg root [] = Some res" using chain_walk_total [OF assms(1)] .
  show e: "chain_walk p seg root [] = Some (Inr offs) \<longleftrightarrow> path p seg root offs \<and> distinct offs \<and> length offs \<le> MAX_CHAIN_NODES" for offs
    using chain_walk_Inr [of p seg root "[]" offs] chain_walk_path [of p seg root offs "[]"] by auto
  assume "\<nexists>offs. path p seg root offs \<and> distinct offs \<and> length offs \<le> MAX_CHAIN_NODES"
  then have "\<forall>offs. chain_walk p seg root [] \<noteq> Some (Inr offs)" using e by blast
  with t obtain err where err: "chain_walk p seg root [] = Some (Inl err)" by (metis sum.exhaust)
  from chain_walk_Inl [OF this] err assms(2)
  show "rm_free_chain p seg rq root = Some (p, rq, Inl OutOfBounds) \<or> rm_free_chain p seg rq root = Some (p, rq, Inl InvalidOffsetM)"
    by (auto simp: rm_free_chain_def)
qed

text \<open>C34. No release is lost, doubled or reordered: what the ring holds followed by what the peer still keeps
  back is, after \<open>free_chain\<close>, the same sequence as before with the chain behind it, and
  \<open>ReleaseQueueFull\<close> is reported exactly when something was kept back, which needs a full ring.\<close>

theorem free_chain_releases:
  assumes "chain_walk p seg root [] = Some (Inr offs)" "\<not> rm_closed p"
    and "mpsc_repr (rm_rq p, rq) xs (length (rm_pending p @ offs) + b)"
  shows "\<exists>p' rq' ys zs. rm_free_chain p seg rq root = Some (p', rq', if zs = [] then Inr () else Inl ReleaseQueueFull) \<and>
    mpsc_repr (rm_rq p', rq') ys (length zs + b) \<and> rm_pending p' = zs \<and> ys @ zs = xs @ rm_pending p @ offs \<and>
    (zs \<noteq> [] \<longrightarrow> length ys = capacity (rm_rq p))"
proof -
  let ?p = "p \<lparr> rm_pending := rm_pending p @ offs \<rparr>"
  have "mpsc_repr (rm_rq ?p, rq) xs (length (rm_pending ?p) + b)" using assms(3) by simp
  then show ?thesis
  proof (rule flush_releases_split)
    fix q' r' ys zs
    assume f: "flush_releases ?p rq = Some (?p \<lparr> rm_rq := q', rm_pending := zs \<rparr>, r', if zs = [] then Inr () else Inl ReleaseQueueFull)"
      "rm_pending ?p = ys @ zs" "mpsc_repr (q', r') (xs @ ys) (length zs + b)" "zs \<noteq> [] \<longrightarrow> length xs + length ys = capacity (rm_rq ?p)"
    show ?thesis
      using assms(1,2) f by (intro exI [of _ "?p \<lparr> rm_rq := q', rm_pending := zs \<rparr>"] exI [of _ r'] exI [of _ "xs @ ys"] exI [of _ zs])
        (simp add: rm_free_chain_def)
  qed
qed

section \<open>Witnesses\<close>

text \<open>A segment with one buffer behind the release queue that links to itself, and one that ends the chain.\<close>

definition ex_blank :: arena where "ex_blank = \<lparr> alen = 528384, abytes = (\<lambda>_. 0) \<rparr>"

definition ex_remote :: remote_manager where
  "ex_remote = \<lparr> rm_size = 528384, rm_rq = ex_mpsc, rm_pending = [], rm_closed = False \<rparr>"

definition ex_node :: "int \<Rightarrow> buf_header" where
  "ex_node nx = \<lparr> h_offset = 524288, h_next = nx, h_len = 5, h_cap = 40 \<rparr>"

definition ex_seg :: "int \<Rightarrow> arena" where
  "ex_seg nx = the (write_buf_header ex_blank 524288 (ex_node nx))"

lemma ex_seg:
  assumes "nx = 0 \<or> nx = 524288"
  shows "alen (ex_seg nx) = 528384" "read_buf_header (ex_seg nx) 524288 = Some (ex_node nx)"
proof -
  have w: "write_buf_header ex_blank 524288 (ex_node nx) = Some (ex_seg nx)"
    using write_buf_header_total [of 524288 ex_blank "ex_node nx"] by (auto simp: ex_seg_def ex_blank_def)
  show "alen (ex_seg nx) = 528384" using same_outside_alen [OF write_buf_header_frame [OF w]] by (simp add: ex_blank_def)
  show "read_buf_header (ex_seg nx) 524288 = Some (ex_node nx)"
    by (rule read_write_buf_header [OF w]) (use assms in \<open>auto simp: header_fits_def ex_node_def\<close>)
qed

lemma ex_read:
  "read_inner ex_remote (ex_seg 0) 524288 = Some (Some ((524312, 5), 0))"
  "read_inner ex_remote (ex_seg 524288) 524288 = Some None"
  using ex_seg [of 0] ex_seg [of 524288]
  by (simp_all add: read_inner_def ex_remote_def ex_node_def RQ_SIZE_def PAGE_SIZE_def DYNSHM_BUFFER_HEADER_SIZE_def checked_sub_def)

theorem read_in_bounds_witness: "\<exists>s n. rm_read ex_remote (ex_seg 0) 524288 = Some (Some ((s, n), 0)) \<and> s + n \<le> 528384"
  using read_in_bounds [of "ex_seg 0" ex_remote 524288] ex_seg(1) [of 0] ex_read(1) by (auto simp: rm_read_def ex_remote_def)

theorem free_chain_exact_witness:
  "chain_walk ex_remote (ex_seg 0) 524288 [] = Some (Inr [524288]) \<and>
   (rm_free_chain ex_remote (ex_seg 524288) (ring_zero 0) 524288 = Some (ex_remote, ring_zero 0, Inl OutOfBounds) \<or>
    rm_free_chain ex_remote (ex_seg 524288) (ring_zero 0) 524288 = Some (ex_remote, ring_zero 0, Inl InvalidOffsetM))"
proof
  have p: "path ex_remote (ex_seg 0) 524288 [524288]" using ex_read(1) by simp
  have m: "1 \<le> MAX_CHAIN_NODES" by (simp add: MAX_CHAIN_NODES_def DYNSHM_TOTAL_SIZE_def MIN_BLOCK_SIZE_def)
  show "chain_walk ex_remote (ex_seg 0) 524288 [] = Some (Inr [524288])"
    using free_chain_exact [of "ex_seg 0" ex_remote 524288] p m ex_seg(1) [of 0] by (simp add: ex_remote_def)
  have "\<not> path ex_remote (ex_seg 524288) 524288 offs" for offs using ex_read(2) by (cases offs) auto
  then show "rm_free_chain ex_remote (ex_seg 524288) (ring_zero 0) 524288 = Some (ex_remote, ring_zero 0, Inl OutOfBounds) \<or>
    rm_free_chain ex_remote (ex_seg 524288) (ring_zero 0) 524288 = Some (ex_remote, ring_zero 0, Inl InvalidOffsetM)"
    using free_chain_exact [of "ex_seg 524288" ex_remote 524288 "ring_zero 0"] ex_seg(1) [of 524288] by (simp add: ex_remote_def)
qed

theorem free_chain_releases_witness:
  "\<exists>p' rq' ys zs. rm_free_chain ex_remote (ex_seg 0) (ring_zero 0) 524288 = Some (p', rq', if zs = [] then Inr () else Inl ReleaseQueueFull) \<and>
     rm_pending p' = zs \<and> ys @ zs = [524288 :: int]"
proof -
  have p: "path ex_remote (ex_seg 0) 524288 [524288]" using ex_read(1) by simp
  have m: "1 \<le> MAX_CHAIN_NODES" by (simp add: MAX_CHAIN_NODES_def DYNSHM_TOTAL_SIZE_def MIN_BLOCK_SIZE_def)
  have w: "chain_walk ex_remote (ex_seg 0) 524288 [] = Some (Inr [524288])"
    using chain_walk_path [OF p, of "[]"] m by simp
  have "mpsc_repr (ex_mpsc, ring_zero 0) [] (2 ^ 63 - 2)"
    using mpsc_new_repr(1) [OF ex_mpsc_new [of 0]] by (simp add: usize_max_def)
  then have "mpsc_repr (rm_rq ex_remote, ring_zero 0) [] (length (rm_pending ex_remote @ [524288 :: int]) + (2 ^ 63 - 3))"
    by (simp add: ex_remote_def)
  from free_chain_releases [OF w _ this] show ?thesis by (auto simp: ex_remote_def)
qed

end
