(* ===== verification/Segment.thy ===== *)
theory Segment
  imports Local_Safety Remote_Manager
begin

text \<open>
  One segment between its two sides: the owner of \<open>Local_Manager\<close> and the reader of
  \<open>Remote_Manager\<close> share the mapping and the ring of the release queue. \<open>seg_run\<close> interleaves their
  calls, one call at a time; \<open>seg_inv\<close> is the invariant, stated through the buffers in use.
\<close>

section \<open>Two handles on one ring\<close>

definition same_ring :: "mpsc \<Rightarrow> mpsc \<Rightarrow> bool" where
  "same_ring q q' \<longleftrightarrow> m_cap_shift q' = m_cap_shift q \<and> m_slot_shift q' = m_slot_shift q \<and> m_mask q' = m_mask q"

lemma repr_other_handle:
  assumes "mpsc_repr (q, r) xs b" "same_ring q q'" "unat (m_head_cache q') \<le> unat (rg_head r)"
  shows "mpsc_repr (q', r) xs b"
proof -
  have g: "capacity q' = capacity q" "mpsc_ok q' = mpsc_ok q" "slot_at q' = slot_at q"
    using assms(2) by (auto simp: same_ring_def capacity_def mpsc_ok_def slot_at_def fun_eq_iff)
  then have "ring_at q' r h xs = ring_at q r h xs" for h by (simp add: ring_at_def)
  then show ?thesis using assms(1,3) g ring_atD(1) by (fastforce simp: mpsc_repr_def)
qed

lemma push_same_ring: "mpsc_try_push q r v = Some (q', r', ok) \<Longrightarrow> same_ring q q'"
  by (auto simp: mpsc_try_push_def try_claim_def same_ring_def Let_def split: if_splits)

lemma flush_same_ring: "flush_loop q r gs = Some (q', r', rest) \<Longrightarrow> same_ring q q'"
proof (induction gs arbitrary: q r)
  case (Cons g gs)
  then obtain q1 r1 ok where p: "mpsc_try_push q r g = Some (q1, r1, ok)" by (auto simp: bind_eq_Some_conv)
  with Cons show ?case using push_same_ring [OF p] by (cases ok) (fastforce simp: same_ring_def)+
qed (simp add: same_ring_def)

section \<open>The segment between its two sides\<close>

lemma without_append: "without G (xs @ ys) = without (without G xs) ys"
  by (auto simp: without_def fun_eq_iff)

lemma honest_append: "honest G (xs @ ys) \<longleftrightarrow> honest G xs \<and> honest (without G xs) ys"
proof
  assume a: "honest G (xs @ ys)"
  have "\<exists>g c. y = int g \<and> without G xs g = Some c" if y: "y \<in> set ys" for y
  proof -
    have "y \<notin> set xs" "\<exists>g c. y = int g \<and> G g = Some c" using a y by (auto simp: honest_def)
    then show ?thesis by (auto simp: without_def)
  qed
  then show "honest G xs \<and> honest (without G xs) ys" using a by (auto simp: honest_def)
next
  assume a: "honest G xs \<and> honest (without G xs) ys"
  then have y: "\<exists>g c. y = int g \<and> y \<notin> set xs \<and> G g = Some c" if "y \<in> set ys" for y
    using that by (fastforce simp: honest_def without_def split: if_splits)
  then have "set xs \<inter> set ys = {}" by blast
  then show "honest G (xs @ ys)" using a y by (fastforce simp: honest_def)
qed

lemma honest_fresh:
  assumes "honest G ys" "G g = None"
  shows "honest (G(g \<mapsto> c)) ys" "without (G(g \<mapsto> c)) ys = (without G ys)(g \<mapsto> c)"
proof -
  have n: "int g \<notin> set ys" using assms by (force simp: honest_def)
  show "honest (G(g \<mapsto> c)) ys" using assms n by (fastforce simp: honest_def)
  show "without (G(g \<mapsto> c)) ys = (without G ys)(g \<mapsto> c)" using n by (auto simp: without_def fun_eq_iff)
qed

lemma honest_drop:
  assumes "honest G ys" "without G ys g = Some c"
  shows "G g = Some c" "honest (G(g := None)) ys" "without (G(g := None)) ys = (without G ys)(g := None)"
proof -
  have n: "int g \<notin> set ys" and g: "G g = Some c" using assms(2) by (auto simp: without_def split: if_splits)
  show "G g = Some c" by (rule g)
  show "honest (G(g := None)) ys" using assms(1) n unfolding honest_def by (metis fun_upd_other)
  show "without (G(g := None)) ys = (without G ys)(g := None)" by (auto simp: without_def fun_eq_iff)
qed

text \<open>The owner serves the live buffers \<open>G\<close>; the peer's reports are the ring's content \<open>xs\<close> and its pending list,
  all of them live buffers, each once. The sides may exchange \<open>b\<close> more.\<close>

definition seg_core :: "local_manager \<Rightarrow> remote_manager \<Rightarrow> live \<Rightarrow> int list \<Rightarrow> nat \<Rightarrow> bool" where
  "seg_core m p G xs b \<longleftrightarrow> lm_inv m G \<and> honest G (xs @ rm_pending p) \<and>
     mpsc_repr (lm_rq m) xs (length (rm_pending p) + b) \<and>
     mpsc_repr (rm_rq p, snd (lm_rq m)) xs (length (rm_pending p) + b) \<and>
     same_ring (fst (lm_rq m)) (rm_rq p) \<and> m_head_cache (fst (lm_rq m)) = 0 \<and> rm_size p = lm_size m \<and>
     \<not> lm_closed m \<and> \<not> rm_closed p"

text \<open>\<open>H\<close> are the buffers in use: live and not reported free by the peer.\<close>

definition seg_inv :: "local_manager \<Rightarrow> remote_manager \<Rightarrow> live \<Rightarrow> nat \<Rightarrow> bool" where
  "seg_inv m p H b \<longleftrightarrow> (\<exists>G xs. seg_core m p G xs b \<and> H = without G (xs @ rm_pending p))"

lemma seg_coreD:
  assumes "seg_core m p G xs b"
  shows "lm_inv m G" "honest G (xs @ rm_pending p)" "mpsc_repr (lm_rq m) xs (length (rm_pending p) + b)"
    "mpsc_repr (rm_rq p, snd (lm_rq m)) xs (length (rm_pending p) + b)" "same_ring (fst (lm_rq m)) (rm_rq p)"
    "m_head_cache (fst (lm_rq m)) = 0" "rm_size p = lm_size m" "\<not> lm_closed m" "\<not> rm_closed p"
  using assms by (simp_all add: seg_core_def)

lemma seg_invE:
  assumes "seg_inv m p H b"
  obtains G xs where "seg_core m p G xs b" "H = without G (xs @ rm_pending p)"
  using assms by (auto simp: seg_inv_def)

lemma seg_invI: "seg_core m p G xs b \<Longrightarrow> H = without G (xs @ rm_pending p) \<Longrightarrow> seg_inv m p H b"
  unfolding seg_inv_def by blast

lemma seg_core_manager:
  assumes "seg_core m p G xs b" "lm_inv m' G'" "honest G' (xs @ rm_pending p)" "lm_same m m'" "lm_rq m' = lm_rq m"
  shows "seg_core m' p G' xs b"
  using assms by (simp add: seg_core_def lm_same_def)

text \<open>After a drain the live buffers and the buffers in use differ only by what the peer holds back.\<close>

lemma seg_core_drained:
  assumes c: "seg_core m p G xs b" and d: "drain_done m G xs (length (rm_pending p) + b) m1"
  shows "seg_core m1 p (without G xs) [] b"
proof -
  note i = seg_coreD [OF c]
  have cache: "unat (m_head_cache (rm_rq p)) \<le> unat (rg_head (snd (lm_rq m)))"
    using i(4) ring_atD(1) by (fastforce simp: mpsc_repr_def)
  define r where "r = snd (lm_rq m1)"
  have q: "lm_rq m1 = (fst (lm_rq m), r)" using d by (simp add: drain_done_def r_def prod_eq_iff)
  have rep: "mpsc_repr (fst (lm_rq m), r) [] (length (rm_pending p) + b)" using d q by (simp add: drain_done_def)
  then have "mpsc_repr (rm_rq p, r) [] (length (rm_pending p) + b)"
    by (rule repr_other_handle) (use d q i(5) cache in \<open>simp_all add: drain_done_def\<close>)
  then show ?thesis
    using d q rep i unfolding seg_core_def by (simp add: drain_done_def lm_same_def honest_append)
qed

text \<open>Where a live buffer lies, and what its header says.\<close>

lemma offset_at_window:
  assumes "offset_at ar p = Some x" "g + 24 \<le> alen br" "\<And>i. i < 24 \<Longrightarrow> abytes br (g + i) = abytes ar (p + i)"
  shows "offset_at br g = Some x"
proof -
  obtain h where "read_buf_header ar p = Some h" "h_offset h = x" using assms(1) by (auto simp: offset_at_def)
  then show ?thesis using read_buf_header_window [of ar p h g br] assms(2,3) by (simp add: offset_at_def)
qed

lemma lm_inv_live:
  assumes "lm_inv m G" "G g = Some c"
  shows "RQ_SIZE \<le> g" "24 \<le> c" "g + c \<le> lm_size m" "offset_at (segment m) g = Some (int g)"
proof -
  obtain Ls Bs where ok: "lm_ok m Ls Bs" and G: "G = lives m Ls Bs" using assms(1) by (auto simp: lm_inv_def)
  note D = lm_okD [OF ok]
  have g: "lives m Ls Bs g = Some c" using assms(2) G by simp
  have "RQ_SIZE \<le> g \<and> 24 \<le> c \<and> g + c \<le> lm_size m \<and> offset_at (segment m) g = Some (int g)"
    using ok g
  proof (cases rule: lives_cases)
    case (shared k d)
    note r = shared_okD [OF D(1) shared(2)]
    have "Suc k * SHARED_REGION_SIZE \<le> length (lm_shared m) * SHARED_REGION_SIZE" using shared(2) by (intro mult_le_mono1) simp
    then have b: "g + c \<le> lm_size m" using D(4,5) stacked_le [OF D(3)] shared(1,5) by simp
    have "offset_at (segment m) g = Some (int g)"
    proof (rule offset_at_window)
      show "offset_at (r_data (lm_shared m ! k)) d = Some (int g)" using region_okD(8) [OF r(2) shared(3)] r(3) shared(1) by (simp add: add.assoc)
      show "g + 24 \<le> alen (segment m)" using b shared(6) by (simp add: segment_def)
      show "abytes (segment m) (g + i) = abytes (r_data (lm_shared m ! k)) (d + i)" if "i < 24" for i
        using segment_shared [OF ok shared(2), of "d + i"] shared(1,5,6) that by (simp add: add.assoc)
    qed
    then show ?thesis using b shared(1,6) by simp
  next
    case (dedicated k)
    note ab = dedicated_above [OF ok dedicated(1)] and dk = dedicated_all_okD(2) [OF D(2) dedicated(1)]
    have "offset_at (segment m) g = Some (int g)"
    proof (rule offset_at_window)
      show "offset_at (d_data (lm_dedicated m ! k)) 0 = Some (int g)" using dk dedicated(2,3) by (simp add: dedicated_ok_def)
      show "g + 24 \<le> alen (segment m)" using ab dedicated(3) by (simp add: segment_def)
      show "abytes (segment m) (g + i) = abytes (d_data (lm_dedicated m ! k)) (0 + i)" if "i < 24" for i
        using segment_dedicated [OF ok dedicated(1), of i] ab(3) dedicated(3) that by simp
    qed
    then show ?thesis using ab D(4) dedicated(3,4) by simp
  qed
  then show "RQ_SIZE \<le> g" "24 \<le> c" "g + c \<le> lm_size m" "offset_at (segment m) g = Some (int g)" by auto
qed

lemma lm_inv_disjoint:
  assumes "lm_inv m G" "G g = Some c" "G g' = Some c'" "g \<noteq> g'"
  shows "{g..<g + c} \<inter> {g'..<g' + c'} = {}"
proof -
  obtain Ls Bs where ok: "lm_ok m Ls Bs" and G: "G = lives m Ls Bs" using assms(1) by (auto simp: lm_inv_def)
  note D = lm_okD [OF ok]
  have apart: "{g..<g + c} \<inter> {g'..<g' + c'} = {}" if "g + c \<le> g' \<or> g' + c' \<le> g" for g c g' c' :: nat using that by auto
  have cross: "g + c \<le> g'" if "lives m Ls Bs g = Some c" "lives m Ls Bs g' = Some c'" "g < lm_max_shared_offset m" "\<not> g' < lm_max_shared_offset m"
    for g c g' c'
    using ok that(1)
  proof (cases rule: lives_cases)
    case (shared k d)
    have "Suc k * SHARED_REGION_SIZE \<le> length (lm_shared m) * SHARED_REGION_SIZE" using shared(2) by (intro mult_le_mono1) simp
    then show ?thesis using shared(1,5) D(4) that(4) by simp
  next
    case (dedicated k)
    then show ?thesis using dedicated_above(1) [OF ok dedicated(1)] that(3) by simp
  qed
  have g: "lives m Ls Bs g = Some c" "lives m Ls Bs g' = Some c'" using assms(2,3) G by simp_all
  show ?thesis
    using ok g(1)
  proof (cases rule: lives_cases)
    case s: (shared k d)
    show ?thesis
      using ok g(2)
    proof (cases rule: lives_cases)
      case t: (shared k' d')
      show ?thesis
      proof (cases "k = k'")
        case True
        have "d \<noteq> d'" using assms(4) s(1) t(1) True by auto
        then have "d + c \<le> d' \<or> d' + c' \<le> d"
          using region_live_disjoint [OF shared_okD(2) [OF D(1) s(2)] s(3), of d' c'] t(3) True s(4,6) t(4,6)
          by (auto simp: disjoint_iff)
        then show ?thesis using s(1) t(1) True by (intro apart) auto
      next
        case False
        then consider "k < k'" | "k' < k" by linarith
        then have "Suc k * SHARED_REGION_SIZE \<le> k' * SHARED_REGION_SIZE \<or> Suc k' * SHARED_REGION_SIZE \<le> k * SHARED_REGION_SIZE"
          by cases (metis Suc_leI mult_le_mono1)+
        then show ?thesis using s(1,5) t(1,5) by (intro apart) auto
      qed
    next
      case t: (dedicated k')
      have "g < lm_max_shared_offset m" using s(1,5,6) D(4) mult_le_mono1 [of "Suc k" "length (lm_shared m)" SHARED_REGION_SIZE] s(2) by simp
      moreover have "\<not> g' < lm_max_shared_offset m" using dedicated_above(1) [OF ok t(1)] t(3) by simp
      ultimately show ?thesis using cross [OF g] by (intro apart) simp
    qed
  next
    case s: (dedicated k)
    show ?thesis
      using ok g(2)
    proof (cases rule: lives_cases)
      case t: (shared k' d')
      have "g' < lm_max_shared_offset m" using t(1,5,6) D(4) mult_le_mono1 [of "Suc k'" "length (lm_shared m)" SHARED_REGION_SIZE] t(2) by simp
      moreover have "\<not> g < lm_max_shared_offset m" using dedicated_above(1) [OF ok s(1)] s(3) by simp
      ultimately show ?thesis using cross [OF g(2,1)] by (intro apart) simp
    next
      case t: (dedicated k')
      have "k \<noteq> k'" using s(3) t(3) assms(4) by auto
      then consider "k < k'" | "k' < k" by linarith
      then show ?thesis
        by cases (use stacked_disjoint [OF D(3), of k k'] stacked_disjoint [OF D(3), of k' k] s t in \<open>auto intro!: apart simp del: Int_atLeastLessThan\<close>)
    qed
  qed
qed

section \<open>Steps of the two sides\<close>

lemma without_le: "without G ys g = Some c \<Longrightarrow> G g = Some c"
  by (simp add: without_def split: if_splits)

lemma seg_inv_open:
  assumes "seg_inv m p H b"
  shows "\<not> lm_closed m" "\<not> rm_closed p" "rm_size p = lm_size m"
proof -
  from assms obtain G xs where "seg_core m p G xs b" by (rule seg_invE)
  from seg_coreD(7-9) [OF this] show "\<not> lm_closed m" "\<not> rm_closed p" "rm_size p = lm_size m" by auto
qed

lemma seg_alloc:
  assumes s: "seg_inv m p H b" and now: "0 < now" and sz: "0 < sz"
  obtains
    (fail) m' where "lm_alloc m now sz = Some (m', Inl NoSpace)" "seg_inv m' p H b" "live_frame H m m'"
  | (hit) m' g c where "lm_alloc m now sz = Some (m', Inr g)" "seg_inv m' p (H(g \<mapsto> c)) b" "H g = None" "24 + sz \<le> c"
      "read_buf_header (segment m') g = Some \<lparr> h_offset = int g, h_next = 0, h_len = sz, h_cap = c - 24 \<rparr>"
      "live_frame H m m'"
proof -
  from s obtain G xs where c: "seg_core m p G xs b" and H: "H = without G (xs @ rm_pending p)" by (rule seg_invE)
  note i = seg_coreD [OF c]
  let ?G = "without G xs"
  have h: "honest G xs" "honest ?G (rm_pending p)" "H = without ?G (rm_pending p)"
    using i(2) H by (simp_all add: honest_append without_append)
  have fr: "live_frame H m m'" if "drain_done m G xs (length (rm_pending p) + b) m1" "live_frame ?G m1 m'" for m1 m'
  proof (rule live_frame_sub)
    show "live_frame ?G m m'" using that live_frame_trans by (auto simp: drain_done_def)
    show "?G g = Some c" if "H g = Some c" for g c using that h(3) without_le by simp
  qed
  show thesis
    using i(1,3) h(1) now i(8) sz
  proof (cases rule: lm_alloc_cases)
    case (fail m1 m')
    have c': "seg_core m' p ?G [] b"
      by (rule seg_core_manager [OF seg_core_drained [OF c fail(2)]]) (use fail(3) h(2) in \<open>simp_all add: lm_keeps_def\<close>)
    have "live_frame H m m'" using fr [OF fail(2)] fail(3) by (simp add: lm_keeps_def)
    then show thesis using that(1) [OF fail(1)] seg_invI [OF c'] h(3) by simp
  next
    case (hit m1 m' G' g)
    obtain k where k: "?G g = None" "G' = ?G(g \<mapsto> k)" "24 + sz \<le> k"
      "read_buf_header (segment m') g = Some \<lparr> h_offset = int g, h_next = 0, h_len = sz, h_cap = k - 24 \<rparr>"
      using hit(4) unfolding alloc_done_def by blast
    have a: "lm_same m1 m'" "lm_rq m' = lm_rq m1" "live_frame ?G m1 m'" using hit(4) by (simp_all add: alloc_done_def)
    note f = honest_fresh [OF h(2) k(1), of k]
    have c': "seg_core m' p G' [] b"
      by (rule seg_core_manager [OF seg_core_drained [OF c hit(2)] hit(3)]) (use f k(2) a in simp_all)
    have "seg_inv m' p (H(g \<mapsto> k)) b" by (rule seg_invI [OF c']) (use f(2) k(2) h(3) in simp)
    moreover have "H g = None" using k(1) h(3) by (simp add: without_def)
    ultimately show thesis using that(2) [OF hit(1)] k(3,4) fr [OF hit(2) a(3)] by blast
  qed
qed

lemma seg_live:
  assumes "seg_inv m p H b" "H g = Some c"
  shows "RQ_SIZE \<le> g" "24 \<le> c" "g + c \<le> lm_size m" "offset_at (segment m) g = Some (int g)"
proof -
  from assms(1) obtain G xs where c: "seg_core m p G xs b" and H: "H = without G (xs @ rm_pending p)" by (rule seg_invE)
  have "G g = Some c" using assms(2) H without_le by simp
  from lm_inv_live [OF seg_coreD(1) [OF c] this]
  show "RQ_SIZE \<le> g" "24 \<le> c" "g + c \<le> lm_size m" "offset_at (segment m) g = Some (int g)" by auto
qed

lemma seg_disjoint:
  assumes "seg_inv m p H b" "H g = Some c" "H g' = Some c'" "g \<noteq> g'"
  shows "{g..<g + c} \<inter> {g'..<g' + c'} = {}"
proof -
  from assms(1) obtain G xs where c: "seg_core m p G xs b" and H: "H = without G (xs @ rm_pending p)" by (rule seg_invE)
  have "G g = Some c" "G g' = Some c'" using assms(2,3) H without_le by simp_all
  from lm_inv_disjoint [OF seg_coreD(1) [OF c] this assms(4)] show ?thesis .
qed

lemma seg_free:
  assumes s: "seg_inv m p H b" and g: "H g = Some c" and now: "0 < now"
  obtains m' where "lm_free_at m now (int g) = Some m'" "seg_inv m' p (H(g := None)) b" "live_frame (H(g := None)) m m'"
proof -
  from s obtain G xs where c: "seg_core m p G xs b" and H: "H = without G (xs @ rm_pending p)" by (rule seg_invE)
  note i = seg_coreD [OF c] and d = honest_drop [OF seg_coreD(2) [OF c] g [unfolded H]]
  obtain m' where m': "free_at_inner m now (int g) = Some m'" "free_done m G g m'" using free_live [OF i(1) d(1) now] .
  have c': "seg_core m' p (G(g := None)) xs b"
    by (rule seg_core_manager [OF c]) (use m'(2) d(2) in \<open>simp_all add: free_done_def\<close>)
  have "seg_inv m' p (H(g := None)) b" by (rule seg_invI [OF c']) (simp only: H d(3))
  moreover have "live_frame (H(g := None)) m m'"
    by (rule live_frame_sub [of "G(g := None)"]) (use m'(2) H without_le in \<open>auto simp: free_done_def split: if_splits\<close>)
  ultimately show thesis using that m'(1) i(8) by (simp add: lm_free_at_def)
qed

lemma seg_put:
  assumes s: "seg_inv m p H b" and g: "H g = Some c" "g + 8 \<le> i" "i + length bs \<le> g + c" "bs \<noteq> []"
  obtains m' where "lm_put m i bs = Some m'" "seg_inv m' p H b" "arena_put (segment m) i bs = Some (segment m')"
proof -
  from s obtain G xs where c: "seg_core m p G xs b" and H: "H = without G (xs @ rm_pending p)" by (rule seg_invE)
  note d = seg_coreD [OF c]
  have "G g = Some c" using g(1) H without_le by simp
  then obtain m' where m': "lm_put m i bs = Some m'" "lm_inv m' G" "lm_same m m'" "lm_rq m' = lm_rq m" "arena_put (segment m) i bs = Some (segment m')"
    using lm_put_live [OF d(1) _ g(2-4)] by blast
  have "seg_inv m' p H b" by (rule seg_invI [OF seg_core_manager [OF c m'(2) d(2) m'(3,4)] H])
  with m'(1,5) show thesis using that by blast
qed

lemma seg_drain:
  assumes s: "seg_inv m p H b" and now: "0 < now"
  obtains m' n where "drain_rq m now = Some (m', n)" "seg_inv m' p H b" "live_frame H m m'" "rm_pending p = [] \<Longrightarrow> lm_inv m' H"
proof -
  from s obtain G xs where c: "seg_core m p G xs b" and H: "H = without G (xs @ rm_pending p)" by (rule seg_invE)
  note i = seg_coreD [OF c]
  have h: "honest G xs" using i(2) by (simp add: honest_append)
  obtain m' where m': "drain_rq_inner m now = Some (m', length xs)" "drain_done m G xs (length (rm_pending p) + b) m'"
    using drain_ok [OF i(1,3) h now] .
  have "seg_inv m' p H b" by (rule seg_invI [OF seg_core_drained [OF c m'(2)]]) (simp add: H without_append)
  moreover have "live_frame H m m'"
    by (rule live_frame_sub [of "without G xs"]) (use m'(2) H without_le in \<open>auto simp: drain_done_def without_append\<close>)
  moreover have "rm_pending p = [] \<Longrightarrow> lm_inv m' H" using m'(2) H by (simp add: drain_done_def)
  ultimately show thesis using that m'(1) i(8) by (simp add: drain_rq_def)
qed

lemma seg_prune:
  assumes s: "seg_inv m p H b"
  obtains m' where "prune_idle_regions m now = Some m'" "seg_inv m' p H b" "live_frame H m m'"
proof -
  from s obtain G xs where c: "seg_core m p G xs b" and H: "H = without G (xs @ rm_pending p)" by (rule seg_invE)
  note i = seg_coreD [OF c]
  obtain m' where m': "prune_idle_regions m now = Some m'" "lm_keeps m G m'" using prune_keeps [OF i(1,8)] .
  have "seg_inv m' p H b" by (rule seg_invI [OF seg_core_manager [OF c _ i(2)] H]) (use m'(2) in \<open>simp_all add: lm_keeps_def\<close>)
  moreover have "live_frame H m m'"
    by (rule live_frame_sub [of G]) (use m'(2) H without_le in \<open>auto simp: lm_keeps_def\<close>)
  ultimately show thesis using that m'(1) by blast
qed

text \<open>The peer's operations write the ring the owner reads.\<close>

definition set_ring :: "local_manager \<Rightarrow> int ring \<Rightarrow> local_manager" where
  "set_ring m r = m \<lparr> lm_rq := (fst (lm_rq m), r) \<rparr>"

lemma set_ring_segment [simp]: "segment (set_ring m r) = segment m" "lm_size (set_ring m r) = lm_size m"
  by (simp_all add: set_ring_def lm_rq_irrelevant)

lemma flush_releases_ring: "flush_releases p r = Some (p', r', res) \<Longrightarrow> same_ring (rm_rq p) (rm_rq p')"
  using flush_same_ring by (auto simp: flush_releases_def bind_eq_Some_conv)

lemma seg_flush:
  assumes s: "seg_inv m p H b"
  obtains p' r' ys where "flush_releases p (snd (lm_rq m)) = Some (p', r', if rm_pending p' = [] then Inr () else Inl ReleaseQueueFull)"
    "seg_inv (set_ring m r') p' H b" "rm_pending p = ys @ rm_pending p'"
proof -
  from s obtain G xs where c: "seg_core m p G xs b" and H: "H = without G (xs @ rm_pending p)" by (rule seg_invE)
  note i = seg_coreD [OF c]
  from i(4) show thesis
  proof (rule flush_releases_split)
    fix q' r' ys zs
    assume f: "flush_releases p (snd (lm_rq m)) = Some (p \<lparr> rm_rq := q', rm_pending := zs \<rparr>, r', if zs = [] then Inr () else Inl ReleaseQueueFull)"
      "rm_pending p = ys @ zs" "mpsc_repr (q', r') (xs @ ys) (length zs + b)"
    have sr: "same_ring (rm_rq p) q'" using flush_releases_ring [OF f(1)] by simp
    have "mpsc_repr (fst (lm_rq m), r') (xs @ ys) (length zs + b)"
      by (rule repr_other_handle [OF f(3)]) (use sr i(5,6) in \<open>simp_all add: same_ring_def\<close>)
    then have "seg_core (set_ring m r') (p \<lparr> rm_rq := q', rm_pending := zs \<rparr>) G (xs @ ys) b"
      using i f sr by (simp add: seg_core_def set_ring_def lm_rq_irrelevant same_ring_def)
    then have "seg_inv (set_ring m r') (p \<lparr> rm_rq := q', rm_pending := zs \<rparr>) H b"
      by (rule seg_invI) (simp add: H f(2))
    then show thesis using that [OF _ _ , of "p \<lparr> rm_rq := q', rm_pending := zs \<rparr>" r' ys] f(1,2) by simp
  qed
qed

lemma seg_report:
  assumes s: "seg_inv m p H (length offs + b)" and h: "honest H offs"
  shows "seg_inv m (p \<lparr> rm_pending := rm_pending p @ offs \<rparr>) (without H offs) b"
proof -
  from s obtain G xs where c: "seg_core m p G xs (length offs + b)" and H: "H = without G (xs @ rm_pending p)" by (rule seg_invE)
  note i = seg_coreD [OF c]
  have "honest G ((xs @ rm_pending p) @ offs)" using i(2) h H by (simp only: honest_append)
  then have "seg_core m (p \<lparr> rm_pending := rm_pending p @ offs \<rparr>) G xs b"
    using i by (simp add: seg_core_def add.assoc)
  then show ?thesis by (rule seg_invI) (simp add: H without_append)
qed

lemma seg_release:
  assumes s: "seg_inv m p H (Suc b)" and g: "H g = Some c"
  obtains p' r' where "rm_free p (segment m) (snd (lm_rq m)) (int g) = Some (p', r', if rm_pending p' = [] then Inr () else Inl ReleaseQueueFull)"
    "seg_inv (set_ring m r') p' (H(g := None)) b"
proof -
  from s obtain G xs where "seg_core m p G xs (Suc b)" by (rule seg_invE)
  note i = seg_coreD [OF this]
  note l = seg_live [OF s g]
  have "honest H [int g]" using g by (simp add: honest_def)
  then have s': "seg_inv m (p \<lparr> rm_pending := rm_pending p @ [int g] \<rparr>) (without H [int g]) b" using seg_report [of m p H "[int g]" b] s by simp
  have w: "without H [int g] = H(g := None)" by (auto simp: without_def fun_eq_iff)
  obtain h where h: "read_buf_header (segment m) g = Some h" "h_offset h = int g" using l(4) by (auto simp: offset_at_def)
  have free: "rm_free p (segment m) (snd (lm_rq m)) (int g) = flush_releases (p \<lparr> rm_pending := rm_pending p @ [int g] \<rparr>) (snd (lm_rq m))"
    using i(7,9) l h by (simp add: rm_free_def DYNSHM_BUFFER_HEADER_SIZE_def)
  show thesis by (rule seg_flush [OF s' [unfolded w]]) (use that free in simp)
qed

lemma seg_release_chain:
  assumes s: "seg_inv m p H (length offs + b)" and h: "honest H offs" and w: "chain_walk p (segment m) root [] = Some (Inr offs)"
  obtains p' r' where "rm_free_chain p (segment m) (snd (lm_rq m)) root = Some (p', r', if rm_pending p' = [] then Inr () else Inl ReleaseQueueFull)"
    "seg_inv (set_ring m r') p' (without H offs) b"
proof -
  from s obtain G xs where "seg_core m p G xs (length offs + b)" by (rule seg_invE)
  note i = seg_coreD [OF this]
  have free: "rm_free_chain p (segment m) (snd (lm_rq m)) root = flush_releases (p \<lparr> rm_pending := rm_pending p @ offs \<rparr>) (snd (lm_rq m))"
    using i(9) w by (simp add: rm_free_chain_def)
  show thesis by (rule seg_flush [OF seg_report [OF s h]]) (use that free in simp)
qed

section \<open>Runs\<close>

text \<open>Both sides at work on one segment: the owner allocates, frees, drains and prunes, clients write their
  buffers behind the \<open>offset\<close> field, the peer releases buffers it was handed. \<open>H\<close> are the
  buffers in use and \<open>n\<close> the releases made so far. The clock is positive.\<close>

inductive seg_run :: "local_manager \<Rightarrow> remote_manager \<Rightarrow> local_manager \<Rightarrow> remote_manager \<Rightarrow> live \<Rightarrow> nat \<Rightarrow> bool" for m0 p0 where
  start: "seg_run m0 p0 m0 p0 Map.empty 0"
| alloc: "seg_run m0 p0 m p H n \<Longrightarrow> 0 < now \<Longrightarrow> 0 < sz \<Longrightarrow> lm_alloc m now sz = Some (m', Inr g) \<Longrightarrow>
    read_buf_header (segment m') g = Some h \<Longrightarrow> seg_run m0 p0 m' p (H(g \<mapsto> h_cap h + 24)) n"
| no_space: "seg_run m0 p0 m p H n \<Longrightarrow> 0 < now \<Longrightarrow> 0 < sz \<Longrightarrow> lm_alloc m now sz = Some (m', Inl e) \<Longrightarrow> seg_run m0 p0 m' p H n"
| fill: "seg_run m0 p0 m p H n \<Longrightarrow> H g = Some c \<Longrightarrow> g + 8 \<le> i \<Longrightarrow> i + length bs \<le> g + c \<Longrightarrow> bs \<noteq> [] \<Longrightarrow>
    lm_put m i bs = Some m' \<Longrightarrow> seg_run m0 p0 m' p H n"
| take_back: "seg_run m0 p0 m p H n \<Longrightarrow> H g = Some c \<Longrightarrow> 0 < now \<Longrightarrow> lm_free_at m now (int g) = Some m' \<Longrightarrow>
    seg_run m0 p0 m' p (H(g := None)) n"
| release: "seg_run m0 p0 m p H n \<Longrightarrow> H g = Some c \<Longrightarrow>
    rm_free p (segment m) (snd (lm_rq m)) (int g) = Some (p', r', res) \<Longrightarrow> seg_run m0 p0 (set_ring m r') p' (H(g := None)) (Suc n)"
| release_chain: "seg_run m0 p0 m p H n \<Longrightarrow> chain_walk p (segment m) root [] = Some (Inr offs) \<Longrightarrow> honest H offs \<Longrightarrow>
    rm_free_chain p (segment m) (snd (lm_rq m)) root = Some (p', r', res) \<Longrightarrow>
    seg_run m0 p0 (set_ring m r') p' (without H offs) (length offs + n)"
| retry: "seg_run m0 p0 m p H n \<Longrightarrow> retry_pending_releases p (snd (lm_rq m)) = Some (p', r', res) \<Longrightarrow> seg_run m0 p0 (set_ring m r') p' H n"
| drain: "seg_run m0 p0 m p H n \<Longrightarrow> 0 < now \<Longrightarrow> drain_rq m now = Some (m', k) \<Longrightarrow> seg_run m0 p0 m' p H n"
| prune: "seg_run m0 p0 m p H n \<Longrightarrow> prune_idle_regions m now = Some m' \<Longrightarrow> seg_run m0 p0 m' p H n"

lemma seg_run_inv:
  assumes "seg_run m0 p0 m p H n" "seg_inv m0 p0 Map.empty B" "n \<le> B"
  shows "seg_inv m p H (B - n)"
  using assms(1,3)
proof (induction rule: seg_run.induct)
  case start
  then show ?case using assms(2) by simp
next
  case (alloc m p H n now sz m' g h)
  show ?case by (rule seg_alloc [OF alloc.IH [OF alloc.prems] alloc.hyps(2,3)]) (use alloc.hyps(4,5) in \<open>auto simp del: fun_upd_apply\<close>)
next
  case (no_space m p H n now sz m' e)
  show ?case by (rule seg_alloc [OF no_space.IH [OF no_space.prems] no_space.hyps(2,3)]) (use no_space.hyps(4) in auto)
next
  case (fill m p H n g c i bs m')
  show ?case by (rule seg_put [OF fill.IH [OF fill.prems] fill.hyps(2-5)]) (use fill.hyps(6) in auto)
next
  case (take_back m p H n g c now m')
  show ?case by (rule seg_free [OF take_back.IH [OF take_back.prems] take_back.hyps(2,3)]) (use take_back.hyps(4) in \<open>auto simp del: fun_upd_apply\<close>)
next
  case (release m p H n g c p' r' res)
  have "seg_inv m p H (Suc (B - Suc n))" using release.IH release.prems by (simp add: Suc_diff_Suc)
  from this release.hyps(2) show ?case by (rule seg_release) (use release.hyps(3) in \<open>auto simp del: fun_upd_apply\<close>)
next
  case (release_chain m p H n root offs p' r' res)
  have "seg_inv m p H (length offs + (B - (length offs + n)))" using release_chain.IH release_chain.prems by simp
  from this release_chain.hyps(3,2) show ?case by (rule seg_release_chain) (use release_chain.hyps(4) in auto)
next
  case (retry m p H n p' r' res)
  have s: "seg_inv m p H (B - n)" using retry.IH [OF retry.prems] .
  show ?case by (rule seg_flush [OF s]) (use retry.hyps(2) seg_inv_open(2) [OF s] in \<open>auto simp: retry_pending_releases_def\<close>)
next
  case (drain m p H n now m' k)
  show ?case by (rule seg_drain [OF drain.IH [OF drain.prems] drain.hyps(2)]) (use drain.hyps(3) in auto)
next
  case (prune m p H n now m')
  show ?case by (rule seg_prune [OF prune.IH [OF prune.prems], of now]) (use prune.hyps(2) in auto)
qed

section \<open>Properties\<close>

lemma raw_parts_same:
  assumes "from_raw_parts payload align base len = Inr q" "from_raw_parts payload align base' len = Inr q'"
  shows "same_ring q q'" "m_head_cache q' = 0"
  using assms by (auto simp: from_raw_parts_def same_ring_def Let_def split: if_splits)

text \<open>A segment of \<open>total\<close> bytes laid out by the owner and mapped by the peer, each at its own address, and the
  two sides at work. Positions of the ring are 64-bit counters; \<open>n < 2 ^ 62\<close> releases stay clear of their end.\<close>

definition seg_reach :: "nat \<Rightarrow> nat \<Rightarrow> nat \<Rightarrow> nat \<Rightarrow> nat \<Rightarrow> local_manager \<Rightarrow> remote_manager \<Rightarrow> live \<Rightarrow> nat \<Rightarrow> bool" where
  "seg_reach total_size pinned shared_cap mn mx m p H n \<longleftrightarrow> (\<exists>uf base base' seg adv m0 p0.
     lm_new_with_size uf base seg total_size pinned shared_cap mn mx = Some (Inr m0) \<and> layout_fits seg total_size shared_cap mn \<and>
     rm_map base' total_size adv = Inr p0 \<and> seg_run m0 p0 m p H n \<and> n < 2 ^ 62)"

lemma seg_start:
  assumes new: "lm_new_with_size uf base seg total_size pinned shared_cap mn mx = Some (Inr m0)"
    and fits: "layout_fits seg total_size shared_cap mn" and map: "rm_map base' total_size adv = Inr p0"
  shows "seg_inv m0 p0 Map.empty (2 ^ 63 - 2)"
proof -
  note l = lm_new_inv [OF new fits]
  obtain q r where q: "lm_rq m0 = (q, r)" by fastforce
  obtain q' where q': "map_rq base' RQ_SIZE = Inr q'" and p0: "p0 = \<lparr> rm_size = total_size, rm_rq = q', rm_pending = [], rm_closed = False \<rparr>"
    using map by (auto simp: rm_map_def Let_def split: if_splits sum.splits)
  have f: "from_raw_parts 8 8 base RQ_SIZE = Inr q" "from_raw_parts 8 8 base' RQ_SIZE = Inr q'"
    using l(2) q' q by (auto simp: new_rq_def map_rq_def mpsc_new_def mpsc_map_def split: sum.splits)
  note s = raw_parts_same [OF f]
  have "mpsc_repr (q', r) [] (2 ^ 63 - 2)" by (rule repr_other_handle [OF _ s(1)]) (use l(3) q s(2) in simp_all)
  then have "seg_core m0 p0 Map.empty [] (2 ^ 63 - 2)"
    using l q s by (simp add: seg_core_def p0 honest_def)
  then show ?thesis by (rule seg_invI) (simp add: p0)
qed

lemma seg_reach_inv:
  assumes "seg_reach total_size pinned shared_cap mn mx m p H n"
  obtains b where "seg_inv m p H (Suc b)"
proof -
  from assms obtain uf base base' seg adv m0 p0 where
    r: "lm_new_with_size uf base seg total_size pinned shared_cap mn mx = Some (Inr m0)" "layout_fits seg total_size shared_cap mn"
      "rm_map base' total_size adv = Inr p0" "seg_run m0 p0 m p H n" "n < 2 ^ 62" unfolding seg_reach_def by blast
  have "(2 :: nat) ^ 62 < 2 ^ 63 - 2" by simp
  then have n: "n < 2 ^ 63 - 2" using r(5) by linarith
  then have i: "seg_inv m p H (2 ^ 63 - 2 - n)" using seg_run_inv [OF r(4) seg_start [OF r(1-3)]] by simp
  have "2 ^ 63 - 2 - n = Suc (2 ^ 63 - 2 - n - 1)" using n by linarith
  then show thesis using i that by metis
qed

text \<open>C1. Two processes share a segment safely. However allocation, writes into buffers, releases by the peer,
  drains and pruning interleave, the buffers in use lie behind the release queue inside the segment, carry
  their own offset, and do not overlap; every operation on them returns.\<close>

theorem segment_buffers_safe:
  assumes "seg_reach total_size pinned shared_cap mn mx m p H n" "0 < now" "0 < sz"
  shows "(\<forall>g c. H g = Some c \<longrightarrow> RQ_SIZE \<le> g \<and> 24 \<le> c \<and> g + c \<le> lm_size m \<and> offset_at (segment m) g = Some (int g)) \<and>
    (\<forall>g c g' c'. H g = Some c \<longrightarrow> H g' = Some c' \<longrightarrow> g \<noteq> g' \<longrightarrow> {g..<g + c} \<inter> {g'..<g' + c'} = {}) \<and>
    (\<exists>m' res. lm_alloc m now sz = Some (m', res)) \<and>
    (\<forall>g\<in>dom H. \<exists>m'. lm_free_at m now (int g) = Some m') \<and>
    (\<forall>g\<in>dom H. \<exists>p' r' res. rm_free p (segment m) (snd (lm_rq m)) (int g) = Some (p', r', res) \<and> (res = Inr () \<or> res = Inl ReleaseQueueFull)) \<and>
    (\<exists>m' k. drain_rq m now = Some (m', k)) \<and> (\<exists>m'. prune_idle_regions m now = Some m')"
proof -
  from assms(1) obtain b where s: "seg_inv m p H (Suc b)" by (rule seg_reach_inv)
  show ?thesis
  proof (intro conjI allI impI ballI)
    fix g c assume g: "H g = Some c"
    show "RQ_SIZE \<le> g" "24 \<le> c" "g + c \<le> lm_size m" "offset_at (segment m) g = Some (int g)" using seg_live [OF s g] by simp_all
  next
    fix g c g' c' assume "H g = Some c" "H g' = Some c'" "g \<noteq> g'"
    then show "{g..<g + c} \<inter> {g'..<g' + c'} = {}" by (rule seg_disjoint [OF s])
  next
    show "\<exists>m' res. lm_alloc m now sz = Some (m', res)" by (rule seg_alloc [OF s assms(2,3)]) blast+
    show "\<exists>m' k. drain_rq m now = Some (m', k)" by (rule seg_drain [OF s assms(2)]) blast
    show "\<exists>m'. prune_idle_regions m now = Some m'" by (rule seg_prune [OF s, of now]) blast
  next
    fix g assume "g \<in> dom H"
    then obtain c where g: "H g = Some c" by blast
    show "\<exists>m'. lm_free_at m now (int g) = Some m'" by (rule seg_free [OF s g assms(2)]) blast
  next
    fix g assume "g \<in> dom H"
    then obtain c where "H g = Some c" by blast
    with s show "\<exists>p' r' res. rm_free p (segment m) (snd (lm_rq m)) (int g) = Some (p', r', res) \<and> (res = Inr () \<or> res = Inl ReleaseQueueFull)"
    proof (rule seg_release)
      fix p' r' assume "rm_free p (segment m) (snd (lm_rq m)) (int g) = Some (p', r', if rm_pending p' = [] then Inr () else Inl ReleaseQueueFull)"
      then show ?thesis by (cases "rm_pending p' = []") simp_all
    qed
  qed
qed

text \<open>C4. A successful allocation hands out memory nobody uses: the new buffer has room for the request, its
  header describes it, it overlaps no buffer in use, and no byte of a buffer in use changes. The only refusal
  is \<open>NoSpace\<close>.\<close>

theorem segment_alloc_fresh:
  assumes "seg_reach total_size pinned shared_cap mn mx m p H n" "0 < now" "0 < sz" "lm_alloc m now sz = Some (m', res)"
  shows "live_frame H m m' \<and> (res = Inl NoSpace \<or> (\<exists>g c. res = Inr g \<and> H g = None \<and> sz \<le> c \<and> RQ_SIZE \<le> g \<and> g + 24 + c \<le> lm_size m' \<and>
    read_buf_header (segment m') g = Some \<lparr> h_offset = int g, h_next = 0, h_len = sz, h_cap = c \<rparr> \<and>
    (\<forall>g' c'. H g' = Some c' \<longrightarrow> {g..<g + 24 + c} \<inter> {g'..<g' + c'} = {})))"
proof -
  from assms(1) obtain b where s: "seg_inv m p H (Suc b)" by (rule seg_reach_inv)
  from s assms(2,3) show ?thesis
  proof (cases rule: seg_alloc)
    case (fail m1)
    then show ?thesis using assms(4) by simp
  next
    case (hit m1 g c)
    have e: "m1 = m'" "res = Inr g" using hit(1) assms(4) by auto
    have n: "(H(g \<mapsto> c)) g = Some c" by simp
    have d: "{g..<g + c} \<inter> {g'..<g' + c'} = {}" if "H g' = Some c'" for g' c'
      by (rule seg_disjoint [OF hit(2) n]) (use that hit(3) in auto)
    have c: "24 + (c - 24) = c" "sz \<le> c - 24" using hit(4) by simp_all
    show ?thesis
      using e hit(3,5,6) c d seg_live(1,3) [OF hit(2) n] by (intro conjI disjI2 exI [of _ g] exI [of _ "c - 24"]) (simp_all add: add.assoc)
  qed
qed

text \<open>C2. What one process writes the other reads: after an allocation of \<open>length bs\<close> bytes and a write of the
  payload \<open>bs\<close>, the peer's \<open>read\<close> at the buffer's offset returns exactly the range that holds \<open>bs\<close>.\<close>

theorem segment_read_back:
  assumes "seg_reach total_size pinned shared_cap mn mx m p H n" "0 < now" "bs \<noteq> []"
    "lm_alloc m now (length bs) = Some (m1, Inr g)" "lm_put m1 (g + 24) bs = Some m2"
  shows "rm_read p (segment m2) (int g) = Some (Some ((g + 24, length bs), 0)) \<and>
    arena_get (segment m2) (g + 24) (g + 24 + length bs) = Some bs"
proof -
  from assms(1) obtain b where s: "seg_inv m p H (Suc b)" by (rule seg_reach_inv)
  have sz: "0 < length bs" using assms(3) by simp
  from s assms(2) sz show ?thesis
  proof (cases rule: seg_alloc)
    case (fail m')
    then show ?thesis using assms(4) by simp
  next
    case (hit m' g' c)
    have e: "m' = m1" "g' = g" using hit(1) assms(4) by auto
    have s1: "seg_inv m1 p (H(g \<mapsto> c)) (Suc b)" "(H(g \<mapsto> c)) g = Some c" using hit(2) e by simp_all
    obtain m3 where m3: "lm_put m1 (g + 24) bs = Some m3" "seg_inv m3 p (H(g \<mapsto> c)) (Suc b)" "arena_put (segment m1) (g + 24) bs = Some (segment m3)"
      by (rule seg_put [OF s1, of "g + 24" bs]) (use hit(4) assms(3) in auto)
    have m2: "m3 = m2" using m3(1) assms(5) by simp
    note l = seg_live [OF m3(2) s1(2)] and o = seg_inv_open [OF m3(2)]
    have "read_buf_header (segment m3) g = Some \<lparr> h_offset = int g, h_next = 0, h_len = length bs, h_cap = c - 24 \<rparr>"
      using read_buf_header_frame [OF arena_put_frame [OF m3(3)], of g] hit(5) e by auto
    then have "rm_read p (segment m3) (int g) = Some (Some ((g + 24, length bs), 0))"
      using l(1,3) o hit(4) by (auto simp: rm_read_def read_inner_def DYNSHM_BUFFER_HEADER_SIZE_def checked_sub_def)
    moreover have "arena_get (segment m3) (g + 24) (g + 24 + length bs) = Some bs" using arena_get_put [OF m3(3)] by simp
    ultimately show ?thesis using m2 by simp
  qed
qed

text \<open>C3. Nothing leaks: once every buffer has been released and the peer holds nothing back, one drain leaves
  every shared region without an allocation and every dedicated region free.\<close>

theorem segment_reclaims:
  assumes "seg_reach total_size pinned shared_cap mn mx m p Map.empty n" "0 < now" "rm_pending p = []"
  shows "\<exists>m' k. drain_rq m now = Some (m', k) \<and> (\<forall>r\<in>set (lm_shared m'). r_allocs r = 0) \<and>
    (\<forall>d\<in>set (lm_dedicated m'). dedicated_is_freed d = Some True)"
proof -
  from assms(1) obtain b where s: "seg_inv m p Map.empty (Suc b)" by (rule seg_reach_inv)
  obtain m' k where m': "drain_rq m now = Some (m', k)" "lm_inv m' Map.empty"
    by (rule seg_drain [OF s assms(2)]) (use assms(3) in blast)
  obtain Ls Bs where ok: "lm_ok m' Ls Bs" and G: "lives m' Ls Bs = Map.empty" using m'(2) by (auto simp: lm_inv_def)
  have "r_allocs r = 0" if r: "r \<in> set (lm_shared m')" for r
  proof -
    obtain k where k: "k < length (lm_shared m')" "r = lm_shared m' ! k" using r by (auto simp: in_set_conv_nth)
    note ro = shared_okD(2) [OF lm_okD(1) [OF ok] k(1)]
    have "(Ls ! k) d = None" for d
    proof (rule ccontr)
      assume "(Ls ! k) d \<noteq> None"
      then obtain c where c: "(Ls ! k) d = Some c" by blast
      then have "d < SHARED_REGION_SIZE" using region_live_bounds [OF ro c] region_okD(7) [OF ro c] shared_okD(4) [OF lm_okD(1) [OF ok] k(1)] by simp
      then show False using lives_shared [OF ok k(1)] c G by fastforce
    qed
    then have "Ls ! k = Map.empty" by auto
    then show ?thesis using ro k(2) by (simp add: region_ok_def)
  qed
  moreover have "dedicated_is_freed d = Some True" if d: "d \<in> set (lm_dedicated m')" for d
  proof -
    obtain k where k: "k < length (lm_dedicated m')" "d = lm_dedicated m' ! k" using d by (auto simp: in_set_conv_nth)
    have "\<not> Bs ! k" using lives_dedicated [OF ok k(1)] G by (auto split: if_splits)
    then show ?thesis using dedicated_is_freed_ok [OF dedicated_all_okD(2) [OF lm_okD(2) [OF ok] k(1)]] k(2) by simp
  qed
  ultimately show ?thesis using m'(1) by blast
qed

section \<open>Witnesses\<close>

text \<open>A segment without shared regions: every buffer is a dedicated region of one block.\<close>

definition ex_zero :: arena where "ex_zero = \<lparr> alen = 17301504, abytes = (\<lambda>_. 0) \<rparr>"

definition ex_rq :: mpsc where
  "ex_rq = \<lparr> m_base = 0, m_len = 524288, m_cap_shift = 14, m_slot_shift = 4, m_mask = 16383, m_head_cache = 0 \<rparr>"

definition ex_lm :: local_manager where
  "ex_lm = \<lparr> lm_seg = ex_zero, lm_size = 17301504, lm_rq = (ex_rq, ring_zero 0), lm_shared = [], lm_min_shared = 0,
     lm_max_shared_payload = 0, lm_max_shared_offset = 524288, lm_alloc_idx = 0, lm_min_block = 16384, lm_max_block = 262144,
     lm_dedicated = [], lm_ded_offset = 17301504, lm_closed = False \<rparr>"

definition ex_rm :: remote_manager where
  "ex_rm = \<lparr> rm_size = 17301504, rm_rq = ex_rq, rm_pending = [], rm_closed = False \<rparr>"

lemma ex_ring: "from_raw_parts 8 8 0 524288 = Inr ex_rq"
  by (simp add: from_raw_parts_def ex_rq_def slot_size_def SLOT_HEADER_SIZE_def next_power_of_two_def ilog2_def
      bit_length.simps MAX_PAYLOAD_ALIGN_def PAGE_SIZE_def MPSC_HEADER_SIZE_def)

lemma ex_rq_size: "RQ_SIZE = 524288"
  by (simp add: RQ_SIZE_def PAGE_SIZE_def)

lemma ex_lm_new: "lm_new_with_size False 0 ex_zero 17301504 0 0 16384 262144 = Some (Inr ex_lm)"
proof -
  have "is_power_of_two 16384" "is_power_of_two 262144"
    using is_power_of_two_iff [of 16384] is_power_of_two_iff [of 262144] by (auto intro: exI [of _ 14] exI [of _ 18])
  then show ?thesis
    by (simp add: lm_new_with_size_def ex_rq_size SHARED_REGION_SIZE_def new_rq_def mpsc_new_def ex_ring ex_lm_def)
qed

lemma ex_rm_map: "rm_map 0 17301504 17301504 = Inr ex_rm"
  by (simp add: rm_map_def ex_rq_size map_rq_def mpsc_map_def ex_ring ex_rm_def DYNSHM_BUFFER_HEADER_SIZE_def)

lemma ex_layout_fits: "layout_fits ex_zero 17301504 0 16384"
  by (simp add: layout_fits_def ex_zero_def ex_rq_size)

lemma ex_reach_run: "seg_run ex_lm ex_rm m p H n \<Longrightarrow> n < 2 ^ 62 \<Longrightarrow> seg_reach 17301504 0 0 16384 262144 m p H n"
  using ex_lm_new ex_rm_map ex_layout_fits unfolding seg_reach_def by blast

lemma ex_seg_reach: "seg_reach 17301504 0 0 16384 262144 ex_lm ex_rm Map.empty 0"
  by (rule ex_reach_run [OF seg_run.start]) simp

lemma ex_seg_alloc: "\<exists>m. lm_alloc ex_lm 1 5 = Some (m, Inr 17039360)"
proof -
  let ?w = "arena_window (lm_seg ex_lm) 17039360 262144"
  have "\<exists>ar. write_buf_header ?w 0 h = Some ar" for h by (rule write_buf_header_total) (simp add: arena_window_def)
  then obtain e where e: "dedicated_new ?w 262144 17039360 = Some e" unfolding dedicated_new_def by (metis bind.bind_lunit)
  note eo = dedicated_new_ok [OF e]
  have ok: "dedicated_ok e False" "d_offset e = 17039360" "d_size e = 262144" using eo by (simp_all add: arena_window_def)
  obtain d' where d': "dedicated_alloc e 1 5 = Some (d', Some 0)" "d_offset d' = 17039360"
    using dedicated_alloc_ok(2) [OF ok(1), of 5 1] ok(2,3) by auto
  have calc: "calc_dedicated_region_size 5 = 262144"
    by (simp add: calc_dedicated_region_size_def DYNSHM_BUFFER_HEADER_SIZE_def MAX_BLOCK_SIZE_def)
  have e': "dedicated_new (arena_window ex_zero 17039360 262144) 262144 17039360 = Some e" using e by (simp add: ex_lm_def)
  have "alloc_dedicated ex_lm 1 5 = Some (ex_lm \<lparr> lm_dedicated := [d'], lm_ded_offset := 17039360 \<rparr>, Inr 17039360)"
    unfolding alloc_dedicated_def calc Let_def using e' d' by (simp add: ex_lm_def checked_sub_def)
  then show ?thesis by (simp add: lm_alloc_def rq_pending_def) (simp add: ex_lm_def ring_zero_def)
qed

lemma ex_run_alloc: "\<exists>m c. seg_run ex_lm ex_rm m ex_rm [17039360 \<mapsto> c] 0 \<and> lm_alloc ex_lm 1 5 = Some (m, Inr 17039360)"
proof -
  obtain m where m: "lm_alloc ex_lm 1 5 = Some (m, Inr 17039360)" using ex_seg_alloc by blast
  from ex_seg_reach obtain b where s: "seg_inv ex_lm ex_rm Map.empty (Suc b)" by (rule seg_reach_inv)
  obtain h where h: "read_buf_header (segment m) 17039360 = Some h" by (rule seg_alloc [OF s, of 1 5]) (use m in auto)
  show ?thesis using seg_run.alloc [OF seg_run.start _ _ m h] m by auto
qed

theorem segment_buffers_safe_witness:
  "\<exists>m c. seg_reach 17301504 0 0 16384 262144 m ex_rm [17039360 \<mapsto> c] 0 \<and> 17039360 + c \<le> lm_size m \<and>
     offset_at (segment m) 17039360 = Some 17039360 \<and> (\<exists>m'. lm_free_at m 2 17039360 = Some m')"
proof -
  obtain m c where r: "seg_run ex_lm ex_rm m ex_rm [17039360 \<mapsto> c] 0" using ex_run_alloc by blast
  have a: "seg_reach 17301504 0 0 16384 262144 m ex_rm [17039360 \<mapsto> c] 0" by (rule ex_reach_run [OF r]) simp
  have "17039360 + c \<le> lm_size m \<and> offset_at (segment m) 17039360 = Some (int 17039360)"
    "\<exists>m'. lm_free_at m 2 (int 17039360) = Some m'"
    using segment_buffers_safe [OF a, of 2 5] by auto
  then show ?thesis using a by auto
qed

theorem segment_alloc_fresh_witness:
  "\<exists>m c. lm_alloc ex_lm 1 5 = Some (m, Inr 17039360) \<and> 5 \<le> c \<and>
     read_buf_header (segment m) 17039360 = Some \<lparr> h_offset = 17039360, h_next = 0, h_len = 5, h_cap = c \<rparr>"
proof -
  obtain m where m: "lm_alloc ex_lm 1 5 = Some (m, Inr 17039360)" using ex_seg_alloc by blast
  show ?thesis using segment_alloc_fresh [OF ex_seg_reach _ _ m] m by auto
qed

theorem segment_read_back_witness:
  "\<exists>m1 m2. lm_alloc ex_lm 1 5 = Some (m1, Inr 17039360) \<and> lm_put m1 17039384 [1, 2, 3, 4, 5] = Some m2 \<and>
     rm_read ex_rm (segment m2) 17039360 = Some (Some ((17039384, 5), 0)) \<and>
     arena_get (segment m2) 17039384 17039389 = Some [1, 2, 3, 4, 5]"
proof -
  let ?bs = "[1, 2, 3, 4, 5] :: byte list"
  obtain m c where r: "seg_run ex_lm ex_rm m ex_rm [17039360 \<mapsto> c] 0" and m: "lm_alloc ex_lm 1 5 = Some (m, Inr 17039360)"
    using ex_run_alloc by blast
  from ex_seg_reach obtain b where s: "seg_inv ex_lm ex_rm Map.empty (Suc b)" by (rule seg_reach_inv)
  obtain m2 where m2: "lm_put m (17039360 + 24) ?bs = Some m2"
  proof (rule seg_alloc [OF s, of 1 5])
    fix m' g k assume a: "lm_alloc ex_lm 1 5 = Some (m', Inr g)" "seg_inv m' ex_rm [g \<mapsto> k] (Suc b)" "24 + 5 \<le> k"
    show thesis by (rule seg_put [OF a(2), of g k "g + 24" ?bs]) (use a m that in auto)
  qed (use m in auto)
  have len: "length ?bs = 5" by simp
  have m5: "lm_alloc ex_lm 1 (length ?bs) = Some (m, Inr 17039360)" unfolding len by (rule m)
  have ne: "?bs \<noteq> []" by simp
  show ?thesis using segment_read_back [OF ex_seg_reach _ ne m5 m2] m m2 unfolding len by auto
qed

theorem segment_reclaims_witness:
  "\<exists>m m1 m' k. lm_alloc ex_lm 1 5 = Some (m, Inr 17039360) \<and> lm_free_at m 2 17039360 = Some m1 \<and> drain_rq m1 3 = Some (m', k) \<and>
     (\<forall>d\<in>set (lm_dedicated m'). dedicated_is_freed d = Some True)"
proof -
  obtain m c where r: "seg_run ex_lm ex_rm m ex_rm [17039360 \<mapsto> c] 0" and m: "lm_alloc ex_lm 1 5 = Some (m, Inr 17039360)"
    using ex_run_alloc by blast
  have "seg_reach 17301504 0 0 16384 262144 m ex_rm [17039360 \<mapsto> c] 0" by (rule ex_reach_run [OF r]) simp
  then obtain b where s: "seg_inv m ex_rm [17039360 \<mapsto> c] (Suc b)" by (rule seg_reach_inv)
  obtain m1 where m1: "lm_free_at m 2 (int 17039360) = Some m1" by (rule seg_free [OF s, of 17039360 c 2]) auto
  have r1: "seg_run ex_lm ex_rm m1 ex_rm Map.empty 0" using seg_run.take_back [OF r _ _ m1, of c] by simp
  have a: "seg_reach 17301504 0 0 16384 262144 m1 ex_rm Map.empty 0" by (rule ex_reach_run [OF r1]) simp
  show ?thesis using segment_reclaims [OF a, of 3] m m1 by (auto simp: ex_rm_def)
qed

lemma ex_region_builds:
  "\<exists>b. b_max_block b = 262144 \<and> (\<forall>data off. region_new False data SHARED_REGION_SIZE off 16384 262144 =
       Some (Inr \<lparr> r_offset = off, r_size = SHARED_REGION_SIZE, r_data = data, r_allocator = RBuddy b,
         r_allocs = 0, r_activated_at = 0, r_stale = False \<rparr>))"
proof -
  have "is_power_of_two 16384" "is_power_of_two 262144"
    using is_power_of_two_iff [of 16384] is_power_of_two_iff [of 262144] by (auto intro: exI [of _ 14] exI [of _ 18])
  then have "\<exists>b. buddy_new_with_block_size SHARED_REGION_SIZE 16384 262144 = Inr b \<and> b_max_block b = 262144"
    by (simp add: buddy_new_with_block_size_def Let_def SHARED_REGION_SIZE_def ALLOCATOR_HEADER_SIZE_def)
  then show ?thesis by (auto simp: region_new_def)
qed

text \<open>C5. The constructor accepts a shared area that does not fit: with room for one shared region it builds two,
  and the second lies behind the end of the mapping.\<close>

theorem shared_area_unchecked:
  "\<exists>m. lm_new_with_size False 0 ex_zero (RQ_SIZE + SHARED_REGION_SIZE) 0 (2 * SHARED_REGION_SIZE) 16384 262144 = Some (Inr m) \<and>
     lm_size m = RQ_SIZE + SHARED_REGION_SIZE \<and> (\<exists>r\<in>set (lm_shared m). lm_size m \<le> r_offset r)"
proof -
  let ?off = "RQ_SIZE + SHARED_REGION_SIZE"
  obtain b where b: "\<And>data off. region_new False data SHARED_REGION_SIZE off 16384 262144 =
       Some (Inr \<lparr> r_offset = off, r_size = SHARED_REGION_SIZE, r_data = data, r_allocator = RBuddy b,
         r_allocs = 0, r_activated_at = 0, r_stale = False \<rparr>)" and mb: "b_max_block b = 262144" using ex_region_builds by blast
  define w where "w off = \<lparr> r_offset = off, r_size = SHARED_REGION_SIZE, r_data = arena_window ex_zero off SHARED_REGION_SIZE,
    r_allocator = RBuddy b, r_allocs = 0, r_activated_at = 0, r_stale = False \<rparr>" for off
  have two: "build_regions False ex_zero 2 RQ_SIZE 16384 262144 = Some (Inr [w RQ_SIZE, w ?off])"
    by (simp add: numeral_2_eq_2 b w_def)
  have k: "region_max_payload (w RQ_SIZE) = Some 262112"
    by (simp add: region_max_payload_def w_def buddy_max_allocation_def mb checked_sub_def ALLOCATOR_HEADER_SIZE_def DYNSHM_BUFFER_HEADER_SIZE_def)
  have pow: "is_power_of_two 16384" "is_power_of_two 262144"
    using is_power_of_two_iff [of 16384] is_power_of_two_iff [of 262144] by (auto intro: exI [of _ 14] exI [of _ 18])
  have rq: "new_rq 0 RQ_SIZE = Inr (ex_rq, ring_zero 0)" by (simp add: new_rq_def mpsc_new_def ex_rq_size ex_ring)
  have cnt: "2 * SHARED_REGION_SIZE div SHARED_REGION_SIZE = 2" by simp
  show ?thesis unfolding lm_new_with_size_def cnt Let_def two rq using pow k by (simp add: w_def)
qed

end
