(* ===== verification/Cells.thy ===== *)
theory Cells
  imports Consts
begin

text \<open>
  Typed access to a shared mapping. The first byte of a mapping has a page-aligned address, so the alignment
  of an access is that of its offset; an access outside the mapping or a misaligned one is \<open>None\<close>.
  Arithmetic on \<open>u32\<close> values that leaves their range panics.
\<close>

named_theorems cell_simps \<open>reading one cell after writing another\<close>

definition i64_chk :: "int \<Rightarrow> int option" where
  "i64_chk z = (if - (2 ^ 63) \<le> z \<and> z < 2 ^ 63 then Some z else None)"

definition load_u32 :: "arena \<Rightarrow> nat \<Rightarrow> 32 word option" where
  "load_u32 ar p = (if p mod 4 \<noteq> 0 then None
     else map_option (\<lambda>bs. of_nat (le_nat bs)) (arena_get ar p (p + 4)))"

definition store_u32 :: "arena \<Rightarrow> nat \<Rightarrow> 32 word \<Rightarrow> arena option" where
  "store_u32 ar p v = (if p mod 4 \<noteq> 0 then None else arena_put ar p (le_bytes 4 (unat v)))"

definition get_u32 :: "arena \<Rightarrow> nat \<Rightarrow> nat option" where
  "get_u32 ar p = map_option unat (load_u32 ar p)"

definition set_u32 :: "arena \<Rightarrow> nat \<Rightarrow> nat \<Rightarrow> arena option" where
  "set_u32 ar p n = store_u32 ar p (of_nat n)"

definition get_u8 :: "arena \<Rightarrow> nat \<Rightarrow> byte option" where
  "get_u8 ar p = map_option hd (arena_get ar p (p + 1))"

definition set_u8 :: "arena \<Rightarrow> nat \<Rightarrow> byte \<Rightarrow> arena option" where
  "set_u8 ar p b = arena_put ar p [b]"

text \<open>\<open>fetch_add\<close> wraps; it returns the old value. Subtraction is the addition of the complement.\<close>

definition fetch_add :: "arena \<Rightarrow> nat \<Rightarrow> 32 word \<Rightarrow> (arena \<times> 32 word) option" where
  "fetch_add ar p w = do {
     v \<leftarrow> load_u32 ar p;
     ar' \<leftarrow> store_u32 ar p (v + w);
     Some (ar', v)
   }"

definition u32_add :: "nat \<Rightarrow> nat \<Rightarrow> nat option" where
  "u32_add a b = (if a + b < 2 ^ 32 then Some (a + b) else None)"

definition u32_mul :: "nat \<Rightarrow> nat \<Rightarrow> nat option" where
  "u32_mul a b = (if a * b < 2 ^ 32 then Some (a * b) else None)"

section \<open>Lemmas\<close>

lemma i64_chk_in [simp]: "- (2 ^ 63) \<le> z \<Longrightarrow> z < 2 ^ 63 \<Longrightarrow> i64_chk z = Some z"
  by (simp add: i64_chk_def)

lemma store_u32_ok:
  assumes "p mod 4 = 0" "p + 4 \<le> alen ar"
  shows "\<exists>ar'. store_u32 ar p v = Some ar' \<and> load_u32 ar' p = Some v \<and> same_outside {p..<p + 4} ar ar'"
proof -
  obtain ar' where ar': "arena_put ar p (le_bytes 4 (unat v)) = Some ar'"
    using assms(2) arena_put_ok [of p "le_bytes 4 (unat v)" ar] by auto
  have "unat v < 2 ^ 32" using unsigned_less [of v, where 'a=nat] by simp
  then have "unat v mod 256 ^ 4 = unat v" by simp
  then have "load_u32 ar' p = Some v"
    using assms(1) arena_get_put [OF ar', of "p + 4"] by (simp add: load_u32_def)
  then show ?thesis using ar' assms(1) arena_put_frame [OF ar'] by (simp add: store_u32_def)
qed

lemma load_u32_frame [arena_simps]:
  "same_outside S ar ar' \<Longrightarrow> {p..<p + 4} \<inter> S = {} \<Longrightarrow> load_u32 ar' p = load_u32 ar p"
  by (simp add: load_u32_def arena_get_frame)

lemma set_u32_ok:
  assumes "p mod 4 = 0" "p + 4 \<le> alen ar" "n < 2 ^ 32"
  shows "\<exists>ar'. set_u32 ar p n = Some ar' \<and> get_u32 ar' p = Some n \<and> same_outside {p..<p + 4} ar ar'"
proof -
  have "unat (of_nat n :: 32 word) = n" using assms(3) by (simp add: unat_of_nat take_bit_nat_eq_self)
  then show ?thesis using store_u32_ok [OF assms(1,2), of "of_nat n"] by (auto simp: set_u32_def get_u32_def)
qed

lemma set_u8_ok:
  assumes "p < alen ar"
  shows "\<exists>ar'. set_u8 ar p b = Some ar' \<and> get_u8 ar' p = Some b \<and> same_outside {p} ar ar'"
proof -
  obtain ar' where ar': "arena_put ar p [b] = Some ar'" using assms arena_put_ok [of p "[b]" ar] by auto
  moreover have "{p..<p + length [b]} = {p}" by auto
  ultimately show ?thesis using arena_put_frame [OF ar'] arena_get_put [OF ar', of "p + 1"]
    by (simp add: set_u8_def get_u8_def)
qed

lemma get_u32_frame [arena_simps]:
  "same_outside S ar ar' \<Longrightarrow> {p..<p + 4} \<inter> S = {} \<Longrightarrow> get_u32 ar' p = get_u32 ar p"
  by (simp add: get_u32_def load_u32_frame)

lemma get_u8_frame [arena_simps]:
  "same_outside S ar ar' \<Longrightarrow> p \<notin> S \<Longrightarrow> get_u8 ar' p = get_u8 ar p"
  by (simp add: get_u8_def arena_get_frame)

lemma get_u32_defined: "p mod 4 = 0 \<Longrightarrow> p + 4 \<le> alen ar \<Longrightarrow> \<exists>n. get_u32 ar p = Some n \<and> n < 2 ^ 32"
proof -
  assume "p mod 4 = 0" "p + 4 \<le> alen ar"
  then obtain w where "load_u32 ar p = Some w" by (auto simp: load_u32_def arena_get_def)
  then show ?thesis using unsigned_less [of w, where 'a = nat] by (auto simp: get_u32_def)
qed

lemma get_u8_defined: "p < alen ar \<Longrightarrow> \<exists>b. get_u8 ar p = Some b"
  by (auto simp: get_u8_def arena_get_def)

section \<open>Cells: reading one after writing another\<close>

lemma load_store_u32 [cell_simps]:
  assumes "store_u32 ar p w = Some ar'"
  shows "load_u32 ar' q = (if q = p then Some w else load_u32 ar q)"
proof (cases "q mod 4 = 0")
  case True
  have p: "p mod 4 = 0" and put: "arena_put ar p (le_bytes 4 (unat w)) = Some ar'"
    using assms by (auto simp: store_u32_def split: if_splits)
  have len: "p + 4 \<le> alen ar" using put by (auto simp: arena_put_def split: if_splits)
  show ?thesis
  proof (cases "q = p")
    case True
    then show ?thesis using store_u32_ok [OF p len, of w] assms by auto
  next
    case False
    then have "{q..<q + 4} \<inter> {p..<p + 4} = {}" using True p by (auto simp: disjoint_iff) presburger
    then show ?thesis using False load_u32_frame [OF arena_put_frame [OF put, simplified], of q] by simp
  qed
next
  case False
  then show ?thesis using assms by (auto simp: load_u32_def store_u32_def split: if_splits)
qed

lemma get_set_u32 [cell_simps]:
  assumes "set_u32 ar p n = Some ar'" "n < 2 ^ 32"
  shows "get_u32 ar' q = (if q = p then Some n else get_u32 ar q)"
  using load_store_u32 [OF assms(1) [unfolded set_u32_def], of q] assms(2)
  by (simp add: get_u32_def unat_of_nat take_bit_nat_eq_self)

lemma get_store_u32 [cell_simps]:
  "store_u32 ar p w = Some ar' \<Longrightarrow> get_u32 ar' q = (if q = p then Some (unat w) else get_u32 ar q)"
  by (simp add: get_u32_def load_store_u32)

lemma load_set_u32 [cell_simps]:
  "set_u32 ar p n = Some ar' \<Longrightarrow> load_u32 ar' q = (if q = p then Some (of_nat n) else load_u32 ar q)"
  by (simp add: set_u32_def load_store_u32)

lemma get_u8_store_u32 [cell_simps]:
  assumes "store_u32 ar p w = Some ar'" "q < p \<or> p + 4 \<le> q"
  shows "get_u8 ar' q = get_u8 ar q"
proof -
  have "arena_put ar p (le_bytes 4 (unat w)) = Some ar'" using assms(1) by (auto simp: store_u32_def split: if_splits)
  then show ?thesis using get_u8_frame [OF arena_put_frame] assms(2) by auto
qed

lemma get_u8_set_u32 [cell_simps]:
  "set_u32 ar p n = Some ar' \<Longrightarrow> q < p \<or> p + 4 \<le> q \<Longrightarrow> get_u8 ar' q = get_u8 ar q"
  by (simp add: set_u32_def get_u8_store_u32)

lemma get_set_u8 [cell_simps]:
  assumes "set_u8 ar p b = Some ar'"
  shows "get_u8 ar' q = (if q = p then Some b else get_u8 ar q)"
proof (cases "q = p")
  case True
  have "p < alen ar" using assms by (auto simp: set_u8_def arena_put_def split: if_splits)
  then show ?thesis using set_u8_ok [of p ar b] assms True by auto
next
  case False
  then show ?thesis using get_u8_frame [OF arena_put_frame [OF assms [unfolded set_u8_def]], of q] by simp
qed

lemma load_set_u8 [cell_simps]:
  assumes "set_u8 ar p b = Some ar'" "p mod 4 = 0" "q \<noteq> p"
  shows "load_u32 ar' q = load_u32 ar q"
proof (cases "q mod 4 = 0")
  case True
  then have "{q..<q + 4} \<inter> {p..<p + length [b]} = {}" using assms(2,3) by (auto simp: disjoint_iff) presburger
  then show ?thesis using load_u32_frame [OF arena_put_frame [OF assms(1) [unfolded set_u8_def]]] by simp
next
  case False
  then show ?thesis by (simp add: load_u32_def)
qed

lemma get_u32_set_u8 [cell_simps]:
  "set_u8 ar p b = Some ar' \<Longrightarrow> p mod 4 = 0 \<Longrightarrow> q \<noteq> p \<Longrightarrow> get_u32 ar' q = get_u32 ar q"
  by (simp add: get_u32_def load_set_u8)

lemma cell_alen [cell_simps]:
  "store_u32 ar p w = Some ar' \<Longrightarrow> alen ar' = alen ar"
  "set_u32 ar p n = Some ar' \<Longrightarrow> alen ar' = alen ar"
  "set_u8 ar p b = Some ar' \<Longrightarrow> alen ar' = alen ar"
  by (auto simp: store_u32_def set_u32_def set_u8_def arena_put_def split: if_splits)

lemma cell_frame:
  "store_u32 ar p w = Some ar' \<Longrightarrow> same_outside {p..<p + 4} ar ar'"
  "set_u32 ar p n = Some ar' \<Longrightarrow> same_outside {p..<p + 4} ar ar'"
  "set_u8 ar p b = Some ar' \<Longrightarrow> same_outside {p..<p + 1} ar ar'"
  using arena_put_frame [of ar p "le_bytes 4 (unat w)" ar'] arena_put_frame [of ar p "le_bytes 4 (unat (of_nat n :: 32 word))" ar']
    arena_put_frame [of ar p "[b]" ar']
  by (auto simp: store_u32_def set_u32_def set_u8_def split: if_splits)

lemma store_u32_total: "p mod 4 = 0 \<Longrightarrow> p + 4 \<le> alen ar \<Longrightarrow> \<exists>ar'. store_u32 ar p w = Some ar'"
  using store_u32_ok [of p ar w] by auto

lemma set_u32_total: "p mod 4 = 0 \<Longrightarrow> p + 4 \<le> alen ar \<Longrightarrow> \<exists>ar'. set_u32 ar p n = Some ar'"
  unfolding set_u32_def by (rule store_u32_total)

lemma set_u8_total: "p < alen ar \<Longrightarrow> \<exists>ar'. set_u8 ar p b = Some ar'"
  using set_u8_ok [of p ar b] by auto

end
