(* ===== verification/Errors.thy ===== *)
theory Errors
  imports Main
begin

text \<open>
  The error type of \<open>src/error.rs\<close>, shared by the queues, buffers, streams and sessions. An
  \<open>anyhow\<close> message is its text; an error of the operating system is its kind with the text the
  system gives.
\<close>

datatype io_kind =
    InvalidData | ConnectionReset | ResourceBusy | AlreadyExists | TimedOut | ConnectionAborted
  | UnexpectedEof | OutOfMemory | BrokenPipe | Unsupported | InvalidInput | WouldBlock | Interrupted
  | WriteZero | OtherKind

datatype ipc_error =
    InvalidVersion | InvalidMsgType | SessionShutdown | StreamsExhausted | DuplicateStream | Timeout
  | StreamClosed | StreamReset | ConnectionWriteTimeout | ConnectionTimeout | KeepAliveTimeout
  | EndOfStream | SessionUnhealthy | NotEnoughData | NoMoreBuffer | SizeTooLarge | BrokenBuffer
  | ShareMemoryHadNotLeftSpace | StreamCallbackHadExisted | ExchangeConfig | ExchangeConfigTimeout
  | OSNonSupported | ArchNonSupported | HotRestartInProgress | InHandshakeStage | FileNameTooLong
  | QueueEmpty | QueueFull | QueuePublishTimeout | StreamPoolFull
  | StreamHasUnreadData nat | StreamHasPendingData nat | Io io_kind | Others string

text \<open>The kind of the \<open>io::Error\<close> an error turns into at the byte-stream interface.\<close>

fun io_kind_of :: "ipc_error \<Rightarrow> io_kind" where
  "io_kind_of InvalidVersion = InvalidData"
| "io_kind_of InvalidMsgType = InvalidData"
| "io_kind_of SessionShutdown = ConnectionReset"
| "io_kind_of StreamsExhausted = ResourceBusy"
| "io_kind_of DuplicateStream = AlreadyExists"
| "io_kind_of Timeout = TimedOut"
| "io_kind_of StreamClosed = ConnectionAborted"
| "io_kind_of StreamReset = ConnectionReset"
| "io_kind_of ConnectionWriteTimeout = InvalidData"
| "io_kind_of ConnectionTimeout = TimedOut"
| "io_kind_of KeepAliveTimeout = TimedOut"
| "io_kind_of EndOfStream = UnexpectedEof"
| "io_kind_of SessionUnhealthy = ResourceBusy"
| "io_kind_of NotEnoughData = ResourceBusy"
| "io_kind_of NoMoreBuffer = ResourceBusy"
| "io_kind_of SizeTooLarge = OutOfMemory"
| "io_kind_of BrokenBuffer = BrokenPipe"
| "io_kind_of ShareMemoryHadNotLeftSpace = ResourceBusy"
| "io_kind_of StreamCallbackHadExisted = AlreadyExists"
| "io_kind_of ExchangeConfig = OtherKind"
| "io_kind_of ExchangeConfigTimeout = TimedOut"
| "io_kind_of OSNonSupported = Unsupported"
| "io_kind_of ArchNonSupported = Unsupported"
| "io_kind_of HotRestartInProgress = ResourceBusy"
| "io_kind_of InHandshakeStage = ResourceBusy"
| "io_kind_of FileNameTooLong = InvalidInput"
| "io_kind_of QueueEmpty = ResourceBusy"
| "io_kind_of QueueFull = ResourceBusy"
| "io_kind_of QueuePublishTimeout = TimedOut"
| "io_kind_of StreamPoolFull = ResourceBusy"
| "io_kind_of (StreamHasUnreadData _) = OtherKind"
| "io_kind_of (StreamHasPendingData _) = OtherKind"
| "io_kind_of (Io k) = k"
| "io_kind_of (Others _) = OtherKind"

end
