(* ===== verification/Legacy_Queue.thy ===== *)
theory Legacy_Queue
  imports Cells Fifo Errors
begin

text \<open>
  The single-producer single-consumer queue pair of protocol versions 2 to 4, \<open>src/queue.rs\<close>. The
  mapping is a byte arena whose first byte has a page-aligned address, so the alignment of an access is
  that of its offset; a \<open>Queue\<close> is the record of the offsets its pointers have in the mapping. An access
  outside the mapping, a misaligned typed access and an \<open>i64\<close> overflow are \<open>None\<close>. The results of system
  calls are arguments.
\<close>

section \<open>Layout\<close>

definition QUEUE_ELEMENT_LEN :: nat where "QUEUE_ELEMENT_LEN = 12"
definition QUEUE_COUNT :: nat where "QUEUE_COUNT = 2"
definition QUEUE_HEADER_LENGTH :: nat where "QUEUE_HEADER_LENGTH = 24"

datatype mem_map_type = MemMapTypeDevShmFile | MemMapTypeMemFd

datatype queue_layout = Legacy | Aligned

text \<open>\<open>arm\<close> stands for the target architectures \<open>aarch64\<close> and \<open>riscv64\<close>.\<close>

definition for_protocol_version :: "bool \<Rightarrow> 8 word \<Rightarrow> queue_layout" where
  "for_protocol_version arm version = (if version \<ge> 4 \<or> arm then Aligned else Legacy)"

fun working_flag_offset :: "queue_layout \<Rightarrow> nat" where
  "working_flag_offset Legacy = 20"
| "working_flag_offset Aligned = 4"

fun head_offset :: "queue_layout \<Rightarrow> nat" where
  "head_offset Legacy = 4"
| "head_offset Aligned = 8"

fun tail_offset :: "queue_layout \<Rightarrow> nat" where
  "tail_offset Legacy = 12"
| "tail_offset Aligned = 16"

record queue_element =
  qe_seq_id :: "32 word"
  qe_offset_in_shm_buf :: "32 word"
  qe_status :: "32 word"

record queue =
  q_head :: nat
  q_tail :: nat
  q_working_flag :: nat
  q_bytes :: nat
  q_cap :: int
  q_len :: nat
  q_layout :: queue_layout

definition count_queue_mem_size :: "32 word \<Rightarrow> nat" where
  "count_queue_mem_size cap = QUEUE_HEADER_LENGTH + QUEUE_ELEMENT_LEN * unat cap"

section \<open>Typed access to the mapping\<close>

definition load_position :: "queue_layout \<Rightarrow> arena \<Rightarrow> nat \<Rightarrow> int option" where
  "load_position l ar p =
     (if l = Aligned \<and> p mod 8 \<noteq> 0 then None
      else map_option (\<lambda>bs. i64_of (le_nat bs)) (arena_get ar p (p + 8)))"

definition store_position :: "queue_layout \<Rightarrow> arena \<Rightarrow> nat \<Rightarrow> int \<Rightarrow> arena option" where
  "store_position l ar p v =
     (if l = Aligned \<and> p mod 8 \<noteq> 0 then None else arena_put ar p (le_bytes 8 (i64_bits v)))"

definition load_head :: "queue \<Rightarrow> arena \<Rightarrow> int option" where
  "load_head q ar = load_position (q_layout q) ar (q_head q)"

definition load_tail :: "queue \<Rightarrow> arena \<Rightarrow> int option" where
  "load_tail q ar = load_position (q_layout q) ar (q_tail q)"

definition store_head :: "queue \<Rightarrow> arena \<Rightarrow> int \<Rightarrow> arena option" where
  "store_head q ar v = store_position (q_layout q) ar (q_head q) v"

definition store_tail :: "queue \<Rightarrow> arena \<Rightarrow> int \<Rightarrow> arena option" where
  "store_tail q ar v = store_position (q_layout q) ar (q_tail q) v"

section \<open>Queue operations\<close>

definition queue_at :: "nat \<Rightarrow> 32 word \<Rightarrow> queue_layout \<Rightarrow> queue" where
  "queue_at data cap l =
     \<lparr> q_head = data + head_offset l, q_tail = data + tail_offset l,
       q_working_flag = data + working_flag_offset l, q_bytes = data + QUEUE_HEADER_LENGTH,
       q_cap = uint cap,
       q_len = QUEUE_HEADER_LENGTH + QUEUE_ELEMENT_LEN * unat cap - QUEUE_HEADER_LENGTH,
       q_layout = l \<rparr>"

definition mapping_from_bytes :: "arena \<Rightarrow> nat \<Rightarrow> queue_layout \<Rightarrow> queue option" where
  "mapping_from_bytes ar data l = do {
     cap \<leftarrow> load_u32 ar data;
     Some (queue_at data cap l)
   }"

definition create_from_bytes :: "arena \<Rightarrow> nat \<Rightarrow> 32 word \<Rightarrow> queue_layout \<Rightarrow> (arena \<times> queue) option" where
  "create_from_bytes ar data cap l = do {
     ar \<leftarrow> store_u32 ar data cap;
     q \<leftarrow> mapping_from_bytes ar data l;
     ar \<leftarrow> store_head q ar 0;
     ar \<leftarrow> store_tail q ar 0;
     ar \<leftarrow> store_u32 ar (q_working_flag q) 0;
     Some (ar, q)
   }"

text \<open>
  The address of the element at a position: the remainder has the sign of the position, a zero capacity
  panics, an address before the mapping is out of bounds.
\<close>

definition element_ptr :: "queue \<Rightarrow> int \<Rightarrow> nat option" where
  "element_ptr q pos =
     (if q_cap q = 0 then None
      else let a = int (q_bytes q) + sgn pos * (\<bar>pos\<bar> mod q_cap q) * int QUEUE_ELEMENT_LEN in
        if a < 0 then None else Some (nat a))"

definition lq_put :: "queue \<Rightarrow> arena \<Rightarrow> queue_element \<Rightarrow> (arena \<times> (ipc_error + unit)) option" where
  "lq_put q ar e = do {
     tail \<leftarrow> load_tail q ar;
     head \<leftarrow> load_head q ar;
     used \<leftarrow> i64_chk (tail - head);
     if used \<ge> q_cap q then Some (ar, Inl QueueFull)
     else do {
       p \<leftarrow> element_ptr q tail;
       ar \<leftarrow> store_u32 ar p (qe_seq_id e);
       ar \<leftarrow> store_u32 ar (p + 4) (qe_offset_in_shm_buf e);
       ar \<leftarrow> store_u32 ar (p + 8) (qe_status e);
       t \<leftarrow> i64_chk (tail + 1);
       ar \<leftarrow> store_tail q ar t;
       Some (ar, Inr ())
     }
   }"

definition read_element :: "arena \<Rightarrow> nat \<Rightarrow> queue_element option" where
  "read_element ar p = do {
     a \<leftarrow> load_u32 ar p;
     b \<leftarrow> load_u32 ar (p + 4);
     c \<leftarrow> load_u32 ar (p + 8);
     Some \<lparr> qe_seq_id = a, qe_offset_in_shm_buf = b, qe_status = c \<rparr>
   }"

definition lq_pop :: "queue \<Rightarrow> arena \<Rightarrow> (arena \<times> (ipc_error + queue_element)) option" where
  "lq_pop q ar = do {
     head \<leftarrow> load_head q ar;
     tail \<leftarrow> load_tail q ar;
     if head \<ge> tail then Some (ar, Inl QueueEmpty)
     else do {
       p \<leftarrow> element_ptr q head;
       e \<leftarrow> read_element ar p;
       h \<leftarrow> i64_chk (head + 1);
       ar \<leftarrow> store_head q ar h;
       Some (ar, Inr e)
     }
   }"

definition lq_size :: "queue \<Rightarrow> arena \<Rightarrow> int option" where
  "lq_size q ar = do {
     tail \<leftarrow> load_tail q ar;
     head \<leftarrow> load_head q ar;
     i64_chk (tail - head)
   }"

definition lq_is_full :: "queue \<Rightarrow> arena \<Rightarrow> bool option" where
  "lq_is_full q ar = do { n \<leftarrow> lq_size q ar; Some (n = q_cap q) }"

definition lq_is_empty :: "queue \<Rightarrow> arena \<Rightarrow> bool option" where
  "lq_is_empty q ar = do { n \<leftarrow> lq_size q ar; Some (n = 0) }"

definition lq_consumer_is_working :: "queue \<Rightarrow> arena \<Rightarrow> bool option" where
  "lq_consumer_is_working q ar = do { f \<leftarrow> load_u32 ar (q_working_flag q); Some (f > 0) }"

definition lq_mark_working :: "queue \<Rightarrow> arena \<Rightarrow> (arena \<times> bool) option" where
  "lq_mark_working q ar = do {
     f \<leftarrow> load_u32 ar (q_working_flag q);
     if f = 0 then do { ar \<leftarrow> store_u32 ar (q_working_flag q) 1; Some (ar, True) }
     else Some (ar, False)
   }"

definition lq_mark_not_working :: "queue \<Rightarrow> arena \<Rightarrow> (arena \<times> bool) option" where
  "lq_mark_not_working q ar = do {
     ar \<leftarrow> store_u32 ar (q_working_flag q) 0;
     n \<leftarrow> lq_size q ar;
     if n = 0 then Some (ar, True)
     else do { ar \<leftarrow> store_u32 ar (q_working_flag q) 1; Some (ar, False) }
   }"

section \<open>Queue manager\<close>

record queue_manager =
  qm_path :: string
  qm_send_queue :: queue
  qm_recv_queue :: queue
  qm_memfd :: int
  qm_mmap_map_type :: mem_map_type

text \<open>\<open>mem.fill(0)\<close>.\<close>

definition fill_zero :: "arena \<Rightarrow> arena" where
  "fill_zero ar = ar \<lparr> abytes := (\<lambda>_. 0) \<rparr>"

text \<open>The two queues of a new mapping, and the two queues the peer sees in it.\<close>

definition create_pair :: "arena \<Rightarrow> nat \<Rightarrow> 32 word \<Rightarrow> queue_layout \<Rightarrow> (arena \<times> queue \<times> queue) option" where
  "create_pair ar mem_size cap l = do {
     (ar, s) \<leftarrow> create_from_bytes (fill_zero ar) 0 cap l;
     (ar, r) \<leftarrow> create_from_bytes ar (mem_size div 2) cap l;
     Some (ar, s, r)
   }"

definition mapping_pair :: "arena \<Rightarrow> nat \<Rightarrow> queue_layout \<Rightarrow> (queue \<times> queue) option" where
  "mapping_pair ar mapping_size l = do {
     s \<leftarrow> mapping_from_bytes ar (mapping_size div 2) l;
     r \<leftarrow> mapping_from_bytes ar 0 l;
     Some (s, r)
   }"

text \<open>
  \<open>fd\<close>, \<open>trunc\<close> and \<open>mem\<close> are the results of \<open>memfd_create\<close>, \<open>ftruncate\<close> and the mapping of the
  given length; a path with a NUL byte panics.
\<close>

definition create_with_memfd ::
  "bool \<Rightarrow> string \<Rightarrow> 32 word \<Rightarrow> 8 word \<Rightarrow> ipc_error + int \<Rightarrow> ipc_error + unit \<Rightarrow> (nat \<Rightarrow> ipc_error + arena) \<Rightarrow>
   (ipc_error + queue_manager \<times> arena) option" where
  "create_with_memfd arm path cap version fd trunc mem =
     (let l = for_protocol_version arm version;
          mem_size = count_queue_mem_size cap * QUEUE_COUNT in
      if CHR 0x00 \<in> set path then None
      else case fd of Inl e \<Rightarrow> Some (Inl e) | Inr memfd \<Rightarrow>
        (case trunc of
           Inl e \<Rightarrow> Some (Inl (Others ''create_queue_manager_with_memfd truncate share memory failed''))
         | Inr _ \<Rightarrow>
           (case mem mem_size of Inl e \<Rightarrow> Some (Inl e) | Inr ar \<Rightarrow> do {
              (ar, s, r) \<leftarrow> create_pair ar mem_size cap l;
              Some (Inr (\<lparr> qm_path = path, qm_send_queue = s, qm_recv_queue = r, qm_memfd = memfd,
                          qm_mmap_map_type = MemMapTypeMemFd \<rparr>, ar))
            })))"

text \<open>
  \<open>exists\<close> and \<open>room\<close> answer the checks for the path and for the space on \<open>/dev/shm\<close>; \<open>file\<close> is the
  result of opening the file, setting its permissions and its length.
\<close>

definition create_with_file ::
  "bool \<Rightarrow> string \<Rightarrow> 32 word \<Rightarrow> 8 word \<Rightarrow> bool \<Rightarrow> (nat \<Rightarrow> bool) \<Rightarrow> ipc_error + unit \<Rightarrow> (nat \<Rightarrow> ipc_error + arena) \<Rightarrow>
   (ipc_error + queue_manager \<times> arena) option" where
  "create_with_file arm path cap version exists room file mem =
     (let l = for_protocol_version arm version;
          mem_size = count_queue_mem_size cap * QUEUE_COUNT in
      if exists then Some (Inl (Others ''queue was existed''))
      else if \<not> room mem_size then Some (Inl (Others ''err: share memory had not left space''))
      else case file of Inl e \<Rightarrow> Some (Inl e) | Inr _ \<Rightarrow>
        (case mem mem_size of Inl e \<Rightarrow> Some (Inl e) | Inr ar \<Rightarrow> do {
           (ar, s, r) \<leftarrow> create_pair ar mem_size cap l;
           Some (Inr (\<lparr> qm_path = path, qm_send_queue = s, qm_recv_queue = r, qm_memfd = 0,
                       qm_mmap_map_type = MemMapTypeDevShmFile \<rparr>, ar))
         }))"

definition mapping_with_memfd ::
  "bool \<Rightarrow> string \<Rightarrow> int \<Rightarrow> 8 word \<Rightarrow> ipc_error + int \<Rightarrow> (nat \<Rightarrow> ipc_error + arena) \<Rightarrow>
   (ipc_error + queue_manager \<times> arena) option" where
  "mapping_with_memfd arm path memfd version st_size mem =
     (let l = for_protocol_version arm version in
      case st_size of Inl e \<Rightarrow> Some (Inl e) | Inr n \<Rightarrow>
        (if n < 0 then Some (Inl (Others ''invalid queue share memory size''))
        else let mapping_size = nat n in
          if l = Aligned \<and> mapping_size mod 16 \<noteq> 0
          then Some (Inl (Others ''the memory size of queue should be a multiple of 16''))
          else (case mem mapping_size of Inl e \<Rightarrow> Some (Inl e) | Inr ar \<Rightarrow> do {
            (s, r) \<leftarrow> mapping_pair ar mapping_size l;
            Some (Inr (\<lparr> qm_path = path, qm_send_queue = s, qm_recv_queue = r, qm_memfd = memfd,
                        qm_mmap_map_type = MemMapTypeMemFd \<rparr>, ar))
          })))"

definition mapping_with_file ::
  "bool \<Rightarrow> string \<Rightarrow> 8 word \<Rightarrow> ipc_error + nat \<Rightarrow> (nat \<Rightarrow> ipc_error + arena) \<Rightarrow>
   (ipc_error + queue_manager \<times> arena) option" where
  "mapping_with_file arm path version file_len mem =
     (let l = for_protocol_version arm version in
      case file_len of Inl e \<Rightarrow> Some (Inl e) | Inr mapping_size \<Rightarrow>
        (if l = Aligned \<and> mapping_size mod 16 \<noteq> 0
        then Some (Inl (Others ''the memory size of queue should be a multiple of 16''))
        else (case mem mapping_size of Inl e \<Rightarrow> Some (Inl e) | Inr ar \<Rightarrow> do {
          (s, r) \<leftarrow> mapping_pair ar mapping_size l;
          Some (Inr (\<lparr> qm_path = path, qm_send_queue = s, qm_recv_queue = r, qm_memfd = 0,
                      qm_mmap_map_type = MemMapTypeDevShmFile \<rparr>, ar))
        })))"

text \<open>What \<open>unmap\<close> asks of the system; a failure is only logged.\<close>

datatype unmap_request = RemoveFile string | CloseFd int

definition queue_manager_unmap :: "queue_manager \<Rightarrow> unmap_request" where
  "queue_manager_unmap m =
     (if qm_mmap_map_type m = MemMapTypeDevShmFile then RemoveFile (qm_path m) else CloseFd (qm_memfd m))"

section \<open>Memory lemmas\<close>

lemma store_position_ok:
  assumes "l = Aligned \<longrightarrow> p mod 8 = 0" "p + 8 \<le> alen ar" "- (2 ^ 63) \<le> v" "v < 2 ^ 63"
  shows "\<exists>ar'. store_position l ar p v = Some ar' \<and> load_position l ar' p = Some v \<and> same_outside {p..<p + 8} ar ar'"
proof -
  obtain ar' where ar': "arena_put ar p (le_bytes 8 (i64_bits v)) = Some ar'"
    using assms(2) arena_put_ok [of p "le_bytes 8 (i64_bits v)" ar] by auto
  have "i64_of (i64_bits v mod 256 ^ 8) = v" using i64_of_bits [OF assms(3,4)] i64_bits_less [of v] by simp
  then have "load_position l ar' p = Some v"
    using assms(1) arena_get_put [OF ar', of "p + 8"] by (simp add: load_position_def)
  then show ?thesis using ar' assms(1) arena_put_frame [OF ar'] by (simp add: store_position_def)
qed

lemma load_position_frame [arena_simps]:
  "same_outside S ar ar' \<Longrightarrow> {p..<p + 8} \<inter> S = {} \<Longrightarrow> load_position l ar' p = load_position l ar p"
  by (simp add: load_position_def arena_get_frame)

lemma read_element_frame [arena_simps]:
  assumes "same_outside S ar ar'" "{p..<p + 12} \<inter> S = {}"
  shows "read_element ar' p = read_element ar p"
proof -
  have "{p..<p + 4} \<inter> S = {}" "{p + 4..<p + 4 + 4} \<inter> S = {}" "{p + 8..<p + 8 + 4} \<inter> S = {}"
    using assms(2) by (auto simp: disjoint_iff)
  then show ?thesis using load_u32_frame [OF assms(1)] by (simp add: read_element_def)
qed

lemma store_element_ok:
  assumes "p mod 4 = 0" "p + 12 \<le> alen ar"
  obtains ar1 ar2 ar3 where "store_u32 ar p (qe_seq_id e) = Some ar1"
    "store_u32 ar1 (p + 4) (qe_offset_in_shm_buf e) = Some ar2" "store_u32 ar2 (p + 8) (qe_status e) = Some ar3"
    "read_element ar3 p = Some e" "same_outside {p..<p + 12} ar ar3"
proof -
  have m: "(p + 4) mod 4 = 0" "(p + 8) mod 4 = 0" using assms(1) by presburger+
  obtain ar1 where 1: "store_u32 ar p (qe_seq_id e) = Some ar1" "load_u32 ar1 p = Some (qe_seq_id e)"
    "same_outside {p..<p + 4} ar ar1" using store_u32_ok [of p ar] assms by fastforce
  then obtain ar2 where 2: "store_u32 ar1 (p + 4) (qe_offset_in_shm_buf e) = Some ar2"
    "load_u32 ar2 (p + 4) = Some (qe_offset_in_shm_buf e)" "same_outside {p + 4..<p + 4 + 4} ar1 ar2"
    using store_u32_ok [OF m(1), of ar1 "qe_offset_in_shm_buf e"] assms(2) same_outside_alen [OF 1(3)] by auto
  then obtain ar3 where 3: "store_u32 ar2 (p + 8) (qe_status e) = Some ar3"
    "load_u32 ar3 (p + 8) = Some (qe_status e)" "same_outside {p + 8..<p + 8 + 4} ar2 ar3"
    using store_u32_ok [OF m(2), of ar2 "qe_status e"] assms(2) same_outside_alen [OF 1(3)] same_outside_alen [OF 2(3)] by auto
  have "load_u32 ar3 p = Some (qe_seq_id e)" "load_u32 ar3 (p + 4) = Some (qe_offset_in_shm_buf e)"
    using load_u32_frame [OF 2(3), of p] load_u32_frame [OF 3(3), of p] load_u32_frame [OF 3(3), of "p + 4"] 1(2) 2(2)
    by auto
  then have "read_element ar3 p = Some e" using 3(2) by (simp add: read_element_def)
  moreover have "same_outside {p..<p + 12} ar ar3" using 1(3) 2(3) 3(3) by (auto simp: same_outside_def)
  ultimately show thesis using that 1(1) 2(1) 3(1) by blast
qed

section \<open>The queue as a bounded FIFO\<close>

definition lq_extent :: "nat \<Rightarrow> 32 word \<Rightarrow> nat set" where
  "lq_extent base cap = {base..<base + count_queue_mem_size cap}"

definition lq_ok :: "nat \<Rightarrow> 32 word \<Rightarrow> queue_layout \<Rightarrow> arena \<Rightarrow> bool" where
  "lq_ok base cap l ar \<longleftrightarrow> base mod 4 = 0 \<and> (l = Aligned \<longrightarrow> base mod 8 = 0) \<and>
     base + count_queue_mem_size cap \<le> alen ar"

definition lq_slot :: "nat \<Rightarrow> 32 word \<Rightarrow> nat \<Rightarrow> nat" where
  "lq_slot base cap n = base + 24 + n mod unat cap * 12"

text \<open>The queue at \<open>base\<close> holds \<open>xs\<close> from position \<open>h\<close> on.\<close>

definition lq_at :: "nat \<Rightarrow> 32 word \<Rightarrow> queue_layout \<Rightarrow> arena \<Rightarrow> nat \<Rightarrow> queue_element list \<Rightarrow> bool" where
  "lq_at base cap l ar h xs \<longleftrightarrow> lq_ok base cap l ar \<and> length xs \<le> unat cap \<and> h + length xs < 2 ^ 63 \<and>
     load_u32 ar base = Some cap \<and>
     load_position l ar (base + head_offset l) = Some (int h) \<and>
     load_position l ar (base + tail_offset l) = Some (int (h + length xs)) \<and>
     (\<forall>i < length xs. read_element ar (lq_slot base cap (h + i)) = Some (xs ! i))"

lemma lq_slot_bounds:
  assumes "0 < unat cap"
  shows "base + 24 \<le> lq_slot base cap n" "lq_slot base cap n + 12 \<le> base + count_queue_mem_size cap"
    "base mod 4 = 0 \<Longrightarrow> lq_slot base cap n mod 4 = 0"
proof -
  have "n mod unat cap < unat cap" using assms by simp
  then have "n mod unat cap * 12 + 12 \<le> unat cap * 12" by linarith
  then show "lq_slot base cap n + 12 \<le> base + count_queue_mem_size cap"
    by (simp add: lq_slot_def count_queue_mem_size_def QUEUE_HEADER_LENGTH_def QUEUE_ELEMENT_LEN_def)
  show "base + 24 \<le> lq_slot base cap n" by (simp add: lq_slot_def)
  show "lq_slot base cap n mod 4 = 0" if "base mod 4 = 0"
  proof -
    have "4 dvd base + 24 + n mod unat cap * 12" using that by (intro dvd_add) auto
    then show ?thesis by (simp add: lq_slot_def)
  qed
qed

lemma lq_slot_disjoint:
  assumes "i < unat cap" "j < unat cap" "i \<noteq> j"
  shows "{lq_slot base cap (h + i)..<lq_slot base cap (h + i) + 12} \<inter>
    {lq_slot base cap (h + j)..<lq_slot base cap (h + j) + 12} = {}"
proof -
  have *: "(h + i) mod unat cap \<noteq> (h + j) mod unat cap" if "i < unat cap" "j < unat cap" "i < j" for i j
  proof
    assume "(h + i) mod unat cap = (h + j) mod unat cap"
    then have "unat cap dvd (h + j) - (h + i)" using that(3) by (metis mod_eq_dvd_iff_nat add_left_mono less_imp_le)
    then show False using that dvd_imp_le [of "unat cap" "j - i"] by simp
  qed
  have "(h + i) mod unat cap \<noteq> (h + j) mod unat cap"
    using *[of i j] *[of j i] assms by (metis linorder_neqE_nat)
  moreover have "a * 12 + 12 \<le> b * 12 \<or> b * 12 + 12 \<le> a * 12" if "a \<noteq> b" for a b :: nat using that by linarith
  ultimately have "(h + i) mod unat cap * 12 + 12 \<le> (h + j) mod unat cap * 12 \<or> (h + j) mod unat cap * 12 + 12 \<le> (h + i) mod unat cap * 12"
    by blast
  then show ?thesis by (auto simp: lq_slot_def)
qed

lemma element_ptr_at:
  assumes "0 < unat cap"
  shows "element_ptr (queue_at base cap l) (int n) = Some (lq_slot base cap n)"
proof -
  have "sgn (int n) * (\<bar>int n\<bar> mod uint cap) = int (n mod unat cap)"
    by (cases "n = 0") (simp_all add: zmod_int sgn_if)
  moreover have "uint cap \<noteq> 0" using assms by (metis unsigned_0 of_nat_0_less_iff of_nat_unat less_irrefl)
  ultimately show ?thesis
    by (simp add: element_ptr_def queue_at_def lq_slot_def Let_def QUEUE_ELEMENT_LEN_def QUEUE_HEADER_LENGTH_def nat_add_distrib nat_mult_distrib)
qed

lemma queue_at_load:
  "load_head (queue_at base cap l) ar = load_position l ar (base + head_offset l)"
  "load_tail (queue_at base cap l) ar = load_position l ar (base + tail_offset l)"
  "store_head (queue_at base cap l) ar v = store_position l ar (base + head_offset l) v"
  "store_tail (queue_at base cap l) ar v = store_position l ar (base + tail_offset l) v"
  by (simp_all add: load_head_def load_tail_def store_head_def store_tail_def queue_at_def)

lemma header_offsets:
  "base mod 8 = 0 \<Longrightarrow> l = Aligned \<Longrightarrow> (base + head_offset l) mod 8 = 0"
  "base mod 8 = 0 \<Longrightarrow> l = Aligned \<Longrightarrow> (base + tail_offset l) mod 8 = 0"
  "base mod 4 = 0 \<Longrightarrow> (base + working_flag_offset l) mod 4 = 0"
  by (cases l; simp; presburger)+

lemma header_fields_in:
  "head_offset l + 8 \<le> 24" "tail_offset l + 8 \<le> 24" "working_flag_offset l + 4 \<le> 24"
  "4 \<le> head_offset l" "4 \<le> tail_offset l" "4 \<le> working_flag_offset l"
  "head_offset l + 8 \<le> tail_offset l"
  "working_flag_offset l + 4 \<le> head_offset l \<or> tail_offset l + 8 \<le> working_flag_offset l"
  by (cases l; simp)+

lemma lq_atD:
  assumes "lq_at base cap l ar h xs"
  shows "base mod 4 = 0" "l = Aligned \<longrightarrow> base mod 8 = 0" "base + count_queue_mem_size cap \<le> alen ar"
    "length xs \<le> unat cap" "h + length xs < 2 ^ 63" "load_u32 ar base = Some cap"
    "load_position l ar (base + head_offset l) = Some (int h)"
    "load_position l ar (base + tail_offset l) = Some (int (h + length xs))"
    "\<And>i. i < length xs \<Longrightarrow> read_element ar (lq_slot base cap (h + i)) = Some (xs ! i)"
  using assms by (simp_all add: lq_at_def lq_ok_def)

lemma header_in_extent: "24 \<le> count_queue_mem_size cap"
  by (simp add: count_queue_mem_size_def QUEUE_HEADER_LENGTH_def)

text \<open>A write that changes at most the working flag of the queue leaves its content alone.\<close>

definition lq_flag :: "nat \<Rightarrow> queue_layout \<Rightarrow> nat set" where
  "lq_flag base l = {base + working_flag_offset l..<base + working_flag_offset l + 4}"

lemma lq_at_frame:
  assumes "lq_at base cap l ar h xs" "same_outside S ar ar'" "lq_extent base cap \<inter> S \<subseteq> lq_flag base l"
  shows "lq_at base cap l ar' h xs"
proof -
  note q = lq_atD [OF assms(1)]
  have sub: "{a..<a + n} \<inter> S = {}"
    if "base \<le> a" "a + n \<le> base + count_queue_mem_size cap" "{a..<a + n} \<inter> lq_flag base l = {}" for a n
  proof -
    have "{a..<a + n} \<subseteq> lq_extent base cap" using that(1,2) by (auto simp: lq_extent_def)
    then show ?thesis using assms(3) that(3) by blast
  qed
  have hd: "{base + k..<base + k + n} \<inter> S = {}"
    if "k + n \<le> 24" "k + n \<le> working_flag_offset l \<or> working_flag_offset l + 4 \<le> k" for k n
    using that header_in_extent [of cap] by (intro sub) (auto simp: lq_flag_def)
  have hh: "{base + head_offset l..<base + head_offset l + 8} \<inter> S = {}"
    and ht: "{base + tail_offset l..<base + tail_offset l + 8} \<inter> S = {}"
    and hc: "{base..<base + 4} \<inter> S = {}"
    using hd [of "head_offset l" 8] hd [of "tail_offset l" 8] hd [of 0 4] header_fields_in [of l] by (auto simp: disjoint_iff)
  have "read_element ar' (lq_slot base cap (h + i)) = Some (xs ! i)" if "i < length xs" for i
  proof -
    have "0 < unat cap" using that q(4) by simp
    then have "{lq_slot base cap (h + i)..<lq_slot base cap (h + i) + 12} \<inter> S = {}"
      using lq_slot_bounds [of cap base "h + i"] header_fields_in(3) [of l] by (intro sub) (auto simp: lq_flag_def)
    then show ?thesis using read_element_frame [OF assms(2)] q(9) that by simp
  qed
  then show ?thesis
    using q(1-8) same_outside_alen [OF assms(2)] load_u32_frame [OF assms(2) hc] load_position_frame [OF assms(2) hh]
      load_position_frame [OF assms(2) ht] by (simp add: lq_at_def lq_ok_def)
qed

lemma lq_put_full:
  assumes "lq_at base cap l ar h xs" "length xs = unat cap"
  shows "lq_put (queue_at base cap l) ar e = Some (ar, Inl QueueFull)"
proof -
  note q = lq_atD [OF assms(1)]
  have "i64_chk (int (h + length xs) - int h) = Some (int (length xs))" using q(5) by (simp add: i64_chk_def)
  then show ?thesis using q(7,8) assms(2) by (simp add: lq_put_def queue_at_load) (simp add: queue_at_def)
qed

lemma lq_put_room:
  assumes "lq_at base cap l ar h xs" "length xs < unat cap" "h + length xs + 1 < 2 ^ 63"
  shows "\<exists>ar'. lq_put (queue_at base cap l) ar e = Some (ar', Inr ()) \<and> lq_at base cap l ar' h (xs @ [e]) \<and>
    same_outside (lq_extent base cap) ar ar'"
proof -
  note q = lq_atD [OF assms(1)]
  let ?n = "h + length xs" and ?q = "queue_at base cap l"
  let ?p = "lq_slot base cap ?n" and ?t = "base + tail_offset l"
  have pos: "0 < unat cap" using assms(2) by simp
  note b = lq_slot_bounds [OF pos, of base ?n]
  have al: "?p + 12 \<le> alen ar" using b(2) q(3) by simp
  obtain ar1 ar2 ar3 where st: "store_u32 ar ?p (qe_seq_id e) = Some ar1"
    "store_u32 ar1 (?p + 4) (qe_offset_in_shm_buf e) = Some ar2" "store_u32 ar2 (?p + 8) (qe_status e) = Some ar3"
    and rd: "read_element ar3 ?p = Some e" and so: "same_outside {?p..<?p + 12} ar ar3"
    using store_element_ok [OF b(3) [OF q(1)] al] by blast
  have a3: "alen ar3 = alen ar" using so by (rule same_outside_alen)
  have "?t + 8 \<le> alen ar3" using a3 q(3) header_fields_in(2) [of l] header_in_extent [of cap] by linarith
  then obtain ar' where ar': "store_position l ar3 ?t (int (?n + 1)) = Some ar'"
    "load_position l ar' ?t = Some (int (?n + 1))" "same_outside {?t..<?t + 8} ar3 ar'"
    using store_position_ok [of l ?t ar3 "int (?n + 1)"] q(2) header_offsets(2) [of base l] assms(3) by auto
  have "i64_chk (int ?n - int h) = Some (int (length xs))" "i64_chk (int ?n + 1) = Some (int (?n + 1))"
    using assms(3) by (simp_all add: i64_chk_def)
  moreover have "q_cap ?q = uint cap" "int (length xs) < uint cap"
    using assms(2) by (simp add: queue_at_def) (metis assms(2) of_nat_less_iff of_nat_unat)
  ultimately have put: "lq_put ?q ar e = Some (ar', Inr ())"
    using q(7,8) st ar'(1) element_ptr_at [OF pos, of base l ?n] assms(2)
    by (simp add: lq_put_def queue_at_load del: of_nat_add of_nat_Suc)
  have ext: "same_outside (lq_extent base cap) ar ar'"
    using so ar'(3) b(1,2) header_fields_in(2) [of l] header_in_extent [of cap]
    by (auto simp: same_outside_def lq_extent_def)
  have hd: "load_u32 ar' base = Some cap" "load_position l ar' (base + head_offset l) = Some (int h)"
    using load_u32_frame [OF so, of base] load_u32_frame [OF ar'(3), of base]
      load_position_frame [OF so, of "base + head_offset l" l] load_position_frame [OF ar'(3), of "base + head_offset l" l]
      q(6,7) b(1) header_fields_in [of l] by (simp_all add: disjoint_iff)
  have el: "read_element ar' (lq_slot base cap (h + i)) = read_element ar3 (lq_slot base cap (h + i))" for i
    using read_element_frame [OF ar'(3), of "lq_slot base cap (h + i)"] lq_slot_bounds(1) [OF pos, of base "h + i"]
      header_fields_in(2) [of l] by (simp add: disjoint_iff)
  have old: "read_element ar3 (lq_slot base cap (h + i)) = Some (xs ! i)" if "i < length xs" for i
    using read_element_frame [OF so lq_slot_disjoint] q(9) [OF that] that assms(2) by simp
  have "read_element ar' (lq_slot base cap (h + i)) = Some ((xs @ [e]) ! i)" if "i < length (xs @ [e])" for i
    using that old [of i] rd el [of i] by (cases "i = length xs") (simp_all add: nth_append)
  then have "lq_at base cap l ar' h (xs @ [e])"
    using q(1-3) assms(2,3) hd ar'(2) same_outside_alen [OF ext] by (simp add: lq_at_def lq_ok_def add.commute)
  with put ext show ?thesis by blast
qed

lemma lq_pop_empty:
  assumes "lq_at base cap l ar h []"
  shows "lq_pop (queue_at base cap l) ar = Some (ar, Inl QueueEmpty)"
  using lq_atD(7,8) [OF assms] by (simp add: lq_pop_def queue_at_load)

lemma lq_pop_next:
  assumes "lq_at base cap l ar h (x # xs)"
  shows "\<exists>ar'. lq_pop (queue_at base cap l) ar = Some (ar', Inr x) \<and> lq_at base cap l ar' (Suc h) xs \<and>
    same_outside (lq_extent base cap) ar ar'"
proof -
  note q = lq_atD [OF assms]
  let ?q = "queue_at base cap l" and ?p = "base + head_offset l"
  have pos: "0 < unat cap" using q(4) by simp
  have "?p + 8 \<le> alen ar" using q(3) header_fields_in(1) [of l] header_in_extent [of cap] by linarith
  then obtain ar' where ar': "store_position l ar ?p (int (Suc h)) = Some ar'"
    "load_position l ar' ?p = Some (int (Suc h))" "same_outside {?p..<?p + 8} ar ar'"
    using store_position_ok [of l ?p ar "int (Suc h)"] q(2,5) header_offsets(1) [of base l] by auto
  have "i64_chk (int h + 1) = Some (int (Suc h))" using q(5) by (simp add: i64_chk_def)
  then have pop: "lq_pop ?q ar = Some (ar', Inr x)"
    using q(7,8) q(9) [of 0] ar'(1) element_ptr_at [OF pos, of base l h]
    by (simp add: lq_pop_def queue_at_load del: of_nat_Suc)
  have ext: "same_outside (lq_extent base cap) ar ar'"
    using ar'(3) header_fields_in(1) [of l] header_in_extent [of cap] by (auto simp: same_outside_def lq_extent_def)
  have hd: "load_u32 ar' base = Some cap" "load_position l ar' (base + tail_offset l) = Some (int (Suc h + length xs))"
    using load_u32_frame [OF ar'(3), of base] load_position_frame [OF ar'(3), of "base + tail_offset l" l]
      q(6,8) header_fields_in [of l] by (simp_all add: disjoint_iff)
  have "read_element ar' (lq_slot base cap (Suc h + i)) = Some (xs ! i)" if "i < length xs" for i
    using read_element_frame [OF ar'(3), of "lq_slot base cap (Suc h + i)"] lq_slot_bounds(1) [OF pos, of base "Suc h + i"]
      header_fields_in(1) [of l] q(9) [of "Suc i"] that by (simp add: disjoint_iff)
  then have "lq_at base cap l ar' (Suc h) xs"
    using q(1-5) hd ar'(2) same_outside_alen [OF ext] by (simp add: lq_at_def lq_ok_def)
  with pop ext show ?thesis by blast
qed

text \<open>The state the interface sees is the handle with the mapping.\<close>

definition lq_repr :: "queue \<times> arena \<Rightarrow> queue_element list \<Rightarrow> nat \<Rightarrow> bool" where
  "lq_repr s xs b \<longleftrightarrow> (\<exists>base cap l h. fst s = queue_at base cap l \<and> lq_at base cap l (snd s) h xs \<and>
     h + length xs + b < 2 ^ 63)"

definition lq_push_step :: "queue \<times> arena \<Rightarrow> queue_element \<Rightarrow> ((queue \<times> arena) \<times> bool) option" where
  "lq_push_step s e = do { (ar, r) \<leftarrow> lq_put (fst s) (snd s) e; Some ((fst s, ar), r = Inr ()) }"

definition lq_pop_step :: "queue \<times> arena \<Rightarrow> ((queue \<times> arena) \<times> queue_element option) option" where
  "lq_pop_step s = do {
     (ar, r) \<leftarrow> lq_pop (fst s) (snd s);
     Some ((fst s, ar), case r of Inl _ \<Rightarrow> None | Inr e \<Rightarrow> Some e) }"

definition lq_capacity :: "queue \<times> arena \<Rightarrow> nat" where
  "lq_capacity s = nat (q_cap (fst s))"

lemma lq_capacity_at [simp]: "lq_capacity (queue_at base cap l, ar) = unat cap"
  by (simp add: lq_capacity_def queue_at_def)

interpretation lq: bounded_fifo lq_repr lq_capacity lq_push_step lq_pop_step
proof
  fix s xs b v
  { assume "lq_repr s xs (Suc b)"
    then show "lq_repr s xs b" unfolding lq_repr_def by fastforce }
  { assume "lq_repr s xs b"
    then obtain base cap l h ar where s: "s = (queue_at base cap l, ar)" and at: "lq_at base cap l ar h xs"
      and bd: "h + length xs + b < 2 ^ 63" unfolding lq_repr_def by (metis prod.collapse)
    show "length xs \<le> lq_capacity s" using s lq_atD(4) [OF at] by simp
    show "\<exists>s'. lq_push_step s v = Some (s', False) \<and> lq_repr s' xs b \<and> lq_capacity s' = lq_capacity s"
      if "length xs = lq_capacity s"
      using that s lq_put_full [OF at] \<open>lq_repr s xs b\<close> by (simp add: lq_push_step_def) }
  { assume "lq_repr s xs (Suc b)" and room: "length xs < lq_capacity s"
    then obtain base cap l h ar where s: "s = (queue_at base cap l, ar)" and at: "lq_at base cap l ar h xs"
      and bd: "h + length xs + Suc b < 2 ^ 63" unfolding lq_repr_def by (metis prod.collapse)
    obtain ar' where "lq_put (queue_at base cap l) ar v = Some (ar', Inr ())" "lq_at base cap l ar' h (xs @ [v])"
      using lq_put_room [OF at, of v] room s bd by auto
    then show "\<exists>s'. lq_push_step s v = Some (s', True) \<and> lq_repr s' (xs @ [v]) b \<and> lq_capacity s' = lq_capacity s"
      using s bd by (auto simp: lq_push_step_def lq_repr_def) }
next
  fix s b assume r: "lq_repr s [] b"
  then obtain base cap l h ar where s: "s = (queue_at base cap l, ar)" and at: "lq_at base cap l ar h []"
    unfolding lq_repr_def by (metis prod.collapse)
  show "\<exists>s'. lq_pop_step s = Some (s', None) \<and> lq_repr s' [] b \<and> lq_capacity s' = lq_capacity s"
    using s lq_pop_empty [OF at] r by (simp add: lq_pop_step_def)
next
  fix s x xs b assume "lq_repr s (x # xs) b"
  then obtain base cap l h ar where s: "s = (queue_at base cap l, ar)" and at: "lq_at base cap l ar h (x # xs)"
    and bd: "h + length (x # xs) + b < 2 ^ 63" unfolding lq_repr_def by (metis prod.collapse)
  obtain ar' where "lq_pop (queue_at base cap l) ar = Some (ar', Inr x)" "lq_at base cap l ar' (Suc h) xs"
    using lq_pop_next [OF at] by auto
  moreover from this(2) have "lq_repr (queue_at base cap l, ar') xs b"
    using bd unfolding lq_repr_def by (intro exI [of _ base] exI [of _ cap] exI [of _ l] exI [of _ "Suc h"]) simp
  ultimately show "\<exists>s'. lq_pop_step s = Some (s', Some x) \<and> lq_repr s' xs b \<and> lq_capacity s' = lq_capacity s"
    using s by (simp add: lq_pop_step_def)
qed

section \<open>The pair of queues between two processes\<close>

text \<open>What the producer and the consumer of a queue may do, with the elements accepted and taken.\<close>

inductive lq_send_op :: "queue \<Rightarrow> arena \<Rightarrow> arena \<Rightarrow> queue_element list \<Rightarrow> bool" for q where
  put_ok: "lq_put q ar e = Some (ar', Inr ()) \<Longrightarrow> lq_send_op q ar ar' [e]"
| put_full: "lq_put q ar e = Some (ar', Inl err) \<Longrightarrow> lq_send_op q ar ar' []"
| claim: "lq_mark_working q ar = Some (ar', c) \<Longrightarrow> lq_send_op q ar ar' []"

inductive lq_recv_op :: "queue \<Rightarrow> arena \<Rightarrow> arena \<Rightarrow> queue_element list \<Rightarrow> bool" for q where
  pop_ok: "lq_pop q ar = Some (ar', Inr e) \<Longrightarrow> lq_recv_op q ar ar' [e]"
| pop_none: "lq_pop q ar = Some (ar', Inl err) \<Longrightarrow> lq_recv_op q ar ar' []"
| rest: "lq_mark_not_working q ar = Some (ar', c) \<Longrightarrow> lq_recv_op q ar ar' []"

text \<open>
  A run of the creating process \<open>c\<close> and the mapping process \<open>m\<close> over the one mapping: \<open>ci\<close> what the
  creator sent, \<open>co\<close> what arrived at the peer, \<open>mi\<close> and \<open>mo\<close> the other direction, \<open>n\<close> the steps taken.
\<close>

inductive pair_run :: "queue_manager \<Rightarrow> queue_manager \<Rightarrow> arena \<Rightarrow> nat \<Rightarrow> arena \<Rightarrow>
    queue_element list \<Rightarrow> queue_element list \<Rightarrow> queue_element list \<Rightarrow> queue_element list \<Rightarrow> bool" for c m ar0 where
  pair_start: "pair_run c m ar0 0 ar0 [] [] [] []"
| creator_sends: "pair_run c m ar0 n ar ci co mi mo \<Longrightarrow> lq_send_op (qm_send_queue c) ar ar' es \<Longrightarrow>
    pair_run c m ar0 (Suc n) ar' (ci @ es) co mi mo"
| mapper_takes: "pair_run c m ar0 n ar ci co mi mo \<Longrightarrow> lq_recv_op (qm_recv_queue m) ar ar' es \<Longrightarrow>
    pair_run c m ar0 (Suc n) ar' ci (co @ es) mi mo"
| mapper_sends: "pair_run c m ar0 n ar ci co mi mo \<Longrightarrow> lq_send_op (qm_send_queue m) ar ar' es \<Longrightarrow>
    pair_run c m ar0 (Suc n) ar' ci co (mi @ es) mo"
| creator_takes: "pair_run c m ar0 n ar ci co mi mo \<Longrightarrow> lq_recv_op (qm_recv_queue c) ar ar' es \<Longrightarrow>
    pair_run c m ar0 (Suc n) ar' ci co mi (mo @ es)"

lemma flag_store:
  assumes "lq_at base cap l ar h xs" "store_u32 ar (base + working_flag_offset l) v = Some ar'"
  shows "lq_at base cap l ar' h xs" "same_outside (lq_extent base cap) ar ar'"
proof -
  have so: "same_outside (lq_flag base l) ar ar'"
    using assms(2) arena_put_frame [of ar "base + working_flag_offset l" "le_bytes 4 (unat v)" ar'] by (auto simp: store_u32_def lq_flag_def split: if_splits)
  then show "lq_at base cap l ar' h xs" using lq_at_frame [OF assms(1) so] by blast
  have "lq_flag base l \<subseteq> lq_extent base cap"
    using header_fields_in(3) [of l] header_in_extent [of cap] by (auto simp: lq_flag_def lq_extent_def)
  then show "same_outside (lq_extent base cap) ar ar'" using so by (auto simp: same_outside_def)
qed

lemma queue_at_q_cap: "q_cap (queue_at base cap l) = uint cap"
  by (simp add: queue_at_def)

lemma queue_at_flag [simp]: "q_working_flag (queue_at base cap l) = base + working_flag_offset l"
  by (simp add: queue_at_def)

lemma lq_send_op_at:
  assumes "lq_send_op (queue_at base cap l) ar ar' es" "lq_at base cap l ar h xs" "h + length xs + 1 < 2 ^ 63"
  shows "lq_at base cap l ar' h (xs @ es)" "same_outside (lq_extent base cap) ar ar'" "length es \<le> 1"
proof -
  have "lq_at base cap l ar' h (xs @ es) \<and> same_outside (lq_extent base cap) ar ar' \<and> length es \<le> 1"
    using assms(1)
  proof cases
    case (put_ok e)
    then have "length xs < unat cap"
      using lq_put_full [OF assms(2), of e] lq_atD(4) [OF assms(2)] by (cases "length xs = unat cap") auto
    then show ?thesis using lq_put_room [OF assms(2) _ assms(3), of e] put_ok by auto
  next
    case (put_full e err)
    then have "\<not> length xs < unat cap" using lq_put_room [OF assms(2) _ assms(3), of e] by auto
    then show ?thesis using lq_put_full [OF assms(2), of e] lq_atD(4) [OF assms(2)] put_full assms(2) by auto
  next
    case (claim c)
    then consider "ar' = ar" | "store_u32 ar (base + working_flag_offset l) 1 = Some ar'"
      by (auto simp: lq_mark_working_def split: bind_splits if_splits)
    then show ?thesis using assms(2) claim(1) flag_store [OF assms(2)] by cases auto
  qed
  then show "lq_at base cap l ar' h (xs @ es)" "same_outside (lq_extent base cap) ar ar'" "length es \<le> 1" by auto
qed

lemma lq_recv_op_at:
  assumes "lq_recv_op (queue_at base cap l) ar ar' es" "lq_at base cap l ar h xs"
  shows "\<exists>h' ys. xs = es @ ys \<and> lq_at base cap l ar' h' ys \<and> h' + length ys = h + length xs"
    and "same_outside (lq_extent base cap) ar ar'"
proof -
  have "(\<exists>h' ys. xs = es @ ys \<and> lq_at base cap l ar' h' ys \<and> h' + length ys = h + length xs) \<and>
    same_outside (lq_extent base cap) ar ar'"
    using assms(1)
  proof cases
    case (pop_ok e)
    then obtain x ys where xs: "xs = x # ys" using lq_pop_empty [of base cap l ar h] assms(2) by (cases xs) auto
    then show ?thesis using lq_pop_next [of base cap l ar h x ys] assms(2) pop_ok by force
  next
    case (pop_none err)
    have "xs = []" using lq_pop_next [of base cap l ar h] assms(2) pop_none by (cases xs) auto
    then show ?thesis using lq_pop_empty [of base cap l ar h] assms(2) pop_none by auto
  next
    case (rest c)
    then obtain ar1 where 1: "store_u32 ar (base + working_flag_offset l) 0 = Some ar1"
      and 2: "ar' = ar1 \<or> store_u32 ar1 (base + working_flag_offset l) 1 = Some ar'"
      by (auto simp: lq_mark_not_working_def split: bind_splits if_splits)
    note f1 = flag_store [OF assms(2) 1]
    have "lq_at base cap l ar' h xs \<and> same_outside (lq_extent base cap) ar1 ar'"
      using 2 f1(1) flag_store [OF f1(1)] by auto
    then show ?thesis using rest(1) f1(2) by (auto simp: same_outside_def)
  qed
  then show "\<exists>h' ys. xs = es @ ys \<and> lq_at base cap l ar' h' ys \<and> h' + length ys = h + length xs"
    "same_outside (lq_extent base cap) ar ar'" by auto
qed

lemma lq_create_ok:
  assumes "lq_ok base cap l ar"
  shows "\<exists>ar'. create_from_bytes ar base cap l = Some (ar', queue_at base cap l) \<and> lq_at base cap l ar' 0 [] \<and>
    load_u32 ar' (base + working_flag_offset l) = Some 0 \<and> same_outside (lq_extent base cap) ar ar'"
proof -
  let ?h = "base + head_offset l" and ?t = "base + tail_offset l" and ?w = "base + working_flag_offset l"
  have ok: "base mod 4 = 0" "l = Aligned \<longrightarrow> base mod 8 = 0" "base + count_queue_mem_size cap \<le> alen ar"
    using assms by (auto simp: lq_ok_def)
  have len: "base + 24 \<le> alen ar" using ok(3) header_in_extent [of cap] by simp
  note f = header_fields_in [of l]
  obtain ar1 where 1: "store_u32 ar base cap = Some ar1" "load_u32 ar1 base = Some cap" "same_outside {base..<base + 4} ar ar1"
    using store_u32_ok [OF ok(1), of ar cap] len by auto
  obtain ar2 where 2: "store_position l ar1 ?h 0 = Some ar2" "load_position l ar2 ?h = Some 0" "same_outside {?h..<?h + 8} ar1 ar2"
    using store_position_ok [of l ?h ar1 0] ok(2) header_offsets(1) [of base l] len f(1) same_outside_alen [OF 1(3)] by auto
  obtain ar3 where 3: "store_position l ar2 ?t 0 = Some ar3" "load_position l ar3 ?t = Some 0" "same_outside {?t..<?t + 8} ar2 ar3"
    using store_position_ok [of l ?t ar2 0] ok(2) header_offsets(2) [of base l] len f(2)
      same_outside_alen [OF 1(3)] same_outside_alen [OF 2(3)] by auto
  obtain ar4 where 4: "store_u32 ar3 ?w 0 = Some ar4" "load_u32 ar4 ?w = Some 0" "same_outside {?w..<?w + 4} ar3 ar4"
    using store_u32_ok [OF header_offsets(3) [OF ok(1)], of l ar3 0] len f(3)
      same_outside_alen [OF 1(3)] same_outside_alen [OF 2(3)] same_outside_alen [OF 3(3)] by auto
  have "load_u32 ar3 base = Some cap"
    using load_u32_frame [OF 2(3), of base] load_u32_frame [OF 3(3), of base] 1(2) f by (simp add: disjoint_iff)
  moreover have "load_position l ar3 ?h = Some 0" using load_position_frame [OF 3(3), of ?h l] 2(2) f(7) by (simp add: disjoint_iff)
  ultimately have "lq_at base cap l ar3 0 []"
    using 3(2) assms same_outside_alen [OF 1(3)] same_outside_alen [OF 2(3)] same_outside_alen [OF 3(3)]
    by (simp add: lq_at_def lq_ok_def)
  note at = flag_store [OF this 4(1)]
  have "same_outside (lq_extent base cap) ar ar3"
    using 1(3) 2(3) 3(3) f header_in_extent [of cap] by (auto simp: same_outside_def lq_extent_def)
  then have "same_outside (lq_extent base cap) ar ar4" using at(2) by (auto simp: same_outside_def)
  moreover have "create_from_bytes ar base cap l = Some (ar4, queue_at base cap l)"
    using 1(1,2) 2(1) 3(1) 4(1) by (simp add: create_from_bytes_def mapping_from_bytes_def queue_at_load)
  ultimately show ?thesis using at(1) 4(2) by blast
qed

lemma pair_extents: "lq_extent 0 cap \<inter> lq_extent (count_queue_mem_size cap * QUEUE_COUNT div 2) cap = {}"
  by (auto simp: lq_extent_def QUEUE_COUNT_def)

lemma half_size: "count_queue_mem_size cap * QUEUE_COUNT div 2 = count_queue_mem_size cap"
  by (simp add: QUEUE_COUNT_def)

lemma mem_size_aligned:
  "count_queue_mem_size cap mod 4 = 0" "even (unat cap) \<Longrightarrow> count_queue_mem_size cap mod 8 = 0"
  "even (unat cap) \<Longrightarrow> count_queue_mem_size cap * QUEUE_COUNT mod 16 = 0"
  by (simp_all add: count_queue_mem_size_def QUEUE_HEADER_LENGTH_def QUEUE_ELEMENT_LEN_def QUEUE_COUNT_def; presburger)+

lemma create_pair_ok:
  assumes "alen ar = count_queue_mem_size cap * QUEUE_COUNT" "l = Aligned \<longrightarrow> even (unat cap)"
  shows "\<exists>ar'. create_pair ar (alen ar) cap l = Some (ar', queue_at 0 cap l, queue_at (count_queue_mem_size cap) cap l) \<and>
    lq_at 0 cap l ar' 0 [] \<and> lq_at (count_queue_mem_size cap) cap l ar' 0 [] \<and> alen ar' = alen ar"
proof -
  let ?z = "fill_zero ar" and ?half = "count_queue_mem_size cap"
  have al: "alen ?z = ?half * 2" using assms(1) by (simp add: fill_zero_def QUEUE_COUNT_def)
  then have "lq_ok 0 cap l ?z" by (simp add: lq_ok_def)
  then obtain ar1 where 1: "create_from_bytes ?z 0 cap l = Some (ar1, queue_at 0 cap l)" "lq_at 0 cap l ar1 0 []"
    "same_outside (lq_extent 0 cap) ?z ar1" using lq_create_ok by blast
  have al1: "alen ar1 = ?half * 2" using same_outside_alen [OF 1(3)] al by simp
  then have "lq_ok ?half cap l ar1" using mem_size_aligned [of cap] assms(2) by (simp add: lq_ok_def)
  then obtain ar2 where 2: "create_from_bytes ar1 ?half cap l = Some (ar2, queue_at ?half cap l)" "lq_at ?half cap l ar2 0 []"
    "same_outside (lq_extent ?half cap) ar1 ar2" using lq_create_ok by blast
  have "lq_at 0 cap l ar2 0 []" using lq_at_frame [OF 1(2) 2(3)] pair_extents [of cap] half_size [of cap] by simp
  then show ?thesis using 1(1) 2 al al1 assms(1) half_size [of cap] same_outside_alen [OF 2(3)]
    by (simp add: create_pair_def QUEUE_COUNT_def)
qed

lemma mapping_pair_ok:
  assumes "lq_at 0 cap l ar h xs" "lq_at (count_queue_mem_size cap) cap l ar h' ys" "n = count_queue_mem_size cap * QUEUE_COUNT"
  shows "mapping_pair ar n l = Some (queue_at (count_queue_mem_size cap) cap l, queue_at 0 cap l)"
  using lq_atD(6) [OF assms(1)] lq_atD(6) [OF assms(2)] assms(3) half_size [of cap]
  by (simp add: mapping_pair_def mapping_from_bytes_def)

text \<open>The two managers see the same two queues, with the directions exchanged.\<close>

definition connected :: "32 word \<Rightarrow> queue_layout \<Rightarrow> queue_manager \<Rightarrow> queue_manager \<Rightarrow> bool" where
  "connected cap l c m \<longleftrightarrow> qm_send_queue c = queue_at 0 cap l \<and> qm_recv_queue m = queue_at 0 cap l \<and>
     qm_recv_queue c = queue_at (count_queue_mem_size cap) cap l \<and>
     qm_send_queue m = queue_at (count_queue_mem_size cap) cap l"

definition pair_inv :: "32 word \<Rightarrow> queue_layout \<Rightarrow> nat \<Rightarrow> arena \<Rightarrow> queue_element list \<Rightarrow> queue_element list \<Rightarrow>
    queue_element list \<Rightarrow> queue_element list \<Rightarrow> bool" where
  "pair_inv cap l n ar ci co mi mo \<longleftrightarrow> (\<exists>h xs k ys. ci = co @ xs \<and> mi = mo @ ys \<and> h + length xs \<le> n \<and> k + length ys \<le> n \<and>
     lq_at 0 cap l ar h xs \<and> lq_at (count_queue_mem_size cap) cap l ar k ys)"

lemma pair_inv_send:
  assumes "lq_at b1 cap l ar h xs" "lq_at b2 cap l ar k ys" "lq_extent b1 cap \<inter> lq_extent b2 cap = {}"
    "lq_send_op (queue_at b1 cap l) ar ar' es" "h + length xs \<le> n" "n + 1 < 2 ^ 63"
  shows "lq_at b1 cap l ar' h (xs @ es)" "lq_at b2 cap l ar' k ys" "h + length (xs @ es) \<le> Suc n"
proof -
  note s = lq_send_op_at [OF assms(4,1)]
  have bd: "h + length xs + 1 < 2 ^ 63" using assms(5,6) by simp
  show "lq_at b1 cap l ar' h (xs @ es)" using s(1) [OF bd] .
  show "lq_at b2 cap l ar' k ys" using lq_at_frame [OF assms(2) s(2) [OF bd]] assms(3) by (simp add: Int_commute)
  show "h + length (xs @ es) \<le> Suc n" using s(3) [OF bd] assms(5) by simp
qed

lemma pair_inv_recv:
  assumes "lq_at b1 cap l ar h xs" "lq_at b2 cap l ar k ys" "lq_extent b1 cap \<inter> lq_extent b2 cap = {}"
    "lq_recv_op (queue_at b1 cap l) ar ar' es"
  shows "\<exists>h' zs. xs = es @ zs \<and> lq_at b1 cap l ar' h' zs \<and> h' + length zs = h + length xs" "lq_at b2 cap l ar' k ys"
  using lq_recv_op_at(1) [OF assms(4,1)] lq_at_frame [OF assms(2) lq_recv_op_at(2) [OF assms(4,1)]] assms(3)
  by (simp_all add: Int_commute)

lemma pair_run_inv:
  assumes "pair_run c m ar0 n ar ci co mi mo" "connected cap l c m" "pair_inv cap l 0 ar0 [] [] [] []" "n < 2 ^ 63"
  shows "pair_inv cap l n ar ci co mi mo"
  using assms(1,4)
proof (induction rule: pair_run.induct)
  case pair_start
  then show ?case using assms(3) by simp
next
  let ?b = "count_queue_mem_size cap"
  note cn = assms(2) [unfolded connected_def] and ex = pair_extents [of cap, unfolded half_size]
  case (creator_sends n ar ci co mi mo ar' es)
  then obtain h xs k ys where i: "ci = co @ xs" "mi = mo @ ys" "h + length xs \<le> n" "k + length ys \<le> n"
    "lq_at 0 cap l ar h xs" "lq_at ?b cap l ar k ys" unfolding pair_inv_def by auto
  then show ?case using pair_inv_send [OF i(5,6) ex, of ar' es n] creator_sends cn unfolding pair_inv_def
    by (intro exI [of _ h] exI [of _ "xs @ es"] exI [of _ k] exI [of _ ys]) simp
next
  let ?b = "count_queue_mem_size cap"
  note cn = assms(2) [unfolded connected_def] and ex = pair_extents [of cap, unfolded half_size]
  case (mapper_takes n ar ci co mi mo ar' es)
  then obtain h xs k ys where i: "ci = co @ xs" "mi = mo @ ys" "h + length xs \<le> n" "k + length ys \<le> n"
    "lq_at 0 cap l ar h xs" "lq_at ?b cap l ar k ys" unfolding pair_inv_def by auto
  obtain h' zs where "xs = es @ zs" "lq_at 0 cap l ar' h' zs" "h' + length zs = h + length xs" "lq_at ?b cap l ar' k ys"
    using pair_inv_recv [OF i(5,6) ex, of ar' es] mapper_takes(2) cn by auto
  then show ?case using i unfolding pair_inv_def
    by (intro exI [of _ h'] exI [of _ zs] exI [of _ k] exI [of _ ys]) simp
next
  let ?b = "count_queue_mem_size cap"
  note cn = assms(2) [unfolded connected_def] and ex = pair_extents [of cap, unfolded half_size, unfolded Int_commute [of "lq_extent 0 cap"]]
  case (mapper_sends n ar ci co mi mo ar' es)
  then obtain h xs k ys where i: "ci = co @ xs" "mi = mo @ ys" "h + length xs \<le> n" "k + length ys \<le> n"
    "lq_at 0 cap l ar h xs" "lq_at ?b cap l ar k ys" unfolding pair_inv_def by auto
  then show ?case using pair_inv_send [OF i(6,5) ex, of ar' es n] mapper_sends cn unfolding pair_inv_def
    by (intro exI [of _ h] exI [of _ xs] exI [of _ k] exI [of _ "ys @ es"]) simp
next
  let ?b = "count_queue_mem_size cap"
  note cn = assms(2) [unfolded connected_def] and ex = pair_extents [of cap, unfolded half_size, unfolded Int_commute [of "lq_extent 0 cap"]]
  case (creator_takes n ar ci co mi mo ar' es)
  then obtain h xs k ys where i: "ci = co @ xs" "mi = mo @ ys" "h + length xs \<le> n" "k + length ys \<le> n"
    "lq_at 0 cap l ar h xs" "lq_at ?b cap l ar k ys" unfolding pair_inv_def by auto
  obtain k' zs where "ys = es @ zs" "lq_at ?b cap l ar' k' zs" "k' + length zs = k + length ys" "lq_at 0 cap l ar' h xs"
    using pair_inv_recv [OF i(6,5) ex, of ar' es] creator_takes(2) cn by auto
  then show ?case using i unfolding pair_inv_def
    by (intro exI [of _ h] exI [of _ xs] exI [of _ k'] exI [of _ zs]) simp
qed

text \<open>
  Each direction has delivered what was sent up to the elements still inside, at most the capacity; its
  producer is refused exactly when it is full, its consumer gets the oldest element or finds it empty.
\<close>

definition pair_delivers :: "32 word \<Rightarrow> queue_manager \<Rightarrow> queue_manager \<Rightarrow> arena \<Rightarrow>
    queue_element list \<Rightarrow> queue_element list \<Rightarrow> queue_element list \<Rightarrow> queue_element list \<Rightarrow> bool" where
  "pair_delivers cap c m ar ci co mi mo \<longleftrightarrow>
     (\<exists>xs ys. ci = co @ xs \<and> mi = mo @ ys \<and> length xs \<le> unat cap \<and> length ys \<le> unat cap \<and>
      (\<forall>e. \<exists>ar'. lq_put (qm_send_queue c) ar e = Some (ar', if length xs < unat cap then Inr () else Inl QueueFull)) \<and>
      (\<forall>e. \<exists>ar'. lq_put (qm_send_queue m) ar e = Some (ar', if length ys < unat cap then Inr () else Inl QueueFull)) \<and>
      (\<exists>ar'. lq_pop (qm_recv_queue m) ar = Some (ar', case xs of [] \<Rightarrow> Inl QueueEmpty | x # _ \<Rightarrow> Inr x)) \<and>
      (\<exists>ar'. lq_pop (qm_recv_queue c) ar = Some (ar', case ys of [] \<Rightarrow> Inl QueueEmpty | y # _ \<Rightarrow> Inr y)))"

lemma pair_step_results:
  assumes "lq_at base cap l ar h xs" "h + length xs + 1 < 2 ^ 63"
  shows "\<exists>ar'. lq_put (queue_at base cap l) ar e = Some (ar', if length xs < unat cap then Inr () else Inl QueueFull)"
    and "\<exists>ar'. lq_pop (queue_at base cap l) ar = Some (ar', case xs of [] \<Rightarrow> Inl QueueEmpty | x # _ \<Rightarrow> Inr x)"
proof -
  show "\<exists>ar'. lq_put (queue_at base cap l) ar e = Some (ar', if length xs < unat cap then Inr () else Inl QueueFull)"
    using lq_put_room [OF assms(1) _ assms(2), of e] lq_put_full [OF assms(1), of e] lq_atD(4) [OF assms(1)]
    by (cases "length xs < unat cap") auto
  show "\<exists>ar'. lq_pop (queue_at base cap l) ar = Some (ar', case xs of [] \<Rightarrow> Inl QueueEmpty | x # _ \<Rightarrow> Inr x)"
    using lq_pop_empty [of base cap l ar h] lq_pop_next [of base cap l ar h] assms(1) by (cases xs) auto
qed

lemma legacy_pair_connects:
  assumes "CHR 0x00 \<notin> set path" "alen blank = count_queue_mem_size cap * QUEUE_COUNT"
    "l = for_protocol_version arm version" "l = Aligned \<longrightarrow> even (unat cap)"
  shows "\<exists>c m ar0. create_with_memfd arm path cap version (Inr fd) (Inr ()) (\<lambda>_. Inr blank) = Some (Inr (c, ar0)) \<and>
    mapping_with_memfd arm path' fd' version (Inr (int (alen ar0))) (\<lambda>_. Inr ar0) = Some (Inr (m, ar0)) \<and>
    connected cap l c m \<and> pair_inv cap l 0 ar0 [] [] [] []"
proof -
  let ?b = "count_queue_mem_size cap"
  obtain ar0 where c: "create_pair blank (alen blank) cap l = Some (ar0, queue_at 0 cap l, queue_at ?b cap l)"
    and at: "lq_at 0 cap l ar0 0 []" "lq_at ?b cap l ar0 0 []" and al: "alen ar0 = alen blank"
    using create_pair_ok [OF assms(2,4)] by blast
  have mp: "mapping_pair ar0 (alen ar0) l = Some (queue_at ?b cap l, queue_at 0 cap l)"
    using mapping_pair_ok [OF at] al assms(2) by simp
  let ?c = "\<lparr> qm_path = path, qm_send_queue = queue_at 0 cap l, qm_recv_queue = queue_at ?b cap l, qm_memfd = fd,
    qm_mmap_map_type = MemMapTypeMemFd \<rparr>"
  let ?m = "\<lparr> qm_path = path', qm_send_queue = queue_at ?b cap l, qm_recv_queue = queue_at 0 cap l, qm_memfd = fd',
    qm_mmap_map_type = MemMapTypeMemFd \<rparr>"
  have "create_with_memfd arm path cap version (Inr fd) (Inr ()) (\<lambda>_. Inr blank) = Some (Inr (?c, ar0))"
    using c assms(1,2) by (simp add: create_with_memfd_def Let_def assms(3) [symmetric])
  moreover have "\<not> (l = Aligned \<and> alen ar0 mod 16 \<noteq> 0)" using al assms(2,4) mem_size_aligned(3) by simp
  then have "mapping_with_memfd arm path' fd' version (Inr (int (alen ar0))) (\<lambda>_. Inr ar0) = Some (Inr (?m, ar0))"
    using mp by (simp add: mapping_with_memfd_def Let_def assms(3) [symmetric])
  moreover have "connected cap l ?c ?m" by (simp add: connected_def)
  moreover have "pair_inv cap l 0 ar0 [] [] [] []" using at by (auto simp: pair_inv_def)
  ultimately show ?thesis by blast
qed


definition ex_map :: arena where
  "ex_map = \<lparr> alen = 144, abytes = (\<lambda>_. 7) \<rparr>"


text \<open>C35. An odd capacity breaks the aligned layout: the second queue starts at an address that is 4 modulo 8, its
  64-bit atomic positions are misaligned, so creating the pair is undefined behaviour, and the peer
  refuses to map a file of that size.\<close>

theorem queue_odd_capacity:
  assumes "odd (unat cap)" "alen ar = count_queue_mem_size cap * QUEUE_COUNT"
  shows "create_pair ar (count_queue_mem_size cap * QUEUE_COUNT) cap Aligned = None \<and>
    mapping_with_file arm path 4 (Inr (count_queue_mem_size cap * QUEUE_COUNT)) mem =
      Some (Inl (Others ''the memory size of queue should be a multiple of 16''))"
proof -
  let ?b = "count_queue_mem_size cap"
  have m: "(?b + 8) mod 8 \<noteq> 0" "(?b * 2) mod 16 \<noteq> 0"
    using assms(1) by (simp_all add: count_queue_mem_size_def QUEUE_HEADER_LENGTH_def QUEUE_ELEMENT_LEN_def; presburger)+
  then have "store_head (queue_at ?b c Aligned) ar' 0 = None" for ar' c
    by (simp add: store_head_def store_position_def queue_at_def)
  then have "create_from_bytes ar' ?b cap Aligned = None" for ar'
    by (auto simp: create_from_bytes_def mapping_from_bytes_def bind_eq_None_conv split: Option.bind_splits)
  then have "create_pair ar (?b * QUEUE_COUNT) cap Aligned = None"
    by (auto simp: create_pair_def QUEUE_COUNT_def split: Option.bind_splits)
  moreover have "for_protocol_version arm 4 = Aligned" by (simp add: for_protocol_version_def)
  ultimately show ?thesis using m(2) by (simp add: mapping_with_file_def Let_def QUEUE_COUNT_def)
qed

definition ex_odd :: arena where
  "ex_odd = \<lparr> alen = 120, abytes = (\<lambda>_. 0) \<rparr>"

theorem queue_odd_capacity_witness:
  "create_pair ex_odd 120 3 Aligned = None"
  using queue_odd_capacity [of 3 ex_odd] by (simp add: ex_odd_def count_queue_mem_size_def QUEUE_HEADER_LENGTH_def QUEUE_ELEMENT_LEN_def QUEUE_COUNT_def)

end
