(* ===== verification/Buffer_Slice.thy ===== *)
theory Buffer_Slice
  imports Cells Errors
begin

text \<open>
  Buffer headers and buffer slices of protocol versions 2 to 4, \<open>src/buffer/slice.rs\<close>. A
  \<open>BufferHeader\<close> is the offset of the header in the mapping. The payload of a slice lies in the mapping
  or, for a fallback slice, in memory of the process, which is then part of the slice. The link from a
  slice to the next one in its list is the list of slices itself, so the operations that read
  \<open>next_slice\<close> take it as an argument.
\<close>

section \<open>Layout of a header\<close>

definition BUFFER_HEADER_SIZE :: nat where "BUFFER_HEADER_SIZE = 4 + 4 + 4 + 4 + 4"
definition BUFFER_CAP_OFFSET :: nat where "BUFFER_CAP_OFFSET = 0"
definition BUFFER_SIZE_OFFSET :: nat where "BUFFER_SIZE_OFFSET = BUFFER_CAP_OFFSET + 4"
definition BUFFER_DATA_START_OFFSET :: nat where "BUFFER_DATA_START_OFFSET = BUFFER_SIZE_OFFSET + 4"
definition NEXT_BUFFER_OFFSET :: nat where "NEXT_BUFFER_OFFSET = BUFFER_DATA_START_OFFSET + 4"
definition BUFFER_FLAG_OFFSET :: nat where "BUFFER_FLAG_OFFSET = NEXT_BUFFER_OFFSET + 4"
definition HAS_NEXT_BUFFER_FLAG :: byte where "HAS_NEXT_BUFFER_FLAG = 1"
definition SLICE_IN_USED_FLAG :: byte where "SLICE_IN_USED_FLAG = 2"

lemmas bh_layout = BUFFER_HEADER_SIZE_def BUFFER_CAP_OFFSET_def BUFFER_SIZE_OFFSET_def BUFFER_DATA_START_OFFSET_def
  NEXT_BUFFER_OFFSET_def BUFFER_FLAG_OFFSET_def HAS_NEXT_BUFFER_FLAG_def SLICE_IN_USED_FLAG_def

section \<open>Header operations\<close>

definition next_buffer_offset :: "arena \<Rightarrow> nat \<Rightarrow> nat option" where
  "next_buffer_offset ar h = get_u32 ar (h + NEXT_BUFFER_OFFSET)"

definition bh_flag :: "arena \<Rightarrow> nat \<Rightarrow> byte option" where
  "bh_flag ar h = get_u8 ar (h + BUFFER_FLAG_OFFSET)"

definition bh_has_next :: "arena \<Rightarrow> nat \<Rightarrow> bool option" where
  "bh_has_next ar h = do { f \<leftarrow> bh_flag ar h; Some (f AND HAS_NEXT_BUFFER_FLAG > 0) }"

definition bh_clear_flag :: "arena \<Rightarrow> nat \<Rightarrow> arena option" where
  "bh_clear_flag ar h = set_u8 ar (h + BUFFER_FLAG_OFFSET) 0"

definition bh_set_in_used :: "arena \<Rightarrow> nat \<Rightarrow> arena option" where
  "bh_set_in_used ar h = do {
     f \<leftarrow> bh_flag ar h;
     set_u8 ar (h + BUFFER_FLAG_OFFSET) (f OR SLICE_IN_USED_FLAG)
   }"

definition bh_is_in_used :: "arena \<Rightarrow> nat \<Rightarrow> bool option" where
  "bh_is_in_used ar h = do { f \<leftarrow> bh_flag ar h; Some (f AND SLICE_IN_USED_FLAG > 0) }"

definition bh_link_next :: "arena \<Rightarrow> nat \<Rightarrow> nat \<Rightarrow> arena option" where
  "bh_link_next ar h n = do {
     ar \<leftarrow> set_u32 ar (h + NEXT_BUFFER_OFFSET) n;
     f \<leftarrow> bh_flag ar h;
     set_u8 ar (h + BUFFER_FLAG_OFFSET) (f OR HAS_NEXT_BUFFER_FLAG)
   }"

definition bh_unlink_next :: "arena \<Rightarrow> nat \<Rightarrow> arena option" where
  "bh_unlink_next ar h = do {
     ar \<leftarrow> set_u32 ar (h + NEXT_BUFFER_OFFSET) 0;
     f \<leftarrow> bh_flag ar h;
     set_u8 ar (h + BUFFER_FLAG_OFFSET) (f AND NOT HAS_NEXT_BUFFER_FLAG)
   }"

definition bh_cap :: "arena \<Rightarrow> nat \<Rightarrow> nat option" where
  "bh_cap ar h = get_u32 ar (h + BUFFER_CAP_OFFSET)"

definition bh_size :: "arena \<Rightarrow> nat \<Rightarrow> nat option" where
  "bh_size ar h = get_u32 ar (h + BUFFER_SIZE_OFFSET)"

definition bh_set_size :: "arena \<Rightarrow> nat \<Rightarrow> nat \<Rightarrow> arena option" where
  "bh_set_size ar h n = set_u32 ar (h + BUFFER_SIZE_OFFSET) n"

definition bh_start :: "arena \<Rightarrow> nat \<Rightarrow> nat option" where
  "bh_start ar h = get_u32 ar (h + BUFFER_DATA_START_OFFSET)"

definition bh_set_start :: "arena \<Rightarrow> nat \<Rightarrow> nat \<Rightarrow> arena option" where
  "bh_set_start ar h n = set_u32 ar (h + BUFFER_DATA_START_OFFSET) n"

section \<open>Slices\<close>

datatype slice_data = InShm nat | OnHeap "byte list"

record buffer_slice =
  bs_header :: "nat option"
  bs_data :: slice_data
  bs_cap :: nat
  bs_start :: nat
  bs_offset_in_shm :: nat
  bs_read_index :: nat
  bs_write_index :: nat
  bs_is_from_shm :: bool

text \<open>A slice needs a non-empty payload; a slice of the mapping takes its indices from its header.\<close>

definition slice_new :: "arena \<Rightarrow> nat option \<Rightarrow> slice_data \<Rightarrow> nat \<Rightarrow> nat \<Rightarrow> bool \<Rightarrow> buffer_slice option" where
  "slice_new ar header data len offset from_shm =
     (if len = 0 then None
      else
        let s = \<lparr> bs_header = None, bs_data = data, bs_cap = 0, bs_start = 0, bs_offset_in_shm = offset,
                  bs_read_index = 0, bs_write_index = 0, bs_is_from_shm = from_shm \<rparr> in
        case header of
          Some h \<Rightarrow>
            if from_shm then do {
              cap \<leftarrow> bh_cap ar h;
              start \<leftarrow> bh_start ar h;
              n \<leftarrow> bh_size ar h;
              w \<leftarrow> u32_add start n;
              Some (s \<lparr> bs_cap := cap, bs_start := start, bs_read_index := start, bs_write_index := w,
                       bs_header := Some h \<rparr>)
            }
            else Some (s \<lparr> bs_cap := len \<rparr>)
        | None \<Rightarrow> Some (s \<lparr> bs_cap := len \<rparr>))"

definition slice_size :: "buffer_slice \<Rightarrow> nat option" where
  "slice_size s = checked_sub (bs_write_index s) (bs_read_index s)"

definition slice_remain :: "buffer_slice \<Rightarrow> nat option" where
  "slice_remain s = checked_sub (bs_cap s) (bs_write_index s)"

definition slice_capacity :: "buffer_slice \<Rightarrow> nat" where
  "slice_capacity s = bs_cap s"

text \<open>\<open>update\<close> publishes the slice in its header; \<open>nx\<close> is the next slice of the list.\<close>

definition slice_update :: "arena \<Rightarrow> buffer_slice \<Rightarrow> buffer_slice option \<Rightarrow> arena option" where
  "slice_update ar s nx =
     (case bs_header s of
        None \<Rightarrow> Some ar
      | Some h \<Rightarrow> do {
          n \<leftarrow> slice_size s;
          ar \<leftarrow> bh_set_size ar h n;
          ar \<leftarrow> bh_set_start ar h (bs_start s);
          case nx of
            None \<Rightarrow> bh_unlink_next ar h
          | Some t \<Rightarrow> bh_link_next ar h (bs_offset_in_shm t)
        })"

definition reset_indices_and_link :: "arena \<Rightarrow> buffer_slice \<Rightarrow> (arena \<times> buffer_slice) option" where
  "reset_indices_and_link ar s = do {
     ar \<leftarrow> (case bs_header s of
        None \<Rightarrow> Some ar
      | Some h \<Rightarrow> do {
          ar \<leftarrow> bh_set_size ar h 0;
          ar \<leftarrow> bh_set_start ar h 0;
          bh_unlink_next ar h
        });
     Some (ar, s \<lparr> bs_start := 0, bs_write_index := 0, bs_read_index := 0 \<rparr>)
   }"

definition reset_for_recycle :: "arena \<Rightarrow> buffer_slice \<Rightarrow> (arena \<times> buffer_slice) option" where
  "reset_for_recycle ar s = do {
     (ar, s) \<leftarrow> reset_indices_and_link ar s;
     ar \<leftarrow> (case bs_header s of None \<Rightarrow> Some ar | Some h \<Rightarrow> bh_clear_flag ar h);
     Some (ar, s)
   }"

definition slice_reset :: "arena \<Rightarrow> buffer_slice \<Rightarrow> (arena \<times> buffer_slice) option" where
  "slice_reset ar s = reset_for_recycle ar s"

definition reset_for_reuse :: "arena \<Rightarrow> buffer_slice \<Rightarrow> (arena \<times> buffer_slice) option" where
  "reset_for_reuse ar s = do {
     (ar, s) \<leftarrow> reset_indices_and_link ar s;
     ar \<leftarrow> (case bs_header s of None \<Rightarrow> Some ar | Some h \<Rightarrow> bh_set_in_used ar h);
     Some (ar, s)
   }"

text \<open>Bytes of the payload, from and to a position in it.\<close>

definition data_get :: "arena \<Rightarrow> slice_data \<Rightarrow> nat \<Rightarrow> nat \<Rightarrow> byte list option" where
  "data_get ar d p n =
     (case d of
        InShm a \<Rightarrow> arena_get ar (a + p) (a + p + n)
      | OnHeap bs \<Rightarrow> if p + n \<le> length bs then Some (take n (drop p bs)) else None)"

definition data_put :: "arena \<Rightarrow> slice_data \<Rightarrow> nat \<Rightarrow> byte list \<Rightarrow> (arena \<times> slice_data) option" where
  "data_put ar d p vs =
     (case d of
        InShm a \<Rightarrow> map_option (\<lambda>ar'. (ar', d)) (arena_put ar (a + p) vs)
      | OnHeap bs \<Rightarrow> if p + length vs \<le> length bs
          then Some (ar, OnHeap (take p bs @ vs @ drop (p + length vs) bs)) else None)"

text \<open>\<open>reserve\<close> returns the position and length of the reserved bytes.\<close>

definition slice_reserve :: "buffer_slice \<Rightarrow> nat \<Rightarrow> (buffer_slice \<times> (ipc_error + nat \<times> nat)) option" where
  "slice_reserve s n = do {
     let start = bs_write_index s;
     remain \<leftarrow> slice_remain s;
     if remain \<ge> n then Some (s \<lparr> bs_write_index := bs_write_index s + n \<rparr>, Inr (start, n))
     else Some (s, Inl NoMoreBuffer)
   }"

definition slice_append :: "arena \<Rightarrow> buffer_slice \<Rightarrow> byte list \<Rightarrow> (arena \<times> buffer_slice \<times> nat) option" where
  "slice_append ar s vs =
     (if vs = [] then Some (ar, s, 0)
      else do {
        remain \<leftarrow> slice_remain s;
        let copy_size = min (length vs) remain;
        (ar, d) \<leftarrow> data_put ar (bs_data s) (bs_write_index s) (take copy_size vs);
        Some (ar, s \<lparr> bs_data := d, bs_write_index := bs_write_index s + copy_size \<rparr>, copy_size)
      })"

definition slice_peek :: "arena \<Rightarrow> buffer_slice \<Rightarrow> nat \<Rightarrow> byte list option" where
  "slice_peek ar s n = do {
     sz \<leftarrow> slice_size s;
     data_get ar (bs_data s) (bs_read_index s) (min n sz)
   }"

definition slice_read :: "arena \<Rightarrow> buffer_slice \<Rightarrow> nat \<Rightarrow> (buffer_slice \<times> byte list) option" where
  "slice_read ar s n = do {
     sz \<leftarrow> slice_size s;
     let n = min n sz;
     bs \<leftarrow> data_get ar (bs_data s) (bs_read_index s) n;
     Some (s \<lparr> bs_read_index := bs_read_index s + n \<rparr>, bs)
   }"

definition slice_skip :: "buffer_slice \<Rightarrow> nat \<Rightarrow> (buffer_slice \<times> nat) option" where
  "slice_skip s n = do {
     unread \<leftarrow> slice_size s;
     if unread > n then Some (s \<lparr> bs_read_index := bs_read_index s + n \<rparr>, n)
     else Some (s \<lparr> bs_read_index := bs_read_index s + unread \<rparr>, unread)
   }"

section \<open>Lists of slices\<close>

text \<open>
  \<open>SliceList\<close> chains boxed slices through \<open>next_slice\<close> from \<open>front_slice\<close> to \<open>back_slice\<close>: the list of
  its slices, with the position of the write slice in it.
\<close>

record slice_list =
  sl_slices :: "buffer_slice list"
  sl_write :: "nat option"

definition sl_new :: slice_list where
  "sl_new = \<lparr> sl_slices = [], sl_write = None \<rparr>"

definition sl_front :: "slice_list \<Rightarrow> buffer_slice option" where
  "sl_front l = (case sl_slices l of [] \<Rightarrow> None | s # _ \<Rightarrow> Some s)"

definition sl_back :: "slice_list \<Rightarrow> buffer_slice option" where
  "sl_back l = (if sl_slices l = [] then None else Some (last (sl_slices l)))"

definition sl_write_slice :: "slice_list \<Rightarrow> buffer_slice option" where
  "sl_write_slice l = (case sl_write l of None \<Rightarrow> None | Some i \<Rightarrow> vec_get (sl_slices l) i)"

definition sl_size :: "slice_list \<Rightarrow> nat" where
  "sl_size l = length (sl_slices l)"

definition sl_push_back :: "slice_list \<Rightarrow> buffer_slice \<Rightarrow> slice_list" where
  "sl_push_back l s = l \<lparr> sl_slices := sl_slices l @ [s] \<rparr>"

definition sl_pop_front :: "slice_list \<Rightarrow> slice_list \<times> buffer_slice option" where
  "sl_pop_front l =
     (case sl_slices l of
        [] \<Rightarrow> (l, None)
      | s # ss \<Rightarrow>
          (\<lparr> sl_slices = ss,
             sl_write = (case sl_write l of None \<Rightarrow> None | Some 0 \<Rightarrow> None | Some (Suc i) \<Rightarrow> Some i) \<rparr>, Some s))"

text \<open>Cut the list behind the write slice and return what was cut off, with its first slice.\<close>

definition sl_split_from_write :: "slice_list \<Rightarrow> slice_list \<times> buffer_slice list" where
  "sl_split_from_write l =
     (case sl_write l of
        None \<Rightarrow> (l, [])
      | Some i \<Rightarrow> (l \<lparr> sl_slices := take (Suc i) (sl_slices l) \<rparr>, drop (Suc i) (sl_slices l)))"

end
