(* ===== verification/Config.thy ===== *)
theory Config
  imports Fixed Legacy_Queue Buffer_Slice
begin

text \<open>
  The session configuration of \<open>src/config.rs\<close> and its \<open>verify\<close>. Durations are nanoseconds, \<open>u32\<close>
  fields natural numbers with the overflow of a sum as the panic \<open>None\<close>. \<open>verify\<close> works in place: it
  returns the changed configuration along with the result, also when it refuses.
\<close>

datatype protocol_mode = LegacyMode | V4 (mode_fallback: bool) | V5 (mode_fallback: bool)

datatype wakeup_mode = DefaultWakeup | EventQueuePolling (polling_interval: nat) | EventFd

record protocol_config =
  pc_mode :: protocol_mode
  pc_wakeup :: wakeup_mode

record config =
  connection_write_timeout :: nat
  connection_read_timeout :: "nat option"
  connection_timeout :: "nat option"
  initialize_timeout :: nat
  cfg_queue_cap :: nat
  queue_path :: string
  share_memory_buffer_cap :: nat
  share_memory_path_prefix :: string
  buffer_slice_sizes :: "size_percent_pair list"
  cfg_mem_map_type :: mem_map_type
  rebuild_interval :: nat
  max_stream_num :: nat
  protocol :: protocol_config
  v5_queue_publish_timeout :: nat

section \<open>Defaults\<close>

definition seconds :: "nat \<Rightarrow> nat" where "seconds n = n * 10 ^ 9"


definition DEFAULT_QUEUE_CAP :: nat where "DEFAULT_QUEUE_CAP = 8192"
definition DEFAULT_QUEUE_PATH :: string where "DEFAULT_QUEUE_PATH = ''/dev/shm/shmipc_queue''"
definition DEFAULT_SHARE_MEMORY_CAP :: nat where "DEFAULT_SHARE_MEMORY_CAP = 32 * 1024 * 1024"
definition SESSION_REBUILD_INTERVAL :: nat where "SESSION_REBUILD_INTERVAL = seconds 60"
definition DEFAULT_V5_QUEUE_PUBLISH_TIMEOUT :: nat where "DEFAULT_V5_QUEUE_PUBLISH_TIMEOUT = seconds 1"

definition DEFAULT_BUFFER_SLICE_SIZES :: "size_percent_pair list" where
  "DEFAULT_BUFFER_SLICE_SIZES =
     [\<lparr> sp_size = 8192 - BUFFER_HEADER_SIZE, sp_percent = 50 \<rparr>,
      \<lparr> sp_size = 32 * 1024 - BUFFER_HEADER_SIZE, sp_percent = 30 \<rparr>,
      \<lparr> sp_size = 128 * 1024 - BUFFER_HEADER_SIZE, sp_percent = 20 \<rparr>]"

definition protocol_default :: protocol_config where
  "protocol_default = \<lparr> pc_mode = LegacyMode, pc_wakeup = DefaultWakeup \<rparr>"

definition config_default :: config where
  "config_default =
     \<lparr> connection_write_timeout = seconds 10, connection_read_timeout = None, connection_timeout = None,
       initialize_timeout = seconds 1, cfg_queue_cap = DEFAULT_QUEUE_CAP, queue_path = DEFAULT_QUEUE_PATH,
       share_memory_buffer_cap = DEFAULT_SHARE_MEMORY_CAP, share_memory_path_prefix = ''/dev/shm/shmipc'',
       buffer_slice_sizes = DEFAULT_BUFFER_SLICE_SIZES, cfg_mem_map_type = MemMapTypeMemFd,
       rebuild_interval = SESSION_REBUILD_INTERVAL, max_stream_num = 4096, protocol = protocol_default,
       v5_queue_publish_timeout = DEFAULT_V5_QUEUE_PUBLISH_TIMEOUT \<rparr>"

definition config_new :: config where "config_new = config_default"

definition with_v4 :: "config \<Rightarrow> config" where
  "with_v4 c = c \<lparr> protocol := (protocol c) \<lparr> pc_mode := V4 True \<rparr> \<rparr>"

definition with_v4_eventfd :: "config \<Rightarrow> config" where
  "with_v4_eventfd c = c \<lparr> protocol := (protocol c) \<lparr> pc_mode := V4 True, pc_wakeup := EventFd \<rparr> \<rparr>"

definition with_v4_event_queue_polling :: "config \<Rightarrow> nat \<Rightarrow> config" where
  "with_v4_event_queue_polling c interval =
     c \<lparr> protocol := (protocol c) \<lparr> pc_mode := V4 True, pc_wakeup := EventQueuePolling interval \<rparr> \<rparr>"

definition with_v5 :: "config \<Rightarrow> config" where
  "with_v5 c = c \<lparr> protocol := (protocol c) \<lparr> pc_mode := V5 True \<rparr> \<rparr>"

definition with_v5_eventfd :: "config \<Rightarrow> config" where
  "with_v5_eventfd c = c \<lparr> protocol := (protocol c) \<lparr> pc_mode := V5 True, pc_wakeup := EventFd \<rparr> \<rparr>"

definition with_v5_event_queue_polling :: "config \<Rightarrow> nat \<Rightarrow> config" where
  "with_v5_event_queue_polling c interval =
     c \<lparr> protocol := (protocol c) \<lparr> pc_mode := V5 True, pc_wakeup := EventQueuePolling interval \<rparr> \<rparr>"

section \<open>Verification of a configuration\<close>

text \<open>\<open>(x + 3) & !3\<close> and \<open>(x + 7) & !7\<close>: round up to a multiple of a power of two.\<close>

definition round_up :: "nat \<Rightarrow> nat \<Rightarrow> nat option" where
  "round_up k x = do { s \<leftarrow> u32_add x (k - 1); Some (s div k * k) }"

text \<open>The loop over the slice sizes: \<open>Inl\<close> is the refusal, with the pairs as changed so far.\<close>

fun verify_pairs :: "nat \<Rightarrow> nat \<Rightarrow> size_percent_pair list \<Rightarrow>
    (size_percent_pair list \<times> (string + nat)) option" where
  "verify_pairs cap acc [] = Some ([], Inr acc)"
| "verify_pairs cap acc (p # ps) = do {
     acc \<leftarrow> u32_add acc (sp_percent p);
     if sp_size p > cap
     then Some (p # ps, Inl ''buffer_slice_sizes's size couldn't greater than share_memory_buffer_cap'')
     else do {
       aligned \<leftarrow> round_up 4 (sp_size p);
       (ps, r) \<leftarrow> verify_pairs cap acc ps;
       Some (p \<lparr> sp_size := aligned \<rparr> # ps, r)
     }
   }"

text \<open>The checks on the protocol settings that come before the sizes.\<close>

definition verify_protocol :: "config \<Rightarrow> string option" where
  "verify_protocol c =
     (let mode = pc_mode (protocol c); wakeup = pc_wakeup (protocol c); memfd = (cfg_mem_map_type c = MemMapTypeMemFd) in
      if mode = LegacyMode \<and> wakeup \<noteq> DefaultWakeup then Some ''wakeup features require ProtocolMode::V4 or V5''
      else if wakeup = EventQueuePolling 0 then Some ''event_queue_polling interval must be greater than zero''
      else if wakeup = EventFd \<and> \<not> memfd then Some ''eventfd wakeup requires memfd shared memory''
      else if (case mode of V5 _ \<Rightarrow> True | _ \<Rightarrow> False) \<and> \<not> memfd then Some ''ProtocolMode::V5 requires memfd shared memory''
      else None)"

definition verify :: "bool \<Rightarrow> bool \<Rightarrow> config \<Rightarrow> (config \<times> (string + unit)) option" where
  "verify linux arch c =
     (case verify_protocol c of
        Some e \<Rightarrow> Some (c, Inl e)
      | None \<Rightarrow>
        if share_memory_buffer_cap c < 2 ^ 20 then Some (c, Inl ''share memory size is too small'')
        else if buffer_slice_sizes c = [] then Some (c, Inl ''buffer_slice_sizes could not be nil'')
        else do {
          (ps, r) \<leftarrow> verify_pairs (share_memory_buffer_cap c) 0 (buffer_slice_sizes c);
          let c = c \<lparr> buffer_slice_sizes := ps \<rparr>;
          case r of
            Inl e \<Rightarrow> Some (c, Inl e)
          | Inr pct \<Rightarrow>
            if pct \<noteq> 100 then Some (c, Inl ''the sum of buffer_slice_sizes's percent should be 100'')
            else do {
              q \<leftarrow> round_up 8 (cfg_queue_cap c);
              let c = c \<lparr> cfg_queue_cap := q \<rparr>;
              if share_memory_path_prefix c = [] \<or> queue_path c = []
              then Some (c, Inl ''buffer path or queue path could not be nil'')
              else if \<not> linux then Some (c, Inl ''shmipc just support linux OS now'')
              else if \<not> arch then Some (c, Inl ''shmipc just support amd64 or arm64 arch'')
              else Some (c, Inr ())
            }
        })"

lemmas config_defaults = config_default_def protocol_default_def DEFAULT_BUFFER_SLICE_SIZES_def BUFFER_HEADER_SIZE_def
  DEFAULT_QUEUE_CAP_def DEFAULT_QUEUE_PATH_def DEFAULT_SHARE_MEMORY_CAP_def

lemmas verify_simps = verify_def verify_protocol_def round_up_def u32_add_def

section \<open>What a verified configuration guarantees\<close>

definition protocol_ok :: "config \<Rightarrow> bool" where
  "protocol_ok c \<longleftrightarrow>
     (pc_mode (protocol c) = LegacyMode \<longrightarrow> pc_wakeup (protocol c) = DefaultWakeup) \<and>
     pc_wakeup (protocol c) \<noteq> EventQueuePolling 0 \<and>
     (pc_wakeup (protocol c) = EventFd \<or> (\<exists>f. pc_mode (protocol c) = V5 f) \<longrightarrow> cfg_mem_map_type c = MemMapTypeMemFd)"

text \<open>The type of verified configurations; a slice may exceed the pool by the rounding.\<close>

definition config_ok :: "config \<Rightarrow> bool" where
  "config_ok c \<longleftrightarrow> protocol_ok c \<and> 2 ^ 20 \<le> share_memory_buffer_cap c \<and>
     buffer_slice_sizes c \<noteq> [] \<and> (\<Sum>p\<leftarrow>buffer_slice_sizes c. sp_percent p) = 100 \<and>
     (\<forall>p \<in> set (buffer_slice_sizes c). sp_size p mod 4 = 0 \<and> sp_size p < share_memory_buffer_cap c + 4) \<and>
     cfg_queue_cap c mod 8 = 0 \<and> cfg_queue_cap c < 2 ^ 32 \<and>
     share_memory_path_prefix c \<noteq> [] \<and> queue_path c \<noteq> []"

lemma verify_protocol_ok: "verify_protocol c = None \<longleftrightarrow> protocol_ok c"
  by (cases "pc_mode (protocol c)"; cases "pc_wakeup (protocol c)"; cases "cfg_mem_map_type c")
    (auto simp: verify_protocol_def protocol_ok_def Let_def)

lemma round_up_spec:
  assumes "round_up k x = Some y" "0 < k"
  shows "y mod k = 0" "x \<le> y" "y < x + k" "y < 2 ^ 32" "x mod k = 0 \<longrightarrow> y = x"
proof -
  have y: "y = (x + (k - 1)) div k * k" "x + (k - 1) < 2 ^ 32"
    using assms(1) by (auto simp: round_up_def u32_add_def split: if_splits)
  have d: "(x + (k - 1)) div k * k + (x + (k - 1)) mod k = x + (k - 1)" "(x + (k - 1)) mod k < k"
    using assms(2) by simp_all
  show "y mod k = 0" using y(1) by simp
  show "x \<le> y" "y < x + k" using d y(1) assms(2) by linarith+
  show "y < 2 ^ 32" using d y by linarith
  show "x mod k = 0 \<longrightarrow> y = x"
  proof
    assume "x mod k = 0"
    then obtain q where "x = k * q" by (auto simp: mod_eq_0_iff_dvd)
    then have "(x + (k - 1)) div k = q" using assms(2) by (intro div_nat_eqI) auto
    then show "y = x" using y(1) \<open>x = k * q\<close> by simp
  qed
qed

lemma verify_pairs_spec:
  assumes "verify_pairs cap acc ps = Some (ps', Inr pct)"
  shows "length ps' = length ps" "pct = acc + (\<Sum>p\<leftarrow>ps. sp_percent p)" "map sp_percent ps' = map sp_percent ps"
    "\<forall>p \<in> set ps'. sp_size p mod 4 = 0 \<and> sp_size p < cap + 4"
    "list_all2 (\<lambda>p p'. sp_size p \<le> cap \<and> round_up 4 (sp_size p) = Some (sp_size p')) ps ps'"
proof -
  have "length ps' = length ps \<and> pct = acc + (\<Sum>p\<leftarrow>ps. sp_percent p) \<and> map sp_percent ps' = map sp_percent ps \<and>
    (\<forall>p \<in> set ps'. sp_size p mod 4 = 0 \<and> sp_size p < cap + 4) \<and>
    list_all2 (\<lambda>p p'. sp_size p \<le> cap \<and> round_up 4 (sp_size p) = Some (sp_size p')) ps ps'"
    using assms
  proof (induction cap acc ps arbitrary: ps' rule: verify_pairs.induct)
    case (2 cap acc p ps)
    obtain acc' al qs where a: "u32_add acc (sp_percent p) = Some acc'" "\<not> cap < sp_size p" "round_up 4 (sp_size p) = Some al"
      "verify_pairs cap acc' ps = Some (qs, Inr pct)" "ps' = p \<lparr> sp_size := al \<rparr> # qs"
      using "2.prems" by (auto split: bind_splits if_splits)
    have "acc' = acc + sp_percent p" using a(1) by (simp add: u32_add_def split: if_splits)
    moreover have "al mod 4 = 0" "al < cap + 4" using round_up_spec [OF a(3)] a(2) by auto
    ultimately show ?case using "2.IH" [OF a(1,2,3,4)] a by auto
  qed simp
  then show "length ps' = length ps" "pct = acc + (\<Sum>p\<leftarrow>ps. sp_percent p)" "map sp_percent ps' = map sp_percent ps"
    "\<forall>p \<in> set ps'. sp_size p mod 4 = 0 \<and> sp_size p < cap + 4"
    "list_all2 (\<lambda>p p'. sp_size p \<le> cap \<and> round_up 4 (sp_size p) = Some (sp_size p')) ps ps'" by auto
qed

lemma verify_Inr:
  assumes "verify linux arch c = Some (c', Inr ())"
  obtains ps q where "verify_protocol c = None" "\<not> share_memory_buffer_cap c < 2 ^ 20" "buffer_slice_sizes c \<noteq> []"
    "verify_pairs (share_memory_buffer_cap c) 0 (buffer_slice_sizes c) = Some (ps, Inr 100)"
    "round_up 8 (cfg_queue_cap c) = Some q" "share_memory_path_prefix c \<noteq> []" "queue_path c \<noteq> []"
    "linux" "arch" "c' = c \<lparr> buffer_slice_sizes := ps, cfg_queue_cap := q \<rparr>"
  using assms unfolding verify_def Let_def
  by (auto split: option.splits if_splits bind_splits sum.splits)

lemma verify_queue_cap:
  assumes "verify linux arch c = Some (c', Inr ())"
  shows "cfg_queue_cap c' mod 8 = 0" "cfg_queue_cap c' < 2 ^ 32"
  using verify_Inr [OF assms] round_up_spec [of 8 "cfg_queue_cap c"] by (metis config.select_convs(5) config.surjective config.update_convs(5) zero_less_numeral)+

lemma verify_pairs_again:
  assumes "\<forall>p \<in> set ps. sp_size p \<le> cap \<and> sp_size p mod 4 = 0" "acc + (\<Sum>p\<leftarrow>ps. sp_percent p) \<le> 100" "cap < 2 ^ 32"
  shows "verify_pairs cap acc ps = Some (ps, Inr (acc + (\<Sum>p\<leftarrow>ps. sp_percent p)))"
  using assms
proof (induction ps arbitrary: acc)
  case (Cons p ps)
  have "sp_size p \<le> cap" "sp_size p mod 4 = 0" using Cons.prems(1) by auto
  then have "sp_size p + 3 < 2 ^ 32" using Cons.prems(3) by (simp, presburger)
  then have "round_up 4 (sp_size p) = Some (sp_size p)"
    using \<open>sp_size p mod 4 = 0\<close> by (auto simp: round_up_def u32_add_def)
  moreover have "u32_add acc (sp_percent p) = Some (acc + sp_percent p)" using Cons.prems(2) by (simp add: u32_add_def)
  ultimately show ?case using Cons.IH [of "acc + sp_percent p"] Cons.prems by (simp add: add.assoc)
qed simp



definition ex_unaligned :: config where
  "ex_unaligned = config_default \<lparr> share_memory_buffer_cap := 2 ^ 20 + 1,
     buffer_slice_sizes := [\<lparr> sp_size = 2 ^ 20 + 1, sp_percent = 100 \<rparr>] \<rparr>"

text \<open>C36. The bound on a slice is checked before the size is rounded up: a configuration whose slice is as large as
  an unaligned pool is accepted, leaves with a slice larger than the pool, and is refused when verified
  again.\<close>

theorem verify_rounds_past_pool:
  "\<exists>c' e. verify True True ex_unaligned = Some (c', Inr ()) \<and>
    (\<exists>p \<in> set (buffer_slice_sizes c'). share_memory_buffer_cap c' < sp_size p) \<and>
    verify True True c' = Some (c', Inl e)"
proof -
  let ?c = "ex_unaligned \<lparr> buffer_slice_sizes := [\<lparr> sp_size = 2 ^ 20 + 4, sp_percent = 100 \<rparr>] \<rparr>"
  let ?e = "''buffer_slice_sizes's size couldn't greater than share_memory_buffer_cap''"
  have "verify True True ex_unaligned = Some (?c, Inr ())" by (simp add: verify_simps config_defaults ex_unaligned_def)
  moreover have "verify True True ?c = Some (?c, Inl ?e)" by (simp add: verify_simps config_defaults ex_unaligned_def)
  moreover have "\<exists>p \<in> set (buffer_slice_sizes ?c). share_memory_buffer_cap ?c < sp_size p" by (simp add: verify_simps config_defaults ex_unaligned_def)
  ultimately show ?thesis by blast
qed

end
