(* ===== verification/Wire.thy ===== *)
theory Wire
  imports Prelude Errors
begin

text \<open>
  The message headers of the control socket, \<open>src/protocol/header.rs\<close> and \<open>src/protocol/event.rs\<close>. A
  header is a pointer to its bytes, here the list of bytes from there on; reading or writing past
  its end is \<open>None\<close>. Multi-byte fields are big endian.
\<close>

section \<open>Constants\<close>

definition MAX_LEGACY_PROTO_VERSION :: byte where "MAX_LEGACY_PROTO_VERSION = 3"
definition MAX_SUPPORT_PROTO_VERSION :: byte where "MAX_SUPPORT_PROTO_VERSION = 5"
definition PROTO_VERSION :: byte where "PROTO_VERSION = 2"
definition MAGIC_NUMBER :: "16 word" where "MAGIC_NUMBER = 0x7758"
definition SIZE_OF_LENGTH :: nat where "SIZE_OF_LENGTH = 4"
definition SIZE_OF_MAGIC :: nat where "SIZE_OF_MAGIC = 2"
definition SIZE_OF_VERSION :: nat where "SIZE_OF_VERSION = 1"
definition SIZE_OF_TYPE :: nat where "SIZE_OF_TYPE = 1"

definition HEADER_SIZE :: nat where
  "HEADER_SIZE = SIZE_OF_LENGTH + SIZE_OF_MAGIC + SIZE_OF_VERSION + SIZE_OF_TYPE"

lemma HEADER_SIZE_eq [simp]: "HEADER_SIZE = 8"
  by (simp add: HEADER_SIZE_def SIZE_OF_LENGTH_def SIZE_OF_MAGIC_def SIZE_OF_VERSION_def SIZE_OF_TYPE_def)

section \<open>Event types\<close>

datatype event_type = EventType (inner: byte)

definition TYPE_SHARE_MEMORY_BY_FILE_PATH :: event_type where "TYPE_SHARE_MEMORY_BY_FILE_PATH = EventType 0"
definition TYPE_POLLING :: event_type where "TYPE_POLLING = EventType 1"
definition TYPE_STREAM_CLOSE :: event_type where "TYPE_STREAM_CLOSE = EventType 2"
definition TYPE_FALLBACK_DATA :: event_type where "TYPE_FALLBACK_DATA = EventType 3"
definition TYPE_EXCHANGE_PROTO_VERSION :: event_type where "TYPE_EXCHANGE_PROTO_VERSION = EventType 4"
definition TYPE_SHARE_MEMORY_BY_MEMFD :: event_type where "TYPE_SHARE_MEMORY_BY_MEMFD = EventType 5"
definition TYPE_ACK_SHARE_MEMORY :: event_type where "TYPE_ACK_SHARE_MEMORY = EventType 6"
definition TYPE_ACK_READY_RECV_FD :: event_type where "TYPE_ACK_READY_RECV_FD = EventType 7"
definition TYPE_HOT_RESTART :: event_type where "TYPE_HOT_RESTART = EventType 8"
definition TYPE_HOT_RESTART_ACK :: event_type where "TYPE_HOT_RESTART_ACK = EventType 9"
definition TYPE_NEGOTIATION :: event_type where "TYPE_NEGOTIATION = EventType 10"

lemmas event_types = TYPE_SHARE_MEMORY_BY_FILE_PATH_def TYPE_POLLING_def TYPE_STREAM_CLOSE_def TYPE_FALLBACK_DATA_def
  TYPE_EXCHANGE_PROTO_VERSION_def TYPE_SHARE_MEMORY_BY_MEMFD_def TYPE_ACK_SHARE_MEMORY_def TYPE_ACK_READY_RECV_FD_def
  TYPE_HOT_RESTART_def TYPE_HOT_RESTART_ACK_def TYPE_NEGOTIATION_def

text \<open>The derived order compares the byte.\<close>

instantiation event_type :: linorder
begin

definition less_eq_event_type :: "event_type \<Rightarrow> event_type \<Rightarrow> bool" where
  "less_eq_event_type a b \<longleftrightarrow> inner a \<le> inner b"

definition less_event_type :: "event_type \<Rightarrow> event_type \<Rightarrow> bool" where
  "less_event_type a b \<longleftrightarrow> inner a < inner b"

instance
  by standard (auto simp: less_eq_event_type_def less_event_type_def event_type.expand)

end

definition MIN_EVENT_TYPE :: event_type where "MIN_EVENT_TYPE = TYPE_SHARE_MEMORY_BY_FILE_PATH"
definition MAX_EVENT_TYPE :: event_type where "MAX_EVENT_TYPE = TYPE_NEGOTIATION"

definition event_type_from :: "byte \<Rightarrow> event_type" where
  "event_type_from v =
     (if v = 0 then TYPE_SHARE_MEMORY_BY_FILE_PATH
      else if v = 1 then TYPE_POLLING
      else if v = 2 then TYPE_STREAM_CLOSE
      else if v = 3 then TYPE_FALLBACK_DATA
      else if v = 4 then TYPE_EXCHANGE_PROTO_VERSION
      else if v = 5 then TYPE_SHARE_MEMORY_BY_MEMFD
      else if v = 6 then TYPE_ACK_SHARE_MEMORY
      else if v = 7 then TYPE_ACK_READY_RECV_FD
      else if v = 8 then TYPE_HOT_RESTART
      else if v = 9 then TYPE_HOT_RESTART_ACK
      else if v = 10 then TYPE_NEGOTIATION
      else EventType v)"

lemma event_type_from_eq [simp]: "event_type_from v = EventType v"
  by (simp add: event_type_from_def event_types)

section \<open>Big-endian fields\<close>

definition be_bytes :: "nat \<Rightarrow> nat \<Rightarrow> byte list" where
  "be_bytes k v = rev (le_bytes k v)"

definition be_nat :: "byte list \<Rightarrow> nat" where
  "be_nat bs = le_nat (rev bs)"

lemma length_be_bytes [simp]: "length (be_bytes k v) = k"
  by (simp add: be_bytes_def)

lemma be_nat_be_bytes [simp]: "be_nat (be_bytes k v) = v mod 256 ^ k"
  by (simp add: be_nat_def be_bytes_def)

text \<open>The \<open>k\<close> bytes at an offset of a pointer, and their replacement.\<close>

definition field_at :: "nat \<Rightarrow> nat \<Rightarrow> byte list \<Rightarrow> byte list option" where
  "field_at off k bs = (if off + k \<le> length bs then Some (take k (drop off bs)) else None)"

definition put_at :: "nat \<Rightarrow> byte list \<Rightarrow> byte list \<Rightarrow> byte list option" where
  "put_at off vs bs = (if off + length vs \<le> length bs
     then Some (take off bs @ vs @ drop (off + length vs) bs) else None)"

section \<open>Headers\<close>

definition hdr_length :: "byte list \<Rightarrow> 32 word option" where
  "hdr_length h = do { bs \<leftarrow> field_at 0 4 h; Some (of_nat (be_nat bs)) }"

definition hdr_magic :: "byte list \<Rightarrow> 16 word option" where
  "hdr_magic h = do { bs \<leftarrow> field_at 4 2 h; Some (of_nat (be_nat bs)) }"

definition hdr_version :: "byte list \<Rightarrow> byte option" where
  "hdr_version h = do { bs \<leftarrow> field_at 6 1 h; Some (hd bs) }"

definition hdr_msg_type :: "byte list \<Rightarrow> event_type option" where
  "hdr_msg_type h = do { bs \<leftarrow> field_at 7 1 h; Some (event_type_from (hd bs)) }"

definition hdr_encode :: "byte list \<Rightarrow> 32 word \<Rightarrow> byte \<Rightarrow> event_type \<Rightarrow> byte list option" where
  "hdr_encode h len version msg_type = do {
     h \<leftarrow> put_at 0 (be_bytes 4 (unat len)) h;
     h \<leftarrow> put_at 4 (be_bytes 2 (unat MAGIC_NUMBER)) h;
     h \<leftarrow> put_at 6 [version] h;
     put_at 7 [inner msg_type] h
   }"

definition hdr_as_slice :: "byte list \<Rightarrow> byte list option" where
  "hdr_as_slice h = field_at 0 HEADER_SIZE h"

text \<open>The polling events, one for each protocol version.\<close>

definition POLLING_EVENT_WITH_VERSION :: "byte list option list" where
  "POLLING_EVENT_WITH_VERSION =
     map (\<lambda>i. hdr_encode (replicate HEADER_SIZE 0) (of_nat HEADER_SIZE) (of_nat i) TYPE_POLLING)
       [0..<unat (MAX_SUPPORT_PROTO_VERSION + 1)]"

definition fallback_encode :: "byte list \<Rightarrow> 32 word \<Rightarrow> byte \<Rightarrow> 32 word \<Rightarrow> 32 word \<Rightarrow> byte list option" where
  "fallback_encode h len version seq_id status = do {
     h \<leftarrow> put_at 0 (be_bytes 4 (unat len)) h;
     h \<leftarrow> put_at 4 (be_bytes 2 (unat MAGIC_NUMBER)) h;
     h \<leftarrow> put_at 6 [version] h;
     h \<leftarrow> put_at 7 [inner TYPE_FALLBACK_DATA] h;
     h \<leftarrow> put_at 8 (be_bytes 4 (unat seq_id)) h;
     put_at 12 (be_bytes 4 (unat status)) h
   }"

definition fallback_as_slice :: "byte list \<Rightarrow> byte list option" where
  "fallback_as_slice h = field_at 0 (HEADER_SIZE + 8) h"

definition check_event_valid :: "byte list \<Rightarrow> (ipc_error + unit) option" where
  "check_event_valid h = do {
     magic \<leftarrow> hdr_magic h;
     version \<leftarrow> hdr_version h;
     if magic \<noteq> MAGIC_NUMBER \<or> version > MAX_SUPPORT_PROTO_VERSION then Some (Inl InvalidVersion)
     else do {
       mt \<leftarrow> hdr_msg_type h;
       if mt < MIN_EVENT_TYPE \<or> mt > MAX_EVENT_TYPE then Some (Inl InvalidMsgType)
       else Some (Inr ())
     }
   }"

section \<open>Lemmas\<close>

lemma be_bytes_word: "of_nat (be_nat (be_bytes 4 (unat (w :: 32 word)))) = w"
  "of_nat (be_nat (be_bytes 2 (unat (m :: 16 word)))) = m"
proof -
  have "unat w < 2 ^ 32" "unat m < 2 ^ 16" using unsigned_less [of w, where 'a = nat] unsigned_less [of m, where 'a = nat] by simp_all
  then show "of_nat (be_nat (be_bytes 4 (unat w))) = w" "of_nat (be_nat (be_bytes 2 (unat m))) = m" by simp_all
qed

text \<open>An encoded header is its four fields followed by the rest of the buffer.\<close>

lemma hdr_encode_eq:
  assumes "8 \<le> length h"
  shows "hdr_encode h len version mt =
    Some (be_bytes 4 (unat len) @ be_bytes 2 (unat MAGIC_NUMBER) @ [version, inner mt] @ drop 8 h)"
  using assms by (simp add: hdr_encode_def put_at_def, linarith)

lemma fallback_encode_eq:
  assumes "16 \<le> length h"
  shows "fallback_encode h len version seq_id status =
    Some (be_bytes 4 (unat len) @ be_bytes 2 (unat MAGIC_NUMBER) @ [version, inner TYPE_FALLBACK_DATA] @
      be_bytes 4 (unat seq_id) @ be_bytes 4 (unat status) @ drop 16 h)"
  using assms by (simp add: fallback_encode_def put_at_def, linarith)

lemma hdr_fields:
  assumes "h = be_bytes 4 (unat len) @ be_bytes 2 (unat magic) @ [version, ty] @ rest"
  shows "hdr_length h = Some len" "hdr_magic h = Some magic" "hdr_version h = Some version"
    "hdr_msg_type h = Some (EventType ty)"
  using be_bytes_word(1) [of len] be_bytes_word(2) [of magic]
  by (simp_all add: assms hdr_length_def hdr_magic_def hdr_version_def hdr_msg_type_def field_at_def)

lemma check_event_valid_fields:
  assumes "hdr_magic h = Some magic" "hdr_version h = Some version" "hdr_msg_type h = Some ty"
  shows "check_event_valid h = Some
    (if magic \<noteq> MAGIC_NUMBER \<or> version > 5 then Inl InvalidVersion
     else if inner ty > 10 then Inl InvalidMsgType else Inr ())"
  using assms by (simp add: check_event_valid_def MAX_SUPPORT_PROTO_VERSION_def MIN_EVENT_TYPE_def MAX_EVENT_TYPE_def
    event_types less_event_type_def)

text \<open>C9. Headers survive the wire: encoding into a buffer of at least eight bytes and reading the fields back gives
  the length, magic, version and type that were written, leaves the bytes behind the header alone, and
  the receiver's check accepts exactly the supported versions and known event types, refusing a foreign
  version before an unknown type.\<close>

theorem header_roundtrip:
  assumes "8 \<le> length h"
  shows "\<exists>h'. hdr_encode h len version mt = Some h' \<and> length h' = length h \<and> drop 8 h' = drop 8 h \<and>
    hdr_length h' = Some len \<and> hdr_magic h' = Some MAGIC_NUMBER \<and> hdr_version h' = Some version \<and>
    hdr_msg_type h' = Some mt \<and>
    check_event_valid h' = Some (if version > 5 then Inl InvalidVersion
      else if inner mt > 10 then Inl InvalidMsgType else Inr ())"
proof -
  let ?h = "be_bytes 4 (unat len) @ be_bytes 2 (unat MAGIC_NUMBER) @ [version, inner mt] @ drop 8 h"
  note f = hdr_fields [OF refl, of len MAGIC_NUMBER version "inner mt" "drop 8 h"]
  have "check_event_valid ?h = Some (if version > 5 then Inl InvalidVersion else if inner mt > 10 then Inl InvalidMsgType else Inr ())"
    using check_event_valid_fields [OF f(2-4)] by simp
  moreover have "length ?h = length h" "drop 8 ?h = drop 8 h" using assms by simp_all
  ultimately show ?thesis using hdr_encode_eq [OF assms] f by auto
qed

theorem header_roundtrip_witness:
  "\<exists>h'. hdr_encode (replicate 8 0) 20 4 TYPE_STREAM_CLOSE = Some h' \<and> hdr_length h' = Some 20 \<and>
    check_event_valid h' = Some (Inr ())"
  using header_roundtrip [of "replicate 8 0" 20 4 TYPE_STREAM_CLOSE] by (auto simp: event_types)

lemma polling_events:
  "length POLLING_EVENT_WITH_VERSION = 6"
  "i < 6 \<Longrightarrow> \<exists>h. POLLING_EVENT_WITH_VERSION ! i = Some h \<and> length h = 8 \<and> hdr_length h = Some 8 \<and>
    hdr_version h = Some (of_nat i) \<and> hdr_msg_type h = Some TYPE_POLLING"
proof -
  show "length POLLING_EVENT_WITH_VERSION = 6"
    by (simp add: POLLING_EVENT_WITH_VERSION_def MAX_SUPPORT_PROTO_VERSION_def)
  assume "i < 6"
  then have "POLLING_EVENT_WITH_VERSION ! i = hdr_encode (replicate HEADER_SIZE 0) (of_nat HEADER_SIZE) (of_nat i) TYPE_POLLING"
    by (simp add: POLLING_EVENT_WITH_VERSION_def MAX_SUPPORT_PROTO_VERSION_def nth_map [where f = "\<lambda>i. _ i"])
  then show "\<exists>h. POLLING_EVENT_WITH_VERSION ! i = Some h \<and> length h = 8 \<and> hdr_length h = Some 8 \<and>
    hdr_version h = Some (of_nat i) \<and> hdr_msg_type h = Some TYPE_POLLING"
    using hdr_encode_eq [of "replicate 8 0" 8 "of_nat i" TYPE_POLLING]
      hdr_fields [OF refl, of 8 MAGIC_NUMBER "of_nat i" "inner TYPE_POLLING" "[]"] by simp
qed

end
