(* ===== verification/Buffer_List.thy ===== *)
theory Buffer_List
  imports Buffer_Slice
begin

text \<open>
  The free lists of equally sized buffers in shared memory, \<open>src/buffer/list.rs\<close>. A \<open>BufferList\<close> is the
  record of the offsets its pointers have in the mapping. The operations run without interference
  here: a compare-exchange sees the value just loaded. The retry loop of \<open>pop\<close> keeps its bound of 200.
\<close>

section \<open>Operations\<close>

definition BUFFER_LIST_HEADER_SIZE :: nat where "BUFFER_LIST_HEADER_SIZE = 36"

record buffer_list =
  bl_size :: nat
  bl_cap :: nat
  bl_head :: nat
  bl_tail :: nat
  bl_cap_per_buffer :: nat
  bl_counter :: nat
  bl_region :: nat
  bl_region_len :: nat
  bl_region_offset_in_shm :: nat
  bl_offset_in_shm :: nat

definition count_buffer_list_mem_size :: "nat \<Rightarrow> nat \<Rightarrow> nat option" where
  "count_buffer_list_mem_size buffer_num cap_per_buffer = do {
     one \<leftarrow> u32_add cap_per_buffer BUFFER_HEADER_SIZE;
     all_bufs \<leftarrow> u32_mul buffer_num one;
     u32_add BUFFER_LIST_HEADER_SIZE all_bufs
   }"

text \<open>The handle for a list of the given total size at an offset.\<close>

definition list_handle :: "nat \<Rightarrow> nat \<Rightarrow> nat \<Rightarrow> buffer_list" where
  "list_handle offset counter need =
     \<lparr> bl_size = offset, bl_cap = offset + 4, bl_head = offset + 8, bl_tail = offset + 12,
       bl_cap_per_buffer = offset + 16, bl_counter = offset + counter,
       bl_region = offset + BUFFER_LIST_HEADER_SIZE, bl_region_len = need - BUFFER_LIST_HEADER_SIZE,
       bl_region_offset_in_shm = offset + BUFFER_LIST_HEADER_SIZE, bl_offset_in_shm = offset \<rparr>"

text \<open>The loop that writes the headers: \<open>k\<close> buffers are left, the next one starts at \<open>current\<close>.\<close>

fun init_buffers :: "nat \<Rightarrow> nat \<Rightarrow> nat \<Rightarrow> nat \<Rightarrow> arena \<Rightarrow> arena option" where
  "init_buffers region cap_per_buffer 0 current ar = Some ar"
| "init_buffers region cap_per_buffer (Suc k) current ar = do {
     n1 \<leftarrow> u32_add current cap_per_buffer;
     nx \<leftarrow> u32_add n1 BUFFER_HEADER_SIZE;
     ar \<leftarrow> set_u32 ar (region + current) cap_per_buffer;
     ar \<leftarrow> set_u32 ar (region + current + BUFFER_SIZE_OFFSET) 0;
     ar \<leftarrow> set_u32 ar (region + current + BUFFER_DATA_START_OFFSET) 0;
     ar \<leftarrow> (if k > 0 then do {
          ar \<leftarrow> set_u32 ar (region + current + NEXT_BUFFER_OFFSET) nx;
          ar \<leftarrow> set_u32 ar (region + current + BUFFER_FLAG_OFFSET) 0;
          f \<leftarrow> get_u8 ar (region + current + BUFFER_FLAG_OFFSET);
          set_u8 ar (region + current + BUFFER_FLAG_OFFSET) (f OR HAS_NEXT_BUFFER_FLAG)
        } else Some ar);
     init_buffers region cap_per_buffer k nx ar
   }"

definition list_create :: "nat \<Rightarrow> nat \<Rightarrow> arena \<Rightarrow> nat \<Rightarrow> (string + buffer_list \<times> arena) option" where
  "list_create buffer_num cap_per_buffer ar offset =
     (if buffer_num = 0 \<or> cap_per_buffer = 0 then Some (Inl ''buffer_num and cap_per_buffer could not be 0'')
      else do {
        at_least \<leftarrow> count_buffer_list_mem_size buffer_num cap_per_buffer;
        let mem_len = alen ar mod 2 ^ 32;
        last_byte \<leftarrow> u32_add offset at_least;
        if mem_len < last_byte \<or> offset > mem_len \<or> at_least > mem_len then Some (Inl ''mem's size is too small'')
        else do {
          start \<leftarrow> u32_add offset BUFFER_LIST_HEADER_SIZE;
          if last_byte \<le> start then Some (Inl ''slice bounds out of range'')
          else do {
            let b = list_handle offset 20 at_least;
            ar \<leftarrow> set_u32 ar (bl_size b) buffer_num;
            ar \<leftarrow> set_u32 ar (bl_cap b) buffer_num;
            ar \<leftarrow> set_u32 ar (bl_head b) 0;
            one \<leftarrow> u32_add cap_per_buffer BUFFER_HEADER_SIZE;
            tail \<leftarrow> u32_mul (buffer_num - 1) one;
            ar \<leftarrow> set_u32 ar (bl_tail b) tail;
            ar \<leftarrow> set_u32 ar (bl_cap_per_buffer b) cap_per_buffer;
            ar \<leftarrow> set_u32 ar (bl_counter b) 0;
            ar \<leftarrow> init_buffers (bl_region b) cap_per_buffer buffer_num 0 ar;
            t \<leftarrow> get_u32 ar (bl_tail b);
            ar \<leftarrow> set_u32 ar (bl_region b + t + BUFFER_FLAG_OFFSET) 0;
            Some (Inr (b, ar))
          }
        }
      })"

definition list_mapping :: "arena \<Rightarrow> nat \<Rightarrow> (string + buffer_list) option" where
  "list_mapping ar offset = do {
     hdr \<leftarrow> u32_add offset BUFFER_LIST_HEADER_SIZE;
     if alen ar < hdr then Some (Inl ''mapping buffer list failed'')
     else do {
       cap \<leftarrow> get_u32 ar (offset + 4);
       per \<leftarrow> get_u32 ar (offset + 16);
       need \<leftarrow> count_buffer_list_mem_size cap per;
       last_byte \<leftarrow> u32_add offset need;
       if last_byte > alen ar mod 2 ^ 32 \<or> last_byte < hdr then Some (Inl ''mapping buffer list failed'')
       else Some (Inr (list_handle offset 24 need))
     }
   }"

definition list_push :: "buffer_list \<Rightarrow> arena \<Rightarrow> buffer_slice \<Rightarrow> arena option" where
  "list_push b ar s = do {
     (ar, s) \<leftarrow> reset_for_recycle ar s;
     old_tail \<leftarrow> get_u32 ar (bl_tail b);
     new_tail \<leftarrow> checked_sub (bs_offset_in_shm s) (bl_region_offset_in_shm b);
     ar \<leftarrow> set_u32 ar (bl_tail b) new_tail;
     ar \<leftarrow> bh_link_next ar (bl_region b + old_tail) new_tail;
     (ar, _) \<leftarrow> fetch_add ar (bl_size b) 1;
     (ar, _) \<leftarrow> fetch_add ar (bl_counter b) (- 1);
     Some ar
   }"

fun pop_loop :: "buffer_list \<Rightarrow> arena \<Rightarrow> nat \<Rightarrow> nat \<Rightarrow> (arena \<times> (ipc_error + buffer_slice)) option" where
  "pop_loop b ar 0 old_head = do {
     (ar, _) \<leftarrow> fetch_add ar (bl_size b) 1;
     Some (ar, Inl NoMoreBuffer)
   }"
| "pop_loop b ar (Suc fuel) old_head = do {
     let h = bl_region b + old_head;
     more \<leftarrow> bh_has_next ar h;
     if more then do {
       nx \<leftarrow> next_buffer_offset ar h;
       head \<leftarrow> get_u32 ar (bl_head b);
       if head = old_head then do {
         ar \<leftarrow> set_u32 ar (bl_head b) nx;
         ar \<leftarrow> bh_clear_flag ar h;
         ar \<leftarrow> bh_set_in_used ar h;
         (ar, _) \<leftarrow> fetch_add ar (bl_counter b) 1;
         per \<leftarrow> get_u32 ar (bl_cap_per_buffer b);
         s \<leftarrow> slice_new ar (Some h) (InShm (h + BUFFER_HEADER_SIZE)) per (old_head + bl_region_offset_in_shm b) True;
         Some (ar, Inr s)
       }
       else pop_loop b ar fuel head
     }
     else do {
       n \<leftarrow> load_u32 ar (bl_size b);
       if sint n \<le> 1 then do {
         (ar, _) \<leftarrow> fetch_add ar (bl_size b) 1;
         Some (ar, Inl NoMoreBuffer)
       }
       else do {
         head \<leftarrow> get_u32 ar (bl_head b);
         pop_loop b ar fuel head
       }
     }
   }"

definition list_pop :: "buffer_list \<Rightarrow> arena \<Rightarrow> (arena \<times> (ipc_error + buffer_slice)) option" where
  "list_pop b ar = do {
     old_head \<leftarrow> get_u32 ar (bl_head b);
     (ar, remain) \<leftarrow> fetch_add ar (bl_size b) (- 1);
     short \<leftarrow> (if sint remain \<le> 1 then Some True
        else do {
          e1 \<leftarrow> u32_add old_head BUFFER_HEADER_SIZE;
          per \<leftarrow> get_u32 ar (bl_cap_per_buffer b);
          e2 \<leftarrow> u32_add e1 per;
          Some (e2 > bl_region_len b)
        });
     if short then do {
       (ar, _) \<leftarrow> fetch_add ar (bl_size b) 1;
       Some (ar, Inl NoMoreBuffer)
     }
     else pop_loop b ar 200 old_head
   }"

definition list_remain :: "buffer_list \<Rightarrow> arena \<Rightarrow> int option" where
  "list_remain b ar = do { n \<leftarrow> load_u32 ar (bl_size b); Some (sint n - 1) }"

section \<open>Addresses\<close>

text \<open>The offset of the header of the \<open>k\<close>-th buffer of the list at \<open>off\<close>, for payloads of \<open>c\<close> bytes.\<close>

definition lbuf :: "nat \<Rightarrow> nat \<Rightarrow> nat \<Rightarrow> nat" where
  "lbuf off c k = off + 36 + k * (c + 20)"

lemma lbuf_cell_eq [simp]:
  assumes "d < 20" "e < 20"
  shows "lbuf off c k + d = lbuf off c j + e \<longleftrightarrow> k = j \<and> d = e"
proof -
  have "\<not> lbuf off c k + d = lbuf off c j + e" if "k < j" "d < 20" for k j d e
  proof -
    have "(k + 1) * (c + 20) \<le> j * (c + 20)" using that(1) by (intro mult_le_mono1) simp
    then show ?thesis using that(2) by (simp add: lbuf_def)
  qed
  from this [of k j d e] this [of j k e d] show ?thesis using assms by (cases k j rule: linorder_cases) auto
qed

lemma lbuf_eq_iff [simp]:
  "d < 20 \<Longrightarrow> lbuf off c k + d = lbuf off c j \<longleftrightarrow> k = j \<and> d = 0"
  "d < 20 \<Longrightarrow> lbuf off c j = lbuf off c k + d \<longleftrightarrow> k = j \<and> d = 0"
  "lbuf off c j = lbuf off c k \<longleftrightarrow> j = k"
  using lbuf_cell_eq [of d 0 off c k j] lbuf_cell_eq [of 0 0 off c j k] by auto

lemma list_cell_ne_lbuf [simp]:
  "d < 36 \<Longrightarrow> off + d \<noteq> lbuf off c k + e" "d < 36 \<Longrightarrow> off + d \<noteq> lbuf off c k"
  "off \<noteq> lbuf off c k + e" "off \<noteq> lbuf off c k"
  "d < 36 \<Longrightarrow> lbuf off c k + e \<noteq> off + d" "d < 36 \<Longrightarrow> lbuf off c k \<noteq> off + d"
  "lbuf off c k + e \<noteq> off" "lbuf off c k \<noteq> off"
  by (simp_all add: lbuf_def)

lemma lbuf_byte_order:
  assumes "k \<noteq> j" "d < 20" "e + 4 \<le> 20"
  shows "lbuf off c k + d < lbuf off c j + e \<or> lbuf off c j + e + 4 \<le> lbuf off c k + d"
proof -
  have "(k + 1) * (c + 20) \<le> j * (c + 20) \<or> (j + 1) * (c + 20) \<le> k * (c + 20)"
    using mult_le_mono1 [of "k + 1" j "c + 20"] mult_le_mono1 [of "j + 1" k "c + 20"] assms(1) by linarith
  then show ?thesis using assms by (auto simp: lbuf_def)
qed

lemma lbuf_aligned: "off mod 4 = 0 \<Longrightarrow> c mod 4 = 0 \<Longrightarrow> lbuf off c k mod 4 = 0"
proof -
  assume "off mod 4 = 0" "c mod 4 = 0"
  then have "4 dvd off + 36 + k * (c + 20)" by (intro dvd_add dvd_mult) auto
  then show ?thesis by (simp add: lbuf_def)
qed

lemma lbuf_end: "k < n \<Longrightarrow> lbuf off c k + c + 20 \<le> off + 36 + n * (c + 20)"
proof -
  assume "k < n"
  then have "(k + 1) * (c + 20) \<le> n * (c + 20)" by (intro mult_le_mono1) simp
  then show ?thesis by (simp add: lbuf_def)
qed

lemma lbuf_Suc: "lbuf off c (Suc k) = lbuf off c k + c + 20"
  by (simp add: lbuf_def)

lemma lbuf_rel: "off + 36 + k * (c + 20) = lbuf off c k"
  by (simp add: lbuf_def)

lemma flag_or_next: "(f OR 1) AND 1 > (0 :: byte)"
proof -
  have "(f OR 1) AND 1 = (1 :: byte)" by (rule bit_word_eqI) (auto simp: bit_simps)
  then show ?thesis by simp
qed

lemmas bh_defs = bh_cap_def bh_size_def bh_start_def bh_has_next_def bh_flag_def next_buffer_offset_def bh_layout

section \<open>The free list\<close>

text \<open>
  The list at \<open>off\<close> has \<open>n\<close> buffers of \<open>c\<close> bytes, and \<open>ks\<close> are the indices of the free ones from head to
  tail: the header fields describe them, each is linked to the next, and a free buffer has no data.
\<close>

definition bl_geometry :: "nat \<Rightarrow> nat \<Rightarrow> nat \<Rightarrow> arena \<Rightarrow> bool" where
  "bl_geometry off n c ar \<longleftrightarrow> off mod 4 = 0 \<and> c mod 4 = 0 \<and> 0 < c \<and>
     off + 36 + n * (c + 20) \<le> alen ar \<and> off + 36 + n * (c + 20) < 2 ^ 32"

definition bl_fields :: "nat \<Rightarrow> nat \<Rightarrow> nat \<Rightarrow> arena \<Rightarrow> nat list \<Rightarrow> bool" where
  "bl_fields off n c ar ks \<longleftrightarrow> load_u32 ar off = Some (of_nat (length ks)) \<and> get_u32 ar (off + 4) = Some n \<and>
     get_u32 ar (off + 8) = Some (hd ks * (c + 20)) \<and> get_u32 ar (off + 12) = Some (last ks * (c + 20)) \<and>
     get_u32 ar (off + 16) = Some c"

definition bl_linked :: "nat \<Rightarrow> nat \<Rightarrow> arena \<Rightarrow> nat list \<Rightarrow> bool" where
  "bl_linked off c ar ks \<longleftrightarrow> (\<forall>i. Suc i < length ks \<longrightarrow> bh_has_next ar (lbuf off c (ks ! i)) = Some True \<and>
     next_buffer_offset ar (lbuf off c (ks ! i)) = Some (ks ! Suc i * (c + 20)))"

definition bl_at :: "nat \<Rightarrow> nat \<Rightarrow> nat \<Rightarrow> arena \<Rightarrow> nat list \<Rightarrow> bool" where
  "bl_at off n c ar ks \<longleftrightarrow> bl_geometry off n c ar \<and> ks \<noteq> [] \<and> distinct ks \<and> (\<forall>k \<in> set ks. k < n) \<and>
     bl_fields off n c ar ks \<and> (\<forall>k < n. bh_cap ar (lbuf off c k) = Some c) \<and>
     (\<forall>k \<in> set ks. bh_size ar (lbuf off c k) = Some 0 \<and> bh_start ar (lbuf off c k) = Some 0) \<and>
     bl_linked off c ar ks"

definition bl_need :: "nat \<Rightarrow> nat \<Rightarrow> nat" where
  "bl_need n c = 36 + n * (c + 20)"

text \<open>The bytes the state of the list depends on.\<close>

definition bl_key :: "nat \<Rightarrow> nat \<Rightarrow> nat \<Rightarrow> nat set \<Rightarrow> nat set" where
  "bl_key off n c K = {off..<off + 20} \<union> (\<Union>k \<in> {..<n}. {lbuf off c k..<lbuf off c k + 4}) \<union>
     (\<Union>k \<in> K. {lbuf off c k..<lbuf off c k + 20})"

lemma bl_at_frame:
  assumes "bl_at off n c ar ks" "same_outside S ar ar'" "bl_key off n c (set ks) \<inter> S = {}"
  shows "bl_at off n c ar' ks"
proof -
  have h: "{off + d..<off + d + 4} \<inter> S = {}" if "d + 4 \<le> 20" for d
    using assms(3) that by (auto simp: bl_key_def disjoint_iff)
  have cp: "{lbuf off c k..<lbuf off c k + 4} \<inter> S = {}" if "k < n" for k
    using assms(3) that by (auto simp: bl_key_def disjoint_iff)
  have hdr: "{lbuf off c k..<lbuf off c k + 20} \<inter> S = {}" if "k \<in> set ks" for k
    using assms(3) that unfolding bl_key_def by blast
  have fr: "{lbuf off c k + d..<lbuf off c k + d + 4} \<inter> S = {}" "lbuf off c k + 16 \<notin> S" if "k \<in> set ks" "d + 4 \<le> 20" for k d
    using hdr [OF that(1)] that(2) by (auto simp: disjoint_iff)
  have "bl_fields off n c ar' ks"
    using assms(1) load_u32_frame [OF assms(2) h [of 0, simplified]] get_u32_frame [OF assms(2) h]
    by (simp add: bl_at_def bl_fields_def)
  moreover have "\<forall>k < n. bh_cap ar' (lbuf off c k) = Some c"
    using assms(1) get_u32_frame [OF assms(2) cp] by (simp add: bl_at_def bh_defs)
  moreover have "\<forall>k \<in> set ks. bh_size ar' (lbuf off c k) = Some 0 \<and> bh_start ar' (lbuf off c k) = Some 0"
    using assms(1) get_u32_frame [OF assms(2) fr(1)] by (simp add: bl_at_def bh_defs)
  moreover have "bl_linked off c ar' ks"
    using assms(1) get_u32_frame [OF assms(2) fr(1)] get_u8_frame [OF assms(2) fr(2) [of _ 0]]
    by (simp add: bl_at_def bl_linked_def bh_defs)
  ultimately show ?thesis using assms(1) same_outside_alen [OF assms(2)] by (simp add: bl_at_def bl_geometry_def)
qed

lemma fetch_add_step:
  assumes "load_u32 ar p = Some v"
  obtains ar' where "fetch_add ar p w = Some (ar', v)" "store_u32 ar p (v + w) = Some ar'"
proof -
  have "p mod 4 = 0" "p + 4 \<le> alen ar" using assms by (auto simp: load_u32_def arena_get_def split: if_splits)
  then obtain ar' where "store_u32 ar p (v + w) = Some ar'" using store_u32_total [of p ar "v + w"] by auto
  then show thesis using that assms by (simp add: fetch_add_def)
qed

lemma bl_atD:
  assumes "bl_at off n c ar ks"
  shows "off mod 4 = 0" "c mod 4 = 0" "0 < c" "off + 36 + n * (c + 20) \<le> alen ar" "off + 36 + n * (c + 20) < 2 ^ 32"
    "ks \<noteq> []" "distinct ks" "\<forall>k \<in> set ks. k < n"
    "load_u32 ar off = Some (of_nat (length ks))" "get_u32 ar (off + 4) = Some n"
    "get_u32 ar (off + 8) = Some (hd ks * (c + 20))" "get_u32 ar (off + 12) = Some (last ks * (c + 20))"
    "get_u32 ar (off + 16) = Some c" "\<forall>k < n. bh_cap ar (lbuf off c k) = Some c"
    "\<forall>k \<in> set ks. bh_size ar (lbuf off c k) = Some 0 \<and> bh_start ar (lbuf off c k) = Some 0"
    "bl_linked off c ar ks"
  using assms by (simp_all add: bl_at_def bl_geometry_def bl_fields_def)

lemma bl_length: "bl_at off n c ar ks \<Longrightarrow> length ks \<le> n" "bl_at off n c ar ks \<Longrightarrow> n < 2 ^ 28"
proof -
  assume at: "bl_at off n c ar ks"
  have "set ks \<subseteq> {..<n}" using bl_atD(8) [OF at] by auto
  then have "card (set ks) \<le> n" using card_mono [of "{..<n}"] by fastforce
  then show "length ks \<le> n" using distinct_card [OF bl_atD(7) [OF at]] by simp
  have "n * 20 \<le> n * (c + 20)" by simp
  then have "n * 20 < 2 ^ 32" using bl_atD(5) [OF at] by linarith
  then show "n < 2 ^ 28" by simp
qed

lemma sint_small: "m < 2 ^ 28 \<Longrightarrow> sint (of_nat m :: 32 word) = int m"
  by (simp add: signed_of_nat signed_take_bit_int_eq_self)

definition slice_of :: "nat \<Rightarrow> nat \<Rightarrow> nat \<Rightarrow> buffer_slice" where
  "slice_of off c k = \<lparr> bs_header = Some (lbuf off c k), bs_data = InShm (lbuf off c k + 20), bs_cap = c, bs_start = 0,
     bs_offset_in_shm = lbuf off c k, bs_read_index = 0, bs_write_index = 0, bs_is_from_shm = True \<rparr>"

abbreviation bl_hdl :: "nat \<Rightarrow> nat \<Rightarrow> nat \<Rightarrow> nat \<Rightarrow> buffer_list" where
  "bl_hdl off n c cnt \<equiv> list_handle off cnt (bl_need n c)"

lemma list_handle_sel [simp]:
  "bl_size (list_handle off cnt need) = off" "bl_cap (list_handle off cnt need) = off + 4"
  "bl_head (list_handle off cnt need) = off + 8" "bl_tail (list_handle off cnt need) = off + 12"
  "bl_cap_per_buffer (list_handle off cnt need) = off + 16" "bl_counter (list_handle off cnt need) = off + cnt"
  "bl_region (list_handle off cnt need) = off + 36" "bl_region_len (list_handle off cnt need) = need - 36"
  "bl_region_offset_in_shm (list_handle off cnt need) = off + 36" "bl_offset_in_shm (list_handle off cnt need) = off"
  by (simp_all add: list_handle_def BUFFER_LIST_HEADER_SIZE_def)

lemma list_pop_last:
  assumes "bl_at off n c ar [k]"
  shows "\<exists>ar'. list_pop (bl_hdl off n c cnt) ar = Some (ar', Inl NoMoreBuffer) \<and> bl_at off n c ar' [k] \<and>
    same_outside {off..<off + 4} ar ar'"
proof -
  note q = bl_atD [OF assms]
  obtain ar1 where 1: "fetch_add ar off (- 1) = Some (ar1, of_nat (length [k]))" "store_u32 ar off (of_nat (length [k]) + - 1) = Some ar1"
    using fetch_add_step [OF q(9)] by blast
  have "load_u32 ar1 off = Some 0" using load_store_u32 [OF 1(2), of off] by simp
  then obtain ar2 where 2: "fetch_add ar1 off 1 = Some (ar2, 0)" "store_u32 ar1 off (0 + 1) = Some ar2" using fetch_add_step by blast
  have "list_pop (bl_hdl off n c cnt) ar = Some (ar2, Inl NoMoreBuffer)"
    using q(11) 1(1) 2(1) by (simp add: list_pop_def)
  moreover have fr: "same_outside {off..<off + 4} ar ar2"
    using cell_frame(1) [OF 1(2)] cell_frame(1) [OF 2(2)] by (auto simp: same_outside_def)
  moreover have "bl_at off n c ar2 [k]"
    using assms 1(2) 2(2) by (simp add: bl_at_def bl_geometry_def bl_fields_def bl_linked_def bh_defs cell_simps)
  ultimately show ?thesis by blast
qed

lemma list_pop_next:
  assumes "bl_at off n c ar (k # j # ks)" "20 \<le> cnt" "cnt + 4 \<le> 36" "cnt mod 4 = 0"
  shows "\<exists>ar'. list_pop (bl_hdl off n c cnt) ar = Some (ar', Inr (slice_of off c k)) \<and> bl_at off n c ar' (j # ks) \<and>
    bh_flag ar' (lbuf off c k) = Some SLICE_IN_USED_FLAG \<and>
    same_outside ({off..<off + 36} \<union> {lbuf off c k..<lbuf off c k + 20}) ar ar'"
proof -
  let ?b = "bl_hdl off n c cnt" and ?h = "lbuf off c k" and ?len = "length (k # j # ks)"
  note q = bl_atD [OF assms(1)]
  have k: "k < n" "j < n" "k \<noteq> j" "k \<notin> set ks" using q(7,8) by auto
  have al: "?h mod 4 = 0" using lbuf_aligned [OF q(1,2)] .
  then have fl: "(?h + 16) mod 4 = 0" by presburger
  have en: "?h + c + 20 \<le> off + 36 + n * (c + 20)" using lbuf_end [OF k(1)] .
  have small: "k * (c + 20) < 2 ^ 32" "j * (c + 20) < 2 ^ 32" "c < 2 ^ 32"
    using en lbuf_end [OF k(2), of off c] q(5) by (simp_all add: lbuf_def)
  obtain ar1 where 1: "fetch_add ar off (- 1) = Some (ar1, of_nat ?len)" "store_u32 ar off (of_nat ?len + - 1) = Some ar1"
    using fetch_add_step [OF q(9)] by blast
  have lk: "bh_has_next ar ?h = Some True" "next_buffer_offset ar ?h = Some (j * (c + 20))"
    using q(16) unfolding bl_linked_def by (auto dest: spec [of _ 0])
  have r1: "get_u32 ar1 (off + 8) = Some (k * (c + 20))" "get_u32 ar1 (off + 16) = Some c" "bh_has_next ar1 ?h = Some True"
    "next_buffer_offset ar1 ?h = Some (j * (c + 20))" "alen ar1 = alen ar"
    using q(11,13) 1(2) lk by (simp_all add: bh_defs cell_simps lbuf_def)
  obtain ar2 where 2: "set_u32 ar1 (off + 8) (j * (c + 20)) = Some ar2"
    using set_u32_total [of "off + 8" ar1] q(1,4) r1(5) by (auto simp: mod_add_eq) presburger
  obtain ar3 where 3: "set_u8 ar2 (?h + 16) 0 = Some ar3"
    using set_u8_total [of "?h + 16" ar2] en q(4) r1(5) cell_alen(2) [OF 2] by auto
  obtain ar4 where 4: "set_u8 ar3 (?h + 16) 2 = Some ar4"
    using set_u8_total [of "?h + 16" ar3] en q(4) r1(5) cell_alen(2) [OF 2] cell_alen(3) [OF 3] by auto
  have hd: "off + 36 \<le> ?h" by (simp add: lbuf_def)
  have l4: "load_u32 ar4 (off + cnt) = load_u32 ar (off + cnt)"
    using 1(2) 2 3 4 fl assms(2,3) by (simp add: cell_simps)
  obtain v where v: "load_u32 ar (off + cnt) = Some v"
    using get_u32_defined [of "off + cnt" ar] assms(2-4) q(1,4) by (auto simp: get_u32_def)
  obtain ar5 where 5: "fetch_add ar4 (off + cnt) 1 = Some (ar5, v)" "store_u32 ar4 (off + cnt) (v + 1) = Some ar5"
    using fetch_add_step [OF l4 [unfolded v]] by blast
  have sz: "bh_cap ar5 ?h = Some c" "bh_size ar5 ?h = Some 0" "bh_start ar5 ?h = Some 0" "get_u32 ar5 (off + 16) = Some c"
    "bh_flag ar5 ?h = Some 2"
    using 1(2) 2 3 4 5(2) q(13,14,15) k(1) assms(2,3) small fl hd by (simp_all add: bh_defs cell_simps)
  have pl: "pop_loop ?b ar1 (Suc 199) (k * (c + 20)) = Some (ar5, Inr (slice_of off c k))"
  proof -
    have reg: "bl_region ?b + k * (c + 20) = ?h" "k * (c + 20) + bl_region_offset_in_shm ?b = ?h" by (simp_all add: lbuf_def)
    have fl2: "bh_flag ar3 ?h = Some 0" using get_set_u8 [OF 3] by (simp add: bh_defs)
    have "slice_new ar5 (Some ?h) (InShm (?h + BUFFER_HEADER_SIZE)) c ?h True = Some (slice_of off c k)"
      using sz q(3) by (simp add: slice_new_def u32_add_def slice_of_def BUFFER_HEADER_SIZE_def)
    then show ?thesis
      unfolding pop_loop.simps Let_def reg
      using r1 2 3 4 5(1) sz(4) fl2 by (simp add: bh_clear_flag_def bh_set_in_used_def BUFFER_FLAG_OFFSET_def NEXT_BUFFER_OFFSET_def
        BUFFER_DATA_START_OFFSET_def BUFFER_SIZE_OFFSET_def BUFFER_CAP_OFFSET_def SLICE_IN_USED_FLAG_def)
  qed
  have at: "bl_at off n c ar5 (j # ks)"
  proof -
    have "bl_fields off n c ar5 (j # ks)"
      using 1(2) 2 3 4 5(2) q(9-13) assms(2,3) small fl hd by (simp add: bl_fields_def cell_simps)
    moreover have "\<forall>i < n. bh_cap ar5 (lbuf off c i) = Some c"
      using 1(2) 2 3 4 5(2) q(14) assms(2,3) small fl by (simp add: bh_defs cell_simps)
    moreover have "\<forall>i \<in> set (j # ks). bh_size ar5 (lbuf off c i) = Some 0 \<and> bh_start ar5 (lbuf off c i) = Some 0"
      using 1(2) 2 3 4 5(2) q(15) assms(2,3) small fl by (simp add: bh_defs cell_simps)
    moreover have "bl_linked off c ar5 (j # ks)"
      unfolding bl_linked_def
    proof (intro allI impI)
      fix i assume i: "Suc i < length (j # ks)"
      let ?m = "(j # ks) ! i"
      have "?m \<in> set (j # ks)" using i by (intro nth_mem) simp
      then have "?m \<noteq> k" using k(3,4) by auto
      moreover have "bh_has_next ar (lbuf off c ?m) = Some True \<and> next_buffer_offset ar (lbuf off c ?m) = Some ((j # ks) ! Suc i * (c + 20))"
        using q(16) [unfolded bl_linked_def, rule_format, of "Suc i"] i by simp
      moreover have "off + 36 \<le> lbuf off c ?m" by (simp add: lbuf_def)
      ultimately show "bh_has_next ar5 (lbuf off c ?m) = Some True \<and> next_buffer_offset ar5 (lbuf off c ?m) = Some ((j # ks) ! Suc i * (c + 20))"
        using 1(2) 2 3 4 5(2) assms(2,3) small fl by (simp add: bh_defs cell_simps)
    qed
    ultimately show ?thesis using q(1-5,7,8) 1(2) 2 3 4 5(2) by (simp add: bl_at_def bl_geometry_def cell_simps)
  qed
  have "same_outside ({off..<off + 36} \<union> {?h..<?h + 20}) ar ar5"
    using cell_frame(1) [OF 1(2)] cell_frame(2) [OF 2] cell_frame(3) [OF 3] cell_frame(3) [OF 4] cell_frame(1) [OF 5(2)] assms(3)
    by (auto simp: same_outside_def)
  moreover have "list_pop ?b ar = Some (ar5, Inr (slice_of off c k))"
  proof -
    have "sint (of_nat ?len :: 32 word) = int ?len" using sint_small bl_length [OF assms(1)] by (meson le_less_trans)
    then have "\<not> sint (of_nat ?len :: 32 word) \<le> 1" by simp
    moreover have "u32_add (k * (c + 20)) BUFFER_HEADER_SIZE = Some (k * (c + 20) + 20)"
      "u32_add (k * (c + 20) + 20) c = Some (k * (c + 20) + 20 + c)" "\<not> k * (c + 20) + 20 + c > n * (c + 20)"
      using en q(5) by (simp_all add: u32_add_def BUFFER_HEADER_SIZE_def lbuf_def)
    moreover have "(200 :: nat) = Suc 199" by simp
    ultimately show ?thesis using q(11) 1(1) r1(2) pl unfolding list_pop_def
      by (simp add: bl_need_def del: of_nat_Suc list.size pop_loop.simps)
  qed
  ultimately show ?thesis using at sz(5) by (auto simp: SLICE_IN_USED_FLAG_def)
qed

text \<open>What \<open>link_next\<close> and the reset of a recycled slice do to the cells.\<close>

lemma link_next_ok:
  assumes "h mod 4 = 0" "h + 20 \<le> alen ar" "m < 2 ^ 32"
  shows "\<exists>ar'. bh_link_next ar h m = Some ar' \<and> bh_has_next ar' h = Some True \<and>
    (\<forall>q. q \<noteq> h + 16 \<longrightarrow> load_u32 ar' q = (if q = h + 12 then Some (of_nat m) else load_u32 ar q)) \<and>
    (\<forall>q. q < h + 12 \<or> h + 17 \<le> q \<longrightarrow> get_u8 ar' q = get_u8 ar q) \<and> same_outside {h + 12..<h + 20} ar ar'"
proof -
  have al: "(h + 12) mod 4 = 0" "(h + 16) mod 4 = 0" using assms(1) by presburger+
  obtain ar1 where 1: "set_u32 ar (h + 12) m = Some ar1" using set_u32_total [OF al(1), of ar m] assms(2) by auto
  obtain f where f: "get_u8 ar1 (h + 16) = Some f" using get_u8_defined [of "h + 16" ar1] assms(2) cell_alen(2) [OF 1] by auto
  obtain ar2 where 2: "set_u8 ar1 (h + 16) (f OR 1) = Some ar2"
    using set_u8_total [of "h + 16" ar1] assms(2) cell_alen(2) [OF 1] by auto
  have "bh_link_next ar h m = Some ar2" using 1 f 2 by (simp add: bh_link_next_def bh_defs)
  moreover have "bh_has_next ar2 h = Some True" using 2 flag_or_next [of f] by (simp add: bh_defs cell_simps)
  moreover have "\<forall>q. q \<noteq> h + 16 \<longrightarrow> load_u32 ar2 q = (if q = h + 12 then Some (of_nat m) else load_u32 ar q)"
    using 1 2 al by (simp add: cell_simps)
  moreover have "\<forall>q. q < h + 12 \<or> h + 17 \<le> q \<longrightarrow> get_u8 ar2 q = get_u8 ar q"
    using 1 2 by (auto simp: cell_simps)
  moreover have "same_outside {h + 12..<h + 20} ar ar2"
    using cell_frame(2) [OF 1] cell_frame(3) [OF 2] by (auto simp: same_outside_def)
  ultimately show ?thesis by blast
qed

lemma reset_for_recycle_ok:
  assumes "bs_header s = Some h" "h mod 4 = 0" "h + 20 \<le> alen ar"
  shows "\<exists>ar'. reset_for_recycle ar s = Some (ar', s \<lparr> bs_start := 0, bs_write_index := 0, bs_read_index := 0 \<rparr>) \<and>
    (\<forall>q. q \<noteq> h + 16 \<longrightarrow> load_u32 ar' q = (if q = h + 4 \<or> q = h + 8 \<or> q = h + 12 then Some 0 else load_u32 ar q)) \<and>
    (\<forall>q. q < h + 4 \<or> h + 17 \<le> q \<longrightarrow> get_u8 ar' q = get_u8 ar q) \<and> same_outside {h + 4..<h + 20} ar ar'"
proof -
  have al: "(h + 4) mod 4 = 0" "(h + 8) mod 4 = 0" "(h + 12) mod 4 = 0" "(h + 16) mod 4 = 0" using assms(2) by presburger+
  obtain ar1 where 1: "set_u32 ar (h + 4) 0 = Some ar1" using set_u32_total [OF al(1), of ar 0] assms(3) by auto
  obtain ar2 where 2: "set_u32 ar1 (h + 8) 0 = Some ar2" using set_u32_total [OF al(2), of ar1 0] assms(3) cell_alen(2) [OF 1] by auto
  obtain ar3 where 3: "set_u32 ar2 (h + 12) 0 = Some ar3"
    using set_u32_total [OF al(3), of ar2 0] assms(3) cell_alen(2) [OF 1] cell_alen(2) [OF 2] by auto
  have len: "h + 16 < alen ar3" using assms(3) cell_alen(2) [OF 1] cell_alen(2) [OF 2] cell_alen(2) [OF 3] by simp
  obtain f where f: "get_u8 ar3 (h + 16) = Some f" using get_u8_defined [OF len] by auto
  obtain ar4 where 4: "set_u8 ar3 (h + 16) (f AND NOT 1) = Some ar4" using set_u8_total [OF len] by blast
  obtain ar5 where 5: "set_u8 ar4 (h + 16) 0 = Some ar5" using set_u8_total [of "h + 16" ar4] len cell_alen(3) [OF 4] by auto
  have "reset_for_recycle ar s = Some (ar5, s \<lparr> bs_start := 0, bs_write_index := 0, bs_read_index := 0 \<rparr>)"
    using assms(1) 1 2 3 4 5 f
    by (simp add: reset_for_recycle_def reset_indices_and_link_def bh_set_size_def bh_set_start_def bh_unlink_next_def
      bh_clear_flag_def bh_defs)
  moreover have "\<forall>q. q \<noteq> h + 16 \<longrightarrow> load_u32 ar5 q = (if q = h + 4 \<or> q = h + 8 \<or> q = h + 12 then Some 0 else load_u32 ar q)"
    using 1 2 3 4 5 al by (simp add: cell_simps)
  moreover have "\<forall>q. q < h + 4 \<or> h + 17 \<le> q \<longrightarrow> get_u8 ar5 q = get_u8 ar q"
    using 1 2 3 4 5 by (auto simp: cell_simps)
  moreover have "same_outside {h + 4..<h + 20} ar ar5"
    using cell_frame(2) [OF 1] cell_frame(2) [OF 2] cell_frame(2) [OF 3] cell_frame(3) [OF 4] cell_frame(3) [OF 5]
    by (auto simp: same_outside_def)
  ultimately show ?thesis by blast
qed

lemma bl_at_words:
  assumes "bl_geometry off n c ar" "ks \<noteq> []" "distinct ks" "\<forall>k \<in> set ks. k < n"
    "load_u32 ar off = Some (of_nat (length ks))" "load_u32 ar (off + 4) = Some (of_nat n)"
    "load_u32 ar (off + 8) = Some (of_nat (hd ks * (c + 20)))" "load_u32 ar (off + 12) = Some (of_nat (last ks * (c + 20)))"
    "load_u32 ar (off + 16) = Some (of_nat c)"
    "\<forall>k < n. load_u32 ar (lbuf off c k) = Some (of_nat c)"
    "\<forall>k \<in> set ks. load_u32 ar (lbuf off c k + 4) = Some 0 \<and> load_u32 ar (lbuf off c k + 8) = Some 0"
    "\<forall>i. Suc i < length ks \<longrightarrow> bh_has_next ar (lbuf off c (ks ! i)) = Some True \<and>
      load_u32 ar (lbuf off c (ks ! i) + 12) = Some (of_nat (ks ! Suc i * (c + 20)))"
  shows "bl_at off n c ar ks"
proof -
  have g: "off + 36 + n * (c + 20) < 2 ^ 32" using assms(1) by (simp add: bl_geometry_def)
  have u: "unat (of_nat m :: 32 word) = m" if "m < 2 ^ 32" for m using that by (simp add: unat_of_nat take_bit_nat_eq_self)
  have kb: "k * (c + 20) < 2 ^ 32" if "k \<in> set ks" for k
    using lbuf_end [of k n off c] assms(4) that g by (auto simp: lbuf_def)
  obtain m where m: "m = n * (c + 20)" by simp
  have "0 < n" using assms(2,4) by (cases ks) auto
  then have "n \<le> m" "c + 20 \<le> m"
    using mult_le_mono2 [of 1 "c + 20" n] mult_le_mono1 [of 1 n "c + 20"] m by simp_all
  then have nc: "n < 2 ^ 32" "c < 2 ^ 32" using g [folded m] by linarith+
  have g32: "get_u32 ar p = Some m" if "load_u32 ar p = Some (of_nat m)" "m < 2 ^ 32" for p m
    using that u by (simp add: get_u32_def)
  have "bl_fields off n c ar ks"
    unfolding bl_fields_def using assms(2,5) g32 [OF assms(6) nc(1)] g32 [OF assms(7) kb] g32 [OF assms(8) kb] g32 [OF assms(9) nc(2)]
    by simp
  moreover have "bh_cap ar (lbuf off c k) = Some c" if "k < n" for k
    using g32 [OF assms(10) [rule_format, OF that] nc(2)] by (simp add: bh_defs)
  moreover have "bh_size ar (lbuf off c k) = Some 0 \<and> bh_start ar (lbuf off c k) = Some 0" if "k \<in> set ks" for k
    using g32 [of "lbuf off c k + 4" 0] g32 [of "lbuf off c k + 8" 0] assms(11) [rule_format, OF that] by (simp add: bh_defs)
  moreover have "bl_linked off c ar ks"
    unfolding bl_linked_def
  proof (intro allI impI)
    fix i assume i: "Suc i < length ks"
    note l = assms(12) [rule_format, OF i]
    have "get_u32 ar (lbuf off c (ks ! i) + 12) = Some (ks ! Suc i * (c + 20))"
      using g32 [OF conjunct2 [OF l] kb] i by simp
    then show "bh_has_next ar (lbuf off c (ks ! i)) = Some True \<and> next_buffer_offset ar (lbuf off c (ks ! i)) = Some (ks ! Suc i * (c + 20))"
      using l by (simp add: next_buffer_offset_def bh_layout)
  qed
  ultimately show ?thesis unfolding bl_at_def using assms(1-4) by blast
qed

lemma bl_at_wordsD:
  assumes "bl_at off n c ar ks"
  shows "load_u32 ar (off + 4) = Some (of_nat n)" "load_u32 ar (off + 8) = Some (of_nat (hd ks * (c + 20)))"
    "load_u32 ar (off + 12) = Some (of_nat (last ks * (c + 20)))" "load_u32 ar (off + 16) = Some (of_nat c)"
    "\<And>k. k < n \<Longrightarrow> load_u32 ar (lbuf off c k) = Some (of_nat c)"
    "\<And>k. k \<in> set ks \<Longrightarrow> load_u32 ar (lbuf off c k + 4) = Some 0 \<and> load_u32 ar (lbuf off c k + 8) = Some 0"
    "\<And>i. Suc i < length ks \<Longrightarrow> load_u32 ar (lbuf off c (ks ! i) + 12) = Some (of_nat (ks ! Suc i * (c + 20)))"
proof -
  have w: "load_u32 ar p = Some (of_nat m)" if "get_u32 ar p = Some m" for p m using that by (auto simp: get_u32_def)
  note q = bl_atD [OF assms]
  show "load_u32 ar (off + 4) = Some (of_nat n)" "load_u32 ar (off + 8) = Some (of_nat (hd ks * (c + 20)))"
    "load_u32 ar (off + 12) = Some (of_nat (last ks * (c + 20)))" "load_u32 ar (off + 16) = Some (of_nat c)"
    by (rule w, rule q(10-13))+
  show "load_u32 ar (lbuf off c k) = Some (of_nat c)" if "k < n" for k using q(14) that w by (simp add: bh_defs)
  show "load_u32 ar (lbuf off c k + 4) = Some 0 \<and> load_u32 ar (lbuf off c k + 8) = Some 0" if "k \<in> set ks" for k
    using q(15) that w [of _ 0] by (simp add: bh_defs)
  show "load_u32 ar (lbuf off c (ks ! i) + 12) = Some (of_nat (ks ! Suc i * (c + 20)))" if "Suc i < length ks" for i
    using q(16) that w by (simp add: bl_linked_def bh_defs)
qed

lemma list_push_ok:
  assumes "bl_at off n c ar ks" "k < n" "k \<notin> set ks" "bs_header s = Some (lbuf off c k)" "bs_offset_in_shm s = lbuf off c k"
    "20 \<le> cnt" "cnt + 4 \<le> 36" "cnt mod 4 = 0"
  shows "\<exists>ar'. list_push (bl_hdl off n c cnt) ar s = Some ar' \<and> bl_at off n c ar' (ks @ [k]) \<and>
    same_outside ({off..<off + 36} \<union> {lbuf off c k..<lbuf off c k + 20} \<union> {lbuf off c (last ks)..<lbuf off c (last ks) + 20}) ar ar'"
proof -
  let ?b = "bl_hdl off n c cnt" and ?h = "lbuf off c k" and ?t = "lbuf off c (last ks)"
  let ?s = "s \<lparr> bs_start := 0, bs_write_index := 0, bs_read_index := 0 \<rparr>"
  note q = bl_atD [OF assms(1)] and w = bl_at_wordsD [OF assms(1)]
  have lk: "last ks \<in> set ks" "last ks < n" "last ks \<noteq> k" using q(6,8) assms(3) by auto
  have al: "?h mod 4 = 0" "?t mod 4 = 0" using lbuf_aligned [OF q(1,2)] by blast+
  have en: "?h + c + 20 \<le> off + 36 + n * (c + 20)" "?t + c + 20 \<le> off + 36 + n * (c + 20)" using lbuf_end assms(2) lk(2) by blast+
  have small: "k * (c + 20) < 2 ^ 32" using en q(5) by (simp add: lbuf_def)
  obtain ar1 where 1: "reset_for_recycle ar s = Some (ar1, ?s)"
    "\<And>p. p \<noteq> ?h + 16 \<Longrightarrow> load_u32 ar1 p = (if p = ?h + 4 \<or> p = ?h + 8 \<or> p = ?h + 12 then Some 0 else load_u32 ar p)"
    "\<And>p. p < ?h + 4 \<or> ?h + 17 \<le> p \<Longrightarrow> get_u8 ar1 p = get_u8 ar p" "same_outside {?h + 4..<?h + 20} ar ar1"
    using reset_for_recycle_ok [OF assms(4) al(1), of ar] en q(4) by auto
  have a1: "alen ar1 = alen ar" using same_outside_alen [OF 1(4)] .
  have "(off + 12) mod 4 = 0" using q(1) by presburger
  then obtain ar2 where 2: "set_u32 ar1 (off + 12) (k * (c + 20)) = Some ar2"
    using set_u32_total [of "off + 12" ar1 "k * (c + 20)"] q(4) a1 by auto
  have a2: "alen ar2 = alen ar" using cell_alen(2) [OF 2] a1 by simp
  obtain ar3 where 3: "bh_link_next ar2 ?t (k * (c + 20)) = Some ar3" "bh_has_next ar3 ?t = Some True"
    "\<And>p. p \<noteq> ?t + 16 \<Longrightarrow> load_u32 ar3 p = (if p = ?t + 12 then Some (of_nat (k * (c + 20))) else load_u32 ar2 p)"
    "\<And>p. p < ?t + 12 \<or> ?t + 17 \<le> p \<Longrightarrow> get_u8 ar3 p = get_u8 ar2 p" "same_outside {?t + 12..<?t + 20} ar2 ar3"
    using link_next_ok [OF al(2) _ small, of ar2] en q(4) a2 by auto
  have s3: "load_u32 ar3 off = Some (of_nat (length ks))" using 1(2) 2 3(3) q(9) by (simp add: cell_simps)
  obtain ar4 where 4: "fetch_add ar3 off 1 = Some (ar4, of_nat (length ks))" "store_u32 ar3 off (of_nat (length ks) + 1) = Some ar4"
    using fetch_add_step [OF s3] by blast
  have a4: "alen ar4 = alen ar" using cell_alen(1) [OF 4(2)] same_outside_alen [OF 3(5)] a2 by simp
  have "(off + cnt) mod 4 = 0" using q(1) assms(8) by presburger
  then obtain v where "load_u32 ar4 (off + cnt) = Some v"
    using get_u32_defined [of "off + cnt" ar4] assms(7) q(4) a4 by (auto simp: get_u32_def)
  then obtain ar5 where 5: "fetch_add ar4 (off + cnt) (- 1) = Some (ar5, v)" "store_u32 ar4 (off + cnt) (v + - 1) = Some ar5"
    using fetch_add_step by blast
  have rd: "load_u32 ar5 p = (if p = off then Some (of_nat (length ks) + 1) else if p = ?t + 12 then Some (of_nat (k * (c + 20)))
      else if p = off + 12 then Some (of_nat (k * (c + 20))) else if p = ?h + 4 \<or> p = ?h + 8 \<or> p = ?h + 12 then Some 0 else load_u32 ar p)"
    if "p \<noteq> off + cnt" "p \<noteq> ?t + 16" "p \<noteq> ?h + 16" for p
    using that 1(2) 2 3(3) 4(2) 5(2) lk(3) assms(6,7) by (auto simp: cell_simps)
  have fl: "bh_has_next ar5 (lbuf off c i) = bh_has_next ar (lbuf off c i)" if "i \<noteq> k" "i \<noteq> last ks" for i
  proof -
    have "off + 36 \<le> lbuf off c i" by (simp add: lbuf_def)
    then have "get_u8 ar5 (lbuf off c i + 16) = get_u8 ar3 (lbuf off c i + 16)" using 4(2) 5(2) assms(7) by (simp add: cell_simps)
    also have "\<dots> = get_u8 ar2 (lbuf off c i + 16)"
      using lbuf_byte_order [OF that(2), of 16 12 off c] lbuf_byte_order [OF that(2), of 16 16 off c] by (intro 3(4)) auto
    also have "\<dots> = get_u8 ar1 (lbuf off c i + 16)" using 2 \<open>off + 36 \<le> lbuf off c i\<close> by (simp add: cell_simps)
    also have "\<dots> = get_u8 ar (lbuf off c i + 16)"
      using lbuf_byte_order [OF that(1), of 16 4 off c] lbuf_byte_order [OF that(1), of 16 16 off c]
        lbuf_byte_order [OF that(1), of 16 8 off c] lbuf_byte_order [OF that(1), of 16 12 off c] by (intro 1(3)) auto
    finally show ?thesis by (simp add: bh_defs)
  qed
  have ft: "bh_has_next ar5 ?t = Some True"
    using 3(2) 4(2) 5(2) assms(7) by (simp add: bh_defs cell_simps lbuf_def)
  have push: "list_push ?b ar s = Some ar5"
  proof -
    have "get_u32 ar1 (off + 12) = Some (last ks * (c + 20))" using 1(2) q(12) by (simp add: get_u32_def)
    moreover have "off + 36 + last ks * (c + 20) = ?t" "?h - (off + 36) = k * (c + 20)" "off + 36 \<le> ?h" by (simp_all add: lbuf_def)
    ultimately show ?thesis using 1(1) 2 3(1) 4(1) 5(1) assms(5) by (simp add: list_push_def checked_sub_def)
  qed
  have "bl_at off n c ar5 (ks @ [k])"
  proof (rule bl_at_words)
    show "bl_geometry off n c ar5" using q(1-5) a4 cell_alen(1) [OF 5(2)] by (simp add: bl_geometry_def)
    show "\<forall>i < n. load_u32 ar5 (lbuf off c i) = Some (of_nat c)" using rd w(5) assms(6,7) by simp
    show "\<forall>i \<in> set (ks @ [k]). load_u32 ar5 (lbuf off c i + 4) = Some 0 \<and> load_u32 ar5 (lbuf off c i + 8) = Some 0"
      using rd w(6) assms(3,6,7) by auto
    show "\<forall>i. Suc i < length (ks @ [k]) \<longrightarrow> bh_has_next ar5 (lbuf off c ((ks @ [k]) ! i)) = Some True \<and>
      load_u32 ar5 (lbuf off c ((ks @ [k]) ! i) + 12) = Some (of_nat ((ks @ [k]) ! Suc i * (c + 20)))"
    proof (intro allI impI)
      fix i assume i: "Suc i < length (ks @ [k])"
      show "bh_has_next ar5 (lbuf off c ((ks @ [k]) ! i)) = Some True \<and>
        load_u32 ar5 (lbuf off c ((ks @ [k]) ! i) + 12) = Some (of_nat ((ks @ [k]) ! Suc i * (c + 20)))"
      proof (cases "Suc i < length ks")
        case True
        have m: "ks ! i \<in> set ks" "ks ! i \<noteq> last ks" using True q(6,7) by (auto simp: last_conv_nth nth_eq_iff_index_eq)
        then have "ks ! i \<noteq> k" using assms(3) by auto
        moreover have "bh_has_next ar (lbuf off c (ks ! i)) = Some True" using q(16) True by (simp add: bl_linked_def)
        ultimately show ?thesis using fl m rd [of "lbuf off c (ks ! i) + 12"] w(7) [OF True] True assms(6,7) by (simp add: nth_append)
      next
        case False
        then have e: "i = length ks - 1" "i < length ks" using i by simp_all
        then have "ks ! i = last ks" using q(6) by (simp add: last_conv_nth)
        then show ?thesis using e(2) ft rd [of "?t + 12"] assms(6,7) i False by (simp add: nth_append)
      qed
    qed
  qed (use q(6-8) assms(2,3,6,7) rd w(1-4) q(9) in \<open>simp_all add: hd_append\<close>)
  moreover have "same_outside ({off..<off + 36} \<union> {?h..<?h + 20} \<union> {?t..<?t + 20}) ar ar5" (is "same_outside ?F _ _")
  proof -
    have "same_outside ?F ar ar1" using 1(4) by (rule same_outside_mono) auto
    also have "same_outside ?F ar1 ar2" using cell_frame(2) [OF 2] by (rule same_outside_mono) auto
    also have "same_outside ?F ar2 ar3" using 3(5) by (rule same_outside_mono) auto
    also have "same_outside ?F ar3 ar4" using cell_frame(1) [OF 4(2)] by (rule same_outside_mono) auto
    also have "same_outside ?F ar4 ar5" using cell_frame(1) [OF 5(2)] by (rule same_outside_mono) (use assms(7) in auto)
    finally show ?thesis .
  qed
  ultimately show ?thesis using push by blast
qed

text \<open>The headers written by the first loop of \<open>create\<close>.\<close>

definition fresh_header :: "nat \<Rightarrow> nat \<Rightarrow> nat \<Rightarrow> nat \<Rightarrow> arena \<Rightarrow> bool" where
  "fresh_header off n c i ar \<longleftrightarrow> load_u32 ar (lbuf off c i) = Some (of_nat c) \<and>
     load_u32 ar (lbuf off c i + 4) = Some 0 \<and> load_u32 ar (lbuf off c i + 8) = Some 0 \<and>
     (Suc i < n \<longrightarrow> bh_has_next ar (lbuf off c i) = Some True \<and>
        load_u32 ar (lbuf off c i + 12) = Some (of_nat (Suc i * (c + 20))))"

lemma fresh_header_frame:
  assumes "fresh_header off n c i ar" "same_outside S ar ar'" "{lbuf off c i..<lbuf off c i + 20} \<inter> S = {}"
  shows "fresh_header off n c i ar'"
proof -
  have "{lbuf off c i + d..<lbuf off c i + d + 4} \<inter> S = {}" if "d + 4 \<le> 20" for d
    using assms(3) that by (auto simp: disjoint_iff)
  moreover have "lbuf off c i + 16 \<notin> S" using assms(3) by (auto simp: disjoint_iff)
  moreover note calculation(1) [of 0] calculation(1) [of 4] calculation(1) [of 8] calculation(1) [of 12]
  ultimately show ?thesis
    using assms load_u32_frame [OF assms(2)] get_u8_frame [OF assms(2), of "lbuf off c i + 16"]
    by (auto simp: fresh_header_def bh_defs)
qed

lemma init_one:
  assumes "off mod 4 = 0" "c mod 4 = 0" "lbuf off c i + 20 \<le> alen ar" "c < 2 ^ 32" "Suc i * (c + 20) < 2 ^ 32" "n = Suc i + k"
  shows "\<exists>ar'. init_buffers (off + 36) c (Suc k) (i * (c + 20)) ar = init_buffers (off + 36) c k (Suc i * (c + 20)) ar' \<and>
    fresh_header off n c i ar' \<and> same_outside {lbuf off c i..<lbuf off c i + 20} ar ar'"
proof -
  let ?h = "lbuf off c i"
  have h: "off + 36 + i * (c + 20) = ?h" by (simp add: lbuf_def)
  have al: "?h mod 4 = 0" using lbuf_aligned [OF assms(1,2)] .
  then have als: "(?h + 4) mod 4 = 0" "(?h + 8) mod 4 = 0" "(?h + 12) mod 4 = 0" "(?h + 16) mod 4 = 0" by presburger+
  have nx: "u32_add (i * (c + 20)) c = Some (i * (c + 20) + c)" "u32_add (i * (c + 20) + c) BUFFER_HEADER_SIZE = Some (Suc i * (c + 20))"
    using assms(5) by (simp_all add: u32_add_def BUFFER_HEADER_SIZE_def)
  obtain ar1 where 1: "set_u32 ar ?h c = Some ar1" using set_u32_total [OF al, of ar c] assms(3) by auto
  obtain ar2 where 2: "set_u32 ar1 (?h + 4) 0 = Some ar2" using set_u32_total [OF als(1), of ar1 0] assms(3) cell_alen(2) [OF 1] by auto
  obtain ar3 where 3: "set_u32 ar2 (?h + 8) 0 = Some ar3"
    using set_u32_total [OF als(2), of ar2 0] assms(3) cell_alen(2) [OF 1] cell_alen(2) [OF 2] by auto
  have a3: "alen ar3 = alen ar" using cell_alen(2) [OF 1] cell_alen(2) [OF 2] cell_alen(2) [OF 3] by simp
  have f3: "same_outside {?h..<?h + 20} ar ar3"
    using cell_frame(2) [OF 1] cell_frame(2) [OF 2] cell_frame(2) [OF 3] by (auto simp: same_outside_def)
  show ?thesis
  proof (cases k)
    case 0
    have "fresh_header off n c i ar3" using 1 2 3 0 assms(6) by (simp add: fresh_header_def cell_simps)
    then show ?thesis using nx 1 2 3 f3 0 h by (intro exI [of _ ar3]) (simp add: bh_layout)
  next
    case (Suc k')
    obtain ar4 where 4: "set_u32 ar3 (?h + 12) (Suc i * (c + 20)) = Some ar4"
      using set_u32_total [OF als(3), of ar3 "Suc i * (c + 20)"] assms(3) a3 by auto
    obtain ar5 where 5: "set_u32 ar4 (?h + 16) 0 = Some ar5"
      using set_u32_total [OF als(4), of ar4 0] assms(3) a3 cell_alen(2) [OF 4] by auto
    have len: "?h + 16 < alen ar5" using assms(3) a3 cell_alen(2) [OF 4] cell_alen(2) [OF 5] by simp
    obtain f where f: "get_u8 ar5 (?h + 16) = Some f" using get_u8_defined [OF len] by blast
    obtain ar6 where 6: "set_u8 ar5 (?h + 16) (f OR 1) = Some ar6" using set_u8_total [OF len] by blast
    have "fresh_header off n c i ar6"
      using 1 2 3 4 5 6 als(4) flag_or_next [of f] by (simp add: fresh_header_def bh_defs cell_simps)
    moreover have "same_outside {?h..<?h + 20} ar ar6"
      using f3 cell_frame(2) [OF 4] cell_frame(2) [OF 5] cell_frame(3) [OF 6] by (auto simp: same_outside_def)
    moreover have "init_buffers (off + 36) c (Suc k) (i * (c + 20)) ar = init_buffers (off + 36) c k (Suc i * (c + 20)) ar6"
      using nx 1 2 3 4 5 6 f Suc h by (simp add: bh_layout del: mult_Suc)
    ultimately show ?thesis by blast
  qed
qed

lemma init_buffers_ok:
  assumes "off mod 4 = 0" "c mod 4 = 0" "off + 36 + n * (c + 20) \<le> alen ar" "off + 36 + n * (c + 20) < 2 ^ 32" "i + k = n"
  shows "\<exists>ar'. init_buffers (off + 36) c k (i * (c + 20)) ar = Some ar' \<and>
    (\<forall>j. i \<le> j \<and> j < n \<longrightarrow> fresh_header off n c j ar') \<and> same_outside {lbuf off c i..<lbuf off c n} ar ar'"
  using assms(3,5)
proof (induction k arbitrary: i ar)
  case 0
  then show ?case by auto
next
  case (Suc k)
  have i: "i < n" using Suc.prems(2) by simp
  have e: "lbuf off c i + c + 20 \<le> off + 36 + n * (c + 20)" using lbuf_end [OF i] .
  then have b: "c < 2 ^ 32" "Suc i * (c + 20) < 2 ^ 32" "lbuf off c i + 20 \<le> alen ar"
    using assms(4) Suc.prems(1) by (simp_all add: lbuf_def)
  obtain ar1 where 1: "init_buffers (off + 36) c (Suc k) (i * (c + 20)) ar = init_buffers (off + 36) c k (Suc i * (c + 20)) ar1"
    "fresh_header off n c i ar1" "same_outside {lbuf off c i..<lbuf off c i + 20} ar ar1"
    using init_one [OF assms(1,2) b(3,1,2), of n k] Suc.prems(2) by auto
  obtain ar' where 2: "init_buffers (off + 36) c k (Suc i * (c + 20)) ar1 = Some ar'"
    "\<forall>j. Suc i \<le> j \<and> j < n \<longrightarrow> fresh_header off n c j ar'" "same_outside {lbuf off c (Suc i)..<lbuf off c n} ar1 ar'"
    using Suc.IH [of ar1 "Suc i"] Suc.prems same_outside_alen [OF 1(3)] by auto
  have "fresh_header off n c i ar'" using fresh_header_frame [OF 1(2) 2(3)] by (auto simp: lbuf_Suc disjoint_iff)
  moreover have "lbuf off c (Suc i) \<le> lbuf off c n" using e by (simp add: lbuf_def)
  then have "same_outside {lbuf off c i..<lbuf off c n} ar ar'"
    using 1(3) 2(3) by (auto simp: same_outside_def lbuf_Suc)
  ultimately show ?case using 1(1) 2(1,2) by (metis Suc_leI le_neq_implies_less)
qed

lemma count_mem_size:
  assumes "36 + n * (c + 20) < 2 ^ 32" "0 < n"
  shows "count_buffer_list_mem_size n c = Some (bl_need n c)"
proof -
  obtain m where m: "m = n * (c + 20)" by simp
  have "c + 20 \<le> m" using assms(2) m mult_le_mono1 [of 1 n "c + 20"] by simp
  then have "c + 20 < 2 ^ 32" "m < 2 ^ 32" "36 + m < 2 ^ 32" using assms(1) [folded m] by linarith+
  then show ?thesis using m
    by (simp add: count_buffer_list_mem_size_def u32_add_def u32_mul_def BUFFER_HEADER_SIZE_def BUFFER_LIST_HEADER_SIZE_def bl_need_def)
qed

text \<open>The six header fields, written in a row.\<close>

lemma header_written:
  assumes "off mod 4 = 0" "off + 36 \<le> alen ar"
  obtains ar1 ar2 ar3 ar4 ar5 ar6 where "set_u32 ar off n = Some ar1" "set_u32 ar1 (off + 4) n = Some ar2"
    "set_u32 ar2 (off + 8) 0 = Some ar3" "set_u32 ar3 (off + 12) t = Some ar4" "set_u32 ar4 (off + 16) c = Some ar5"
    "set_u32 ar5 (off + 20) 0 = Some ar6" "same_outside {off..<off + 36} ar ar6"
    "load_u32 ar6 off = Some (of_nat n)" "load_u32 ar6 (off + 4) = Some (of_nat n)" "load_u32 ar6 (off + 8) = Some 0"
    "load_u32 ar6 (off + 12) = Some (of_nat t)" "load_u32 ar6 (off + 16) = Some (of_nat c)" "load_u32 ar6 (off + 20) = Some 0"
proof -
  have al: "(off + 4) mod 4 = 0" "(off + 8) mod 4 = 0" "(off + 12) mod 4 = 0" "(off + 16) mod 4 = 0" "(off + 20) mod 4 = 0"
    using assms(1) by presburger+
  obtain ar1 where 1: "set_u32 ar off n = Some ar1" using set_u32_total [OF assms(1), of ar n] assms(2) by auto
  obtain ar2 where 2: "set_u32 ar1 (off + 4) n = Some ar2" using set_u32_total [OF al(1), of ar1 n] assms(2) cell_alen(2) [OF 1] by auto
  obtain ar3 where 3: "set_u32 ar2 (off + 8) 0 = Some ar3"
    using set_u32_total [OF al(2), of ar2 0] assms(2) cell_alen(2) [OF 1] cell_alen(2) [OF 2] by auto
  have a3: "alen ar3 = alen ar" using cell_alen(2) [OF 1] cell_alen(2) [OF 2] cell_alen(2) [OF 3] by simp
  obtain ar4 where 4: "set_u32 ar3 (off + 12) t = Some ar4" using set_u32_total [OF al(3), of ar3 t] assms(2) a3 by auto
  obtain ar5 where 5: "set_u32 ar4 (off + 16) c = Some ar5" using set_u32_total [OF al(4), of ar4 c] assms(2) a3 cell_alen(2) [OF 4] by auto
  obtain ar6 where 6: "set_u32 ar5 (off + 20) 0 = Some ar6"
    using set_u32_total [OF al(5), of ar5 0] assms(2) a3 cell_alen(2) [OF 4] cell_alen(2) [OF 5] by auto
  have "same_outside {off..<off + 36} ar ar6"
    using cell_frame(2) [OF 1] cell_frame(2) [OF 2] cell_frame(2) [OF 3] cell_frame(2) [OF 4] cell_frame(2) [OF 5] cell_frame(2) [OF 6]
    by (auto simp: same_outside_def)
  then show thesis using that 1 2 3 4 5 6 by (simp add: cell_simps)
qed

lemma list_create_ok:
  assumes "off mod 4 = 0" "c mod 4 = 0" "0 < c" "0 < n" "off + 36 + n * (c + 20) \<le> alen ar" "alen ar < 2 ^ 32"
  shows "\<exists>ar'. list_create n c ar off = Some (Inr (bl_hdl off n c 20, ar')) \<and> bl_at off n c ar' [0..<n] \<and>
    load_u32 ar' (off + 20) = Some 0 \<and> same_outside {off..<off + bl_need n c} ar ar'"
proof -
  let ?b = "bl_hdl off n c 20" and ?t = "(n - 1) * (c + 20)" and ?l = "lbuf off c (n - 1)"
  have g: "off + 36 + n * (c + 20) < 2 ^ 32" using assms(5,6) by simp
  have nc: "count_buffer_list_mem_size n c = Some (bl_need n c)" using count_mem_size [of n c] g assms(4) by simp
  have le: "?l + c + 20 \<le> off + 36 + n * (c + 20)" using lbuf_end [of "n - 1" n off c] assms(4) by simp
  then have t: "?t < 2 ^ 32" "c + 20 < 2 ^ 32" using g by (simp_all add: lbuf_def)
  have len: "off + 36 \<le> alen ar" using assms(5) by simp
  obtain ar1 ar2 ar3 ar4 ar5 ar6 where w: "set_u32 ar off n = Some ar1" "set_u32 ar1 (off + 4) n = Some ar2"
    "set_u32 ar2 (off + 8) 0 = Some ar3" "set_u32 ar3 (off + 12) ?t = Some ar4" "set_u32 ar4 (off + 16) c = Some ar5"
    "set_u32 ar5 (off + 20) 0 = Some ar6" and f6: "same_outside {off..<off + 36} ar ar6"
    and r6: "load_u32 ar6 off = Some (of_nat n)" "load_u32 ar6 (off + 4) = Some (of_nat n)" "load_u32 ar6 (off + 8) = Some 0"
    "load_u32 ar6 (off + 12) = Some (of_nat ?t)" "load_u32 ar6 (off + 16) = Some (of_nat c)" "load_u32 ar6 (off + 20) = Some 0"
    using header_written [OF assms(1) len, of n ?t c] by blast
  obtain ar7 where 7: "init_buffers (off + 36) c n 0 ar6 = Some ar7" "\<And>j. j < n \<Longrightarrow> fresh_header off n c j ar7"
    "same_outside {lbuf off c 0..<lbuf off c n} ar6 ar7"
    using init_buffers_ok [OF assms(1,2) _ g, of ar6 0 n] assms(5) same_outside_alen [OF f6] by auto
  have r7: "load_u32 ar7 (off + d) = load_u32 ar6 (off + d)" if "d + 4 \<le> 36" for d
    using load_u32_frame [OF 7(3), of "off + d"] that by (auto simp: lbuf_def disjoint_iff)
  have gt: "get_u32 ar7 (off + 12) = Some ?t"
    using r7 [of 12] r6(4) t(1) by (simp add: get_u32_def unat_of_nat take_bit_nat_eq_self del: of_nat_mult)
  have "(?l + 16) mod 4 = 0" using lbuf_aligned [OF assms(1,2), of "n - 1"] by presburger
  moreover have al: "alen ar7 = alen ar" using same_outside_alen [OF f6] same_outside_alen [OF 7(3)] by simp
  ultimately obtain ar8 where 8: "set_u32 ar7 (?l + 16) 0 = Some ar8"
    using set_u32_total [of "?l + 16" ar7 0] le assms(5) by auto
  have r8: "load_u32 ar8 p = load_u32 ar7 p" if "p \<noteq> ?l + 16" for p using load_set_u32 [OF 8, of p] that by simp
  have hn: "bh_has_next ar8 (lbuf off c j) = bh_has_next ar7 (lbuf off c j)" if "j \<noteq> n - 1" for j
    using get_u8_set_u32 [OF 8, of "lbuf off c j + 16"] lbuf_byte_order [OF that, of 16 16 off c] by (simp add: bh_defs)
  have at: "bl_at off n c ar8 [0..<n]"
  proof (rule bl_at_words)
    show "bl_geometry off n c ar8" using assms(1-3,5) g al cell_alen(2) [OF 8] by (simp add: bl_geometry_def)
    show "\<forall>j < n. load_u32 ar8 (lbuf off c j) = Some (of_nat c)" using 7(2) r8 by (simp add: fresh_header_def)
    show "\<forall>j \<in> set [0..<n]. load_u32 ar8 (lbuf off c j + 4) = Some 0 \<and> load_u32 ar8 (lbuf off c j + 8) = Some 0"
      using 7(2) r8 by (simp add: fresh_header_def)
    show "\<forall>i. Suc i < length [0..<n] \<longrightarrow> bh_has_next ar8 (lbuf off c ([0..<n] ! i)) = Some True \<and>
      load_u32 ar8 (lbuf off c ([0..<n] ! i) + 12) = Some (of_nat ([0..<n] ! Suc i * (c + 20)))"
    proof (intro allI impI)
      fix i assume "Suc i < length [0..<n]"
      then show "bh_has_next ar8 (lbuf off c ([0..<n] ! i)) = Some True \<and>
        load_u32 ar8 (lbuf off c ([0..<n] ! i) + 12) = Some (of_nat ([0..<n] ! Suc i * (c + 20)))"
        using 7(2) [of i] r8 hn [of i] by (simp add: fresh_header_def del: of_nat_mult)
    qed
  qed (use assms(4) r6 r7 [of 0] r7 r8 in \<open>simp_all add: last_conv_nth hd_conv_nth del: of_nat_mult\<close>)
  have fr: "same_outside {off..<off + bl_need n c} ar ar8" (is "same_outside ?F _ _")
  proof -
    have "same_outside ?F ar ar6" using f6 by (rule same_outside_mono) (auto simp: bl_need_def)
    also have "same_outside ?F ar6 ar7" using 7(3) by (rule same_outside_mono) (auto simp: bl_need_def lbuf_def)
    also have "same_outside ?F ar7 ar8" using cell_frame(2) [OF 8]
      by (rule same_outside_mono) (use le in \<open>auto simp: bl_need_def lbuf_def\<close>)
    finally show ?thesis .
  qed
  have "list_create n c ar off = Some (Inr (?b, ar8))"
  proof -
    have "u32_add off (bl_need n c) = Some (off + bl_need n c)" "u32_add off 36 = Some (off + 36)" "u32_add c 20 = Some (c + 20)"
      "u32_mul (n - 1) (c + 20) = Some ?t"
      using g t by (simp_all add: u32_add_def u32_mul_def bl_need_def)
    moreover have "\<not> (alen ar mod 2 ^ 32 < off + bl_need n c \<or> off > alen ar mod 2 ^ 32 \<or> bl_need n c > alen ar mod 2 ^ 32)"
      "\<not> off + bl_need n c \<le> off + 36" using assms(3-6) by (simp_all add: bl_need_def)
    ultimately show ?thesis unfolding list_create_def using assms(3,4) nc w 7(1) gt 8 [unfolded lbuf_def]
      by (simp add: BUFFER_LIST_HEADER_SIZE_def BUFFER_HEADER_SIZE_def bh_layout)
  qed
  then show ?thesis using at fr r8 [of "off + 20"] r7 [of 20] r6(6) by auto
qed

lemma list_mapping_ok:
  assumes "bl_at off n c ar ks" "alen ar < 2 ^ 32"
  shows "list_mapping ar off = Some (Inr (bl_hdl off n c 24))"
proof -
  note q = bl_atD [OF assms(1)]
  have "0 < n" using q(6,8) by (cases ks) auto
  then have "count_buffer_list_mem_size n c = Some (bl_need n c)" using count_mem_size [of n c] q(5) by simp
  moreover have "u32_add off 36 = Some (off + 36)" "u32_add off (bl_need n c) = Some (off + bl_need n c)"
    using q(5) by (simp_all add: u32_add_def bl_need_def)
  moreover have "\<not> alen ar < off + 36" "\<not> (off + bl_need n c > alen ar mod 2 ^ 32 \<or> off + bl_need n c < off + 36)"
    using q(4) assms(2) by (simp_all add: bl_need_def)
  ultimately show ?thesis using q(10,13) by (simp add: list_mapping_def BUFFER_LIST_HEADER_SIZE_def)
qed

end
