(* ===== verification/Buffer_Manager.thy ===== *)
theory Buffer_Manager
  imports Buffer_List Config
begin

text \<open>
  The pool of free lists in one mapping, \<open>src/buffer/manager.rs\<close>. The mapping is an argument of the
  operations; the table of managers by path is a map. Results of system calls are arguments. Walking a
  chain of slices in \<open>recycle_buffers\<close> takes fuel, since a corrupted mapping may hold a cycle.
\<close>

section \<open>Constants and state\<close>

definition BUFFER_MANAGER_HEADER_SIZE :: nat where "BUFFER_MANAGER_HEADER_SIZE = 8"
definition BM_CAP_OFFSET :: nat where "BM_CAP_OFFSET = 4"

record buffer_manager =
  bm_lists :: "buffer_list list"
  bm_min_slice_size :: nat
  bm_max_slice_size :: nat
  bm_ref_count :: int
  bm_mem_map_type :: mem_map_type
  bm_path :: string
  bm_memfd :: int

text \<open>The 16-bit number of lists at the start of the mapping.\<close>

definition get_u16 :: "arena \<Rightarrow> nat \<Rightarrow> nat option" where
  "get_u16 ar p = (if p mod 2 \<noteq> 0 then None else map_option le_nat (arena_get ar p (p + 2)))"

definition set_u16 :: "arena \<Rightarrow> nat \<Rightarrow> nat \<Rightarrow> arena option" where
  "set_u16 ar p n = (if p mod 2 \<noteq> 0 then None else arena_put ar p (le_bytes 2 (n mod 2 ^ 16)))"

section \<open>Creating and mapping\<close>

fun create_lists :: "nat \<Rightarrow> size_percent_pair list \<Rightarrow> nat \<Rightarrow> nat \<Rightarrow> arena \<Rightarrow>
    (string + buffer_list list \<times> nat \<times> arena) option" where
  "create_lists region_cap [] sum_percent used ar = Some (Inr ([], used, ar))"
| "create_lists region_cap (p # ps) sum_percent used ar = do {
     sum_percent \<leftarrow> u32_add sum_percent (sp_percent p);
     if sum_percent > 100 then Some (Inl ''the sum of all size_percent_pairs's percent must be equals 100'')
     else do {
       one \<leftarrow> u32_add (sp_size p) BUFFER_HEADER_SIZE;
       let buffer_num = (region_cap * sp_percent p div 100) mod 2 ^ 32 div one;
       need \<leftarrow> count_buffer_list_mem_size buffer_num (sp_size p);
       r \<leftarrow> list_create buffer_num (sp_size p) ar used;
       case r of
         Inl e \<Rightarrow> Some (Inl e)
       | Inr (b, ar) \<Rightarrow> do {
           used \<leftarrow> u32_add used need;
           r \<leftarrow> create_lists region_cap ps sum_percent used ar;
           case r of
             Inl e \<Rightarrow> Some (Inl e)
           | Inr (bs, used, ar) \<Rightarrow> Some (Inr (b # bs, used, ar))
         }
     }
   }"

definition bm_create :: "size_percent_pair list \<Rightarrow> string \<Rightarrow> arena \<Rightarrow> nat \<Rightarrow> (string + buffer_manager \<times> arena) option" where
  "bm_create pairs path ar offset =
     (if alen ar \<le> offset then Some (Inl ''mem's size is too small'')
      else do {
        a \<leftarrow> checked_sub (alen ar mod 2 ^ 32) offset;
        hs \<leftarrow> u32_mul BUFFER_LIST_HEADER_SIZE (length pairs mod 2 ^ 32);
        b \<leftarrow> checked_sub a hs;
        region_cap \<leftarrow> checked_sub b BUFFER_MANAGER_HEADER_SIZE;
        ar \<leftarrow> set_u16 ar offset (length pairs);
        used \<leftarrow> u32_add BUFFER_MANAGER_HEADER_SIZE offset;
        r \<leftarrow> create_lists region_cap pairs 0 used ar;
        case r of
          Inl e \<Rightarrow> Some (Inl e)
        | Inr (bls, used, ar) \<Rightarrow> do {
            len \<leftarrow> checked_sub used BUFFER_MANAGER_HEADER_SIZE;
            ar \<leftarrow> set_u32 ar (offset + BM_CAP_OFFSET) len;
            first \<leftarrow> vec_get pairs 0;
            Some (Inr (\<lparr> bm_lists = bls, bm_min_slice_size = sp_size first,
                        bm_max_slice_size = sp_size (last pairs), bm_ref_count = 1,
                        bm_mem_map_type = MemMapTypeMemFd, bm_path = path, bm_memfd = 0 \<rparr>, ar))
          }
      })"

fun map_lists :: "arena \<Rightarrow> nat \<Rightarrow> nat \<Rightarrow> nat \<Rightarrow> (string + buffer_list list) option" where
  "map_lists ar start 0 used = Some (Inr [])"
| "map_lists ar start (Suc k) used = do {
     at_off \<leftarrow> u32_add start used;
     r \<leftarrow> list_mapping ar at_off;
     case r of
       Inl e \<Rightarrow> Some (Inl e)
     | Inr b \<Rightarrow> do {
         cap \<leftarrow> get_u32 ar (bl_cap b);
         per \<leftarrow> get_u32 ar (bl_cap_per_buffer b);
         sz \<leftarrow> count_buffer_list_mem_size cap per;
         used \<leftarrow> u32_add used sz;
         r \<leftarrow> map_lists ar start k used;
         case r of Inl e \<Rightarrow> Some (Inl e) | Inr bs \<Rightarrow> Some (Inr (b # bs))
       }
   }"

definition bm_mapping :: "string \<Rightarrow> arena \<Rightarrow> nat \<Rightarrow> (string + buffer_manager) option" where
  "bm_mapping path ar start = do {
     c \<leftarrow> u32_add start BM_CAP_OFFSET;
     if alen ar \<le> c \<or> alen ar \<le> start then Some (Inl ''mem's size is too small'')
     else do {
       list_num \<leftarrow> get_u16 ar start;
       len \<leftarrow> get_u32 ar (start + BM_CAP_OFFSET);
       whole \<leftarrow> u32_add BUFFER_MANAGER_HEADER_SIZE len;
       if alen ar < whole \<or> list_num = 0 then Some (Inl ''could not mapping buffer manager'')
       else do {
         r \<leftarrow> map_lists ar start list_num BUFFER_MANAGER_HEADER_SIZE;
         case r of
           Inl e \<Rightarrow> Some (Inl e)
         | Inr bls \<Rightarrow> do {
             lo \<leftarrow> get_u32 ar (bl_cap_per_buffer (hd bls));
             hi \<leftarrow> get_u32 ar (bl_cap_per_buffer (last bls));
             Some (Inr \<lparr> bm_lists = bls, bm_min_slice_size = lo, bm_max_slice_size = hi, bm_ref_count = 1,
                         bm_mem_map_type = MemMapTypeMemFd, bm_path = path, bm_memfd = 0 \<rparr>)
           }
       }
     }
   }"

section \<open>The table of managers\<close>

type_synonym managers = "string \<Rightarrow> buffer_manager option"

text \<open>
  The manager for a path: an entry of the table is shared and counted, otherwise the manager is made in a
  new mapping, or mapped, and entered. The second result is the new mapping, the third whether the
  descriptor passed in was closed. Sorting by size is stable.
\<close>

definition by_size :: "size_percent_pair list \<Rightarrow> size_percent_pair list" where
  "by_size ps = sort_key sp_size ps"

definition bm_open :: "managers \<Rightarrow> string \<Rightarrow> bool \<Rightarrow> size_percent_pair list \<Rightarrow> ipc_error + arena \<Rightarrow> mem_map_type \<Rightarrow> int \<Rightarrow>
    (managers \<times> (ipc_error + buffer_manager \<times> arena)) option" where
  "bm_open bms path create pairs mem ty memfd =
     (case mem of
        Inl e \<Rightarrow> Some (bms, Inl e)
      | Inr ar \<Rightarrow> do {
          r \<leftarrow> (if create then bm_create (by_size pairs) path ar 0
                else map_option (map_sum id (\<lambda>bm. (bm, ar))) (bm_mapping path ar 0));
          case r of
            Inl e \<Rightarrow> Some (bms, Inl (Others e))
          | Inr (bm, ar) \<Rightarrow>
              (let bm = bm \<lparr> bm_memfd := memfd, bm_mem_map_type := ty \<rparr> in Some (bms(path \<mapsto> bm), Inr (bm, ar)))
        })"

definition bump_ref :: "managers \<Rightarrow> string \<Rightarrow> buffer_manager \<Rightarrow> managers \<times> buffer_manager" where
  "bump_ref bms path bm = (let bm = bm \<lparr> bm_ref_count := bm_ref_count bm + 1 \<rparr> in (bms(path \<mapsto> bm), bm))"

definition get_with_memfd ::
  "managers \<Rightarrow> string \<Rightarrow> int \<Rightarrow> nat \<Rightarrow> bool \<Rightarrow> size_percent_pair list \<Rightarrow> ipc_error + int \<Rightarrow> ipc_error + unit \<Rightarrow> ipc_error + int \<Rightarrow>
   (nat \<Rightarrow> ipc_error + arena) \<Rightarrow> (managers \<times> (ipc_error + buffer_manager \<times> arena option) \<times> bool) option" where
  "get_with_memfd bms path memfd capacity create pairs fd trunc st_size mem =
     (case bms path of
        Some bm \<Rightarrow> (case bump_ref bms path bm of (bms, bm) \<Rightarrow> Some (bms, Inr (bm, None), memfd > 0 \<and> \<not> create))
      | None \<Rightarrow>
          let opened = (if create
            then (case fd of Inl e \<Rightarrow> Some (Inl (Others ''BufferManager get_with_memfd memfd_create failed''))
                  | Inr f \<Rightarrow> (case trunc of
                      Inl e \<Rightarrow> Some (Inl (Others ''BufferManager get_with_memfd truncate share memory failed''))
                    | Inr _ \<Rightarrow> Some (Inr (f, capacity))))
            else (case st_size of Inl e \<Rightarrow> Some (Inl (Others ''BufferManager get_with_memfd mapping failed''))
                  | Inr n \<Rightarrow> if n < 0 \<or> n > 2 ^ 32 - 1
                      then Some (Inl (Others ''BufferManager get_with_memfd invalid share memory size''))
                      else Some (Inr (memfd, nat n)))) in
          if create \<and> CHR 0x00 \<in> set path then None
          else do {
            r \<leftarrow> opened;
            case r of
              Inl e \<Rightarrow> Some (bms, Inl e, False)
            | Inr (f, cap) \<Rightarrow> do {
                (bms, r) \<leftarrow> bm_open bms path create pairs (mem cap) MemMapTypeMemFd f;
                Some (bms, map_sum id (\<lambda>(bm, ar). (bm, Some ar)) r, False)
              }
          })"

definition get_with_file ::
  "managers \<Rightarrow> string \<Rightarrow> nat \<Rightarrow> bool \<Rightarrow> size_percent_pair list \<Rightarrow> (nat \<Rightarrow> bool) \<Rightarrow> ipc_error + unit \<Rightarrow> ipc_error + nat \<Rightarrow>
   (nat \<Rightarrow> ipc_error + arena) \<Rightarrow> (managers \<times> (ipc_error + buffer_manager \<times> arena option)) option" where
  "get_with_file bms path capacity create pairs room file file_len mem =
     (case bms path of
        Some bm \<Rightarrow> (case bump_ref bms path bm of (bms, bm) \<Rightarrow> Some (bms, Inr (bm, None)))
      | None \<Rightarrow>
          let opened = (if create
            then (if \<not> room capacity then Inl (Others ''get_global_buffer_manager can not create on dev shm'')
                  else map_sum id (\<lambda>_. capacity) file)
            else (case file_len of Inl e \<Rightarrow> Inl e
                  | Inr n \<Rightarrow> if n > 2 ^ 32 - 1
                      then Inl (Others ''get_global_buffer_manager invalid share memory size'') else Inr n)) in
          case opened of
            Inl e \<Rightarrow> Some (bms, Inl e)
          | Inr cap \<Rightarrow> do {
              (bms, r) \<leftarrow> bm_open bms path create pairs (mem cap) MemMapTypeDevShmFile 0;
              Some (bms, map_sum id (\<lambda>(bm, ar). (bm, Some ar)) r)
            })"

text \<open>The manager to unmap, if its count fell to zero.\<close>

definition add_ref_count :: "managers \<Rightarrow> string \<Rightarrow> int \<Rightarrow> managers \<times> buffer_manager option" where
  "add_ref_count bms path c =
     (case bms path of
        None \<Rightarrow> (bms, None)
      | Some bm \<Rightarrow>
          let bm = bm \<lparr> bm_ref_count := bm_ref_count bm + c \<rparr> in
          if bm_ref_count bm \<le> 0 then (bms(path := None), Some bm) else (bms(path \<mapsto> bm), None))"

definition bm_unmap :: "buffer_manager \<Rightarrow> unmap_request" where
  "bm_unmap m = (if bm_mem_map_type m = MemMapTypeDevShmFile then RemoveFile (bm_path m) else CloseFd (bm_memfd m))"

section \<open>Allocating and recycling\<close>

fun remain_sum :: "buffer_list list \<Rightarrow> arena \<Rightarrow> nat \<Rightarrow> nat option" where
  "remain_sum [] ar acc = Some acc"
| "remain_sum (b # bs) ar acc = do {
     n \<leftarrow> load_u32 ar (bl_size b);
     per \<leftarrow> get_u32 ar (bl_cap_per_buffer b);
     let remain = sint n * int per;
     acc \<leftarrow> (if remain > 0 then u32_add acc (nat remain mod 2 ^ 32) else Some acc);
     remain_sum bs ar acc
   }"

definition bm_remain_size :: "buffer_manager \<Rightarrow> arena \<Rightarrow> nat option" where
  "bm_remain_size m ar = remain_sum (bm_lists m) ar 0"

fun pop_fitting :: "buffer_list list \<Rightarrow> arena \<Rightarrow> nat \<Rightarrow> (arena \<times> (ipc_error + buffer_slice)) option" where
  "pop_fitting [] ar n = Some (ar, Inl NoMoreBuffer)"
| "pop_fitting (b # bs) ar n = do {
     per \<leftarrow> get_u32 ar (bl_cap_per_buffer b);
     if n \<le> per then do {
       (ar, r) \<leftarrow> list_pop b ar;
       case r of
         Inr s \<Rightarrow> Some (ar, Inr s)
       | Inl e \<Rightarrow> if e = NoMoreBuffer then pop_fitting bs ar n else Some (ar, Inl e)
     }
     else pop_fitting bs ar n
   }"

definition alloc_shm_buffer :: "buffer_manager \<Rightarrow> arena \<Rightarrow> nat \<Rightarrow> (arena \<times> (ipc_error + buffer_slice)) option" where
  "alloc_shm_buffer m ar n =
     (if n \<le> bm_max_slice_size m then pop_fitting (bm_lists m) ar n else Some (ar, Inl NoMoreBuffer))"

text \<open>Popping one list until it refuses or enough was taken.\<close>

partial_function (option) pop_many :: "buffer_list \<Rightarrow> arena \<Rightarrow> slice_list \<Rightarrow> int \<Rightarrow> int \<Rightarrow>
    (arena \<times> slice_list \<times> int \<times> int) option" where
  "pop_many b ar sl remain got =
     (if remain > 0 then
        Option.bind (list_pop b ar) (\<lambda>(ar, r).
          case r of
            Inl e \<Rightarrow> Some (ar, sl, remain, got)
          | Inr s \<Rightarrow> pop_many b ar (sl_push_back sl s) (remain - int (bs_cap s)) (got + int (bs_cap s)))
      else Some (ar, sl, remain, got))"

fun pop_lists :: "buffer_list list \<Rightarrow> arena \<Rightarrow> slice_list \<Rightarrow> int \<Rightarrow> int \<Rightarrow> (arena \<times> slice_list \<times> int) option" where
  "pop_lists [] ar sl remain got = Some (ar, sl, got)"
| "pop_lists (b # bs) ar sl remain got =
     (if remain > 0 then do {
        (ar, sl, remain, got) \<leftarrow> pop_many b ar sl remain got;
        pop_lists bs ar sl remain got
      }
      else Some (ar, sl, got))"

definition alloc_shm_buffers :: "buffer_manager \<Rightarrow> arena \<Rightarrow> slice_list \<Rightarrow> nat \<Rightarrow> (arena \<times> slice_list \<times> int) option" where
  "alloc_shm_buffers m ar sl n = pop_lists (rev (bm_lists m)) ar sl (int n) 0"

fun push_matching :: "buffer_list list \<Rightarrow> arena \<Rightarrow> buffer_slice \<Rightarrow> arena option" where
  "push_matching [] ar s = Some ar"
| "push_matching (b # bs) ar s = do {
     per \<leftarrow> get_u32 ar (bl_cap_per_buffer b);
     if bs_cap s = per then list_push b ar s else push_matching bs ar s
   }"

definition recycle_buffer :: "buffer_manager \<Rightarrow> arena \<Rightarrow> buffer_slice \<Rightarrow> arena option" where
  "recycle_buffer m ar s =
     (if bs_is_from_shm s then
        (if bs_header s = None then Some ar else push_matching (bm_lists m) ar s)
      else Some ar)"

definition read_buffer_slice :: "arena \<Rightarrow> nat \<Rightarrow> (string + buffer_slice) option" where
  "read_buffer_slice ar offset = do {
     e \<leftarrow> u32_add offset BUFFER_HEADER_SIZE;
     if e \<ge> alen ar then Some (Inl ''broken share memory. readBufferSlice unexpect offset'')
     else do {
       cap \<leftarrow> get_u32 ar (offset + BUFFER_CAP_OFFSET);
       buf_end \<leftarrow> u32_add e cap;
       if buf_end > alen ar mod 2 ^ 32 then Some (Inl ''broken share memory. readBufferSlice unexpect buffer_end_offset'')
       else map_option Inr (slice_new ar (Some offset) (InShm (offset + BUFFER_HEADER_SIZE)) (buf_end - e) offset True)
     }
   }"

fun recycle_chain :: "nat \<Rightarrow> buffer_manager \<Rightarrow> arena \<Rightarrow> buffer_slice \<Rightarrow> arena option" where
  "recycle_chain 0 m ar s = None"
| "recycle_chain (Suc fuel) m ar s = do {
     h \<leftarrow> bs_header s;
     more \<leftarrow> bh_has_next ar h;
     if \<not> more then recycle_buffer m ar s
     else do {
       nx \<leftarrow> next_buffer_offset ar h;
       ar \<leftarrow> recycle_buffer m ar s;
       r \<leftarrow> read_buffer_slice ar nx;
       case r of Inl e \<Rightarrow> Some ar | Inr t \<Rightarrow> recycle_chain fuel m ar t
     }
   }"

definition recycle_buffers :: "nat \<Rightarrow> buffer_manager \<Rightarrow> arena \<Rightarrow> buffer_slice \<Rightarrow> arena option" where
  "recycle_buffers fuel m ar s = (if bs_is_from_shm s then recycle_chain fuel m ar s else Some ar)"

fun sum_sizes :: "buffer_list list \<Rightarrow> arena \<Rightarrow> int option" where
  "sum_sizes [] ar = Some 0"
| "sum_sizes (b # bs) ar = do { n \<leftarrow> load_u32 ar (bl_size b); t \<leftarrow> sum_sizes bs ar; Some (sint n + t) }"

definition bm_slice_size :: "buffer_manager \<Rightarrow> arena \<Rightarrow> int option" where
  "bm_slice_size m ar = sum_sizes (bm_lists m) ar"

fun all_returned :: "buffer_list list \<Rightarrow> arena \<Rightarrow> bool option" where
  "all_returned [] ar = Some True"
| "all_returned (b # bs) ar = do {
     n \<leftarrow> load_u32 ar (bl_size b);
     cap \<leftarrow> load_u32 ar (bl_cap b);
     if n \<noteq> cap then Some False
     else do {
       c \<leftarrow> load_u32 ar (bl_counter b);
       if c \<noteq> 0 then Some False else all_returned bs ar
     }
   }"

definition check_buffer_returned :: "buffer_manager \<Rightarrow> arena \<Rightarrow> bool option" where
  "check_buffer_returned m ar = all_returned (bm_lists m) ar"

end
