(* ===== verification/Buffer_Pool.thy ===== *)
theory Buffer_Pool
  imports Buffer_Manager
begin

text \<open>
  The free lists of one buffer manager together: the layout that \<open>bm_create\<close> writes and \<open>bm_mapping\<close> finds, and
  the buffers that are taken from the lists and returned by the two processes.
\<close>

section \<open>Several lists in one mapping\<close>

text \<open>A geometry lists, for every free list, its offset, its number of buffers and their capacity.\<close>

type_synonym geometry = "(nat \<times> nat \<times> nat) list"

abbreviation g_off :: "nat \<times> nat \<times> nat \<Rightarrow> nat" where "g_off g \<equiv> fst g"
abbreviation g_num :: "nat \<times> nat \<times> nat \<Rightarrow> nat" where "g_num g \<equiv> fst (snd g)"
abbreviation g_cap :: "nat \<times> nat \<times> nat \<Rightarrow> nat" where "g_cap g \<equiv> snd (snd g)"

definition g_ext :: "nat \<times> nat \<times> nat \<Rightarrow> nat set" where
  "g_ext g = {g_off g..<g_off g + bl_need (g_num g) (g_cap g)}"

definition g_hdl :: "nat \<Rightarrow> nat \<times> nat \<times> nat \<Rightarrow> buffer_list" where
  "g_hdl cnt g = bl_hdl (g_off g) (g_num g) (g_cap g) cnt"

definition g_buf :: "nat \<times> nat \<times> nat \<Rightarrow> nat \<Rightarrow> nat" where
  "g_buf g k = lbuf (g_off g) (g_cap g) k"

definition g_at :: "nat \<times> nat \<times> nat \<Rightarrow> arena \<Rightarrow> nat list \<Rightarrow> bool" where
  "g_at g ar ks = bl_at (g_off g) (g_num g) (g_cap g) ar ks"

definition pool_at :: "geometry \<Rightarrow> arena \<Rightarrow> nat list list \<Rightarrow> bool" where
  "pool_at gs ar Fs \<longleftrightarrow> length Fs = length gs \<and> (\<forall>i < length gs. g_at (gs ! i) ar (Fs ! i)) \<and>
     (\<forall>i < length gs. \<forall>j < length gs. i \<noteq> j \<longrightarrow> g_ext (gs ! i) \<inter> g_ext (gs ! j) = {})"

lemma g_key_ext:
  assumes "\<forall>k \<in> K. k < g_num g"
  shows "bl_key (g_off g) (g_num g) (g_cap g) K \<subseteq> g_ext g"
proof -
  have "{lbuf (g_off g) (g_cap g) k..<lbuf (g_off g) (g_cap g) k + 20} \<subseteq> g_ext g" if "k < g_num g" for k
    using lbuf_end [OF that, of "g_off g" "g_cap g"] by (auto simp: g_ext_def bl_need_def lbuf_def)
  moreover have "{lbuf (g_off g) (g_cap g) k..<lbuf (g_off g) (g_cap g) k + 4} \<subseteq> {lbuf (g_off g) (g_cap g) k..<lbuf (g_off g) (g_cap g) k + 20}" for k
    by auto
  moreover have "{g_off g..<g_off g + 20} \<subseteq> g_ext g" by (auto simp: g_ext_def bl_need_def)
  ultimately show ?thesis using assms unfolding bl_key_def by blast
qed

lemma g_at_frame:
  assumes "g_at g ar ks" "same_outside S ar ar'" "g_ext g \<inter> S = {}"
  shows "g_at g ar' ks"
  using bl_at_frame [OF assms(1) [unfolded g_at_def] assms(2)] g_key_ext [of "set ks" g] bl_atD(8) [OF assms(1) [unfolded g_at_def]] assms(3)
  unfolding g_at_def by blast

text \<open>Changing one list inside its own bytes keeps the others.\<close>

lemma pool_at_update:
  assumes "pool_at gs ar Fs" "i < length gs" "same_outside S ar ar'" "S \<subseteq> g_ext (gs ! i)" "g_at (gs ! i) ar' fs"
  shows "pool_at gs ar' (Fs [i := fs])"
proof -
  have "g_at (gs ! j) ar' (Fs [i := fs] ! j)" if j: "j < length gs" for j
  proof (cases "j = i")
    case False
    then have "g_ext (gs ! j) \<inter> S = {}" using assms(1,2,4) j unfolding pool_at_def by blast
    then show ?thesis using g_at_frame [OF _ assms(3)] assms(1) j False by (simp add: pool_at_def)
  qed (use assms(1,2,5) in \<open>simp add: pool_at_def\<close>)
  then show ?thesis using assms(1) by (simp add: pool_at_def)
qed

lemma g_hdr_ext: "k < g_num g \<Longrightarrow> {g_buf g k..<g_buf g k + 20} \<subseteq> g_ext g" "{g_off g..<g_off g + 36} \<subseteq> g_ext g"
  using lbuf_end [of k "g_num g" "g_off g" "g_cap g"] by (auto simp: g_ext_def bl_need_def lbuf_def g_buf_def)

definition g_slice :: "nat \<times> nat \<times> nat \<Rightarrow> nat \<Rightarrow> buffer_slice" where
  "g_slice g k = slice_of (g_off g) (g_cap g) k"

text \<open>The handles of the two processes differ in the place of the counter.\<close>

definition side_counter :: "nat \<Rightarrow> bool" where
  "side_counter cnt \<longleftrightarrow> cnt = 20 \<or> cnt = 24"

lemma side_counterD: "side_counter cnt \<Longrightarrow> 20 \<le> cnt \<and> cnt + 4 \<le> 36 \<and> cnt mod 4 = 0"
  by (auto simp: side_counter_def)

lemma g_pop_cases:
  assumes "pool_at gs ar Fs" "i < length gs" "side_counter cnt"
  obtains (refuse) ar' k where "Fs ! i = [k]" "list_pop (g_hdl cnt (gs ! i)) ar = Some (ar', Inl NoMoreBuffer)" "pool_at gs ar' Fs"
      "same_outside {g_off (gs ! i)..<g_off (gs ! i) + 36} ar ar'"
  | (take_one) ar' k fs where "Fs ! i = k # fs" "fs \<noteq> []" "list_pop (g_hdl cnt (gs ! i)) ar = Some (ar', Inr (g_slice (gs ! i) k))"
      "pool_at gs ar' (Fs [i := fs])" "bh_flag ar' (g_buf (gs ! i) k) = Some SLICE_IN_USED_FLAG"
      "same_outside ({g_off (gs ! i)..<g_off (gs ! i) + 36} \<union> {g_buf (gs ! i) k..<g_buf (gs ! i) k + 20}) ar ar'"
proof -
  let ?g = "gs ! i"
  have at: "g_at ?g ar (Fs ! i)" using assms(1,2) by (simp add: pool_at_def)
  consider k where "Fs ! i = [k]" | k j ks where "Fs ! i = k # j # ks"
    using bl_atD(6) [OF at [unfolded g_at_def]] by (metis neq_Nil_conv)
  then show thesis
  proof cases
    case 1
    then obtain ar' where "list_pop (g_hdl cnt ?g) ar = Some (ar', Inl NoMoreBuffer)" "g_at ?g ar' [k]"
      and so: "same_outside {g_off ?g..<g_off ?g + 4} ar ar'"
      using list_pop_last [of "g_off ?g" "g_num ?g" "g_cap ?g" ar k cnt] at by (auto simp: g_at_def g_hdl_def)
    moreover have so2: "same_outside {g_off ?g..<g_off ?g + 36} ar ar'" using so by (rule same_outside_mono) auto
    moreover have "pool_at gs ar' Fs"
      using pool_at_update [OF assms(1,2) so2 g_hdr_ext(2), of "[k]"] \<open>g_at ?g ar' [k]\<close> 1 by (metis list_update_id)
    ultimately show thesis using refuse 1 by simp
  next
    case 2
    then obtain ar' where r: "list_pop (g_hdl cnt ?g) ar = Some (ar', Inr (g_slice ?g k))" "g_at ?g ar' (j # ks)"
      "bh_flag ar' (g_buf ?g k) = Some SLICE_IN_USED_FLAG"
      and so: "same_outside ({g_off ?g..<g_off ?g + 36} \<union> {g_buf ?g k..<g_buf ?g k + 20}) ar ar'"
      using list_pop_next [of "g_off ?g" "g_num ?g" "g_cap ?g" ar k j ks cnt] at side_counterD [OF assms(3)]
      by (auto simp: g_at_def g_hdl_def g_slice_def g_buf_def)
    have "k < g_num ?g" using at 2 bl_atD(8) [of "g_off ?g" "g_num ?g" "g_cap ?g" ar "k # j # ks"] by (simp add: g_at_def)
    then have "pool_at gs ar' (Fs [i := j # ks])"
      using pool_at_update [OF assms(1,2) so _ r(2)] g_hdr_ext by blast
    then show thesis using take_one [OF 2] r so by simp
  qed
qed

lemma g_cap_read: "pool_at gs ar Fs \<Longrightarrow> i < length gs \<Longrightarrow> get_u32 ar (bl_cap_per_buffer (g_hdl cnt (gs ! i))) = Some (g_cap (gs ! i))"
  using bl_atD(13) [of "g_off (gs ! i)" "g_num (gs ! i)" "g_cap (gs ! i)" ar "Fs ! i"] by (simp add: pool_at_def g_at_def g_hdl_def)

text \<open>The header bytes of the lists, changed by every attempt to pop.\<close>

definition pool_meta :: "geometry \<Rightarrow> nat set" where
  "pool_meta gs = (\<Union>g \<in> set gs. {g_off g..<g_off g + 36})"

text \<open>No list from the \<open>i\<close>-th on can serve a request; \<open>j\<close> is the first one that can.\<close>

definition none_serves :: "geometry \<Rightarrow> nat list list \<Rightarrow> nat \<Rightarrow> nat \<Rightarrow> bool" where
  "none_serves gs Fs n i \<longleftrightarrow> (\<forall>j. i \<le> j \<longrightarrow> j < length gs \<longrightarrow> n \<le> g_cap (gs ! j) \<longrightarrow> length (Fs ! j) = 1)"

definition first_serves :: "geometry \<Rightarrow> nat list list \<Rightarrow> nat \<Rightarrow> nat \<Rightarrow> nat \<Rightarrow> bool" where
  "first_serves gs Fs n i j \<longleftrightarrow> i \<le> j \<and> j < length gs \<and> n \<le> g_cap (gs ! j) \<and> 1 < length (Fs ! j) \<and>
     (\<forall>l. i \<le> l \<longrightarrow> l < j \<longrightarrow> n \<le> g_cap (gs ! l) \<longrightarrow> length (Fs ! l) = 1)"

lemma serves_cases:
  assumes "pool_at gs ar Fs"
  obtains (none) "none_serves gs Fs n i" | (first) j where "first_serves gs Fs n i j"
proof (cases "none_serves gs Fs n i")
  case False
  let ?P = "\<lambda>j. i \<le> j \<and> j < length gs \<and> n \<le> g_cap (gs ! j) \<and> length (Fs ! j) \<noteq> 1"
  have ex: "\<exists>j. ?P j" using False unfolding none_serves_def by blast
  let ?j = "LEAST j. ?P j"
  have p: "?P ?j" using ex by (rule LeastI_ex)
  have nl: "\<not> ?P l" if "l < ?j" for l using that by (rule not_less_Least)
  have "Fs ! ?j \<noteq> []"
    using assms p bl_atD(6) [of "g_off (gs ! ?j)" "g_num (gs ! ?j)" "g_cap (gs ! ?j)" ar "Fs ! ?j"] by (simp add: pool_at_def g_at_def)
  then have "1 < length (Fs ! ?j)" using p by (cases "Fs ! ?j") auto
  moreover have "length (Fs ! l) = 1" if "i \<le> l" "l < ?j" "n \<le> g_cap (gs ! l)" for l
    using nl [OF that(2)] that p by (meson less_trans)
  ultimately have "first_serves gs Fs n i ?j" using p unfolding first_serves_def by blast
  then show thesis by (rule first)
qed (rule none)

lemma map_drop_step: "i < length gs \<Longrightarrow> map f (drop i gs) = f (gs ! i) # map f (drop (Suc i) gs)"
  by (simp add: Cons_nth_drop_Suc [symmetric])

lemma meta_mono: "i < length gs \<Longrightarrow> {g_off (gs ! i)..<g_off (gs ! i) + 36} \<subseteq> pool_meta gs"
  unfolding pool_meta_def by (rule UN_upper) simp

lemma pop_fitting_none:
  assumes "pool_at gs ar Fs" "side_counter cnt" "none_serves gs Fs n i" "i \<le> length gs"
  shows "\<exists>ar'. pop_fitting (map (g_hdl cnt) (drop i gs)) ar n = Some (ar', Inl NoMoreBuffer) \<and> pool_at gs ar' Fs \<and>
    same_outside (pool_meta gs) ar ar'"
  using assms(4,1,3)
proof (induction i arbitrary: ar rule: inc_induct)
  case base
  then show ?case by auto
next
  case (step i)
  have ns: "none_serves gs Fs n (Suc i)" using step.prems(2) by (simp add: none_serves_def)
  note cap = g_cap_read [OF step.prems(1) step.hyps(2), of cnt]
  show ?case
  proof (cases "n \<le> g_cap (gs ! i)")
    case True
    have "length (Fs ! i) = 1" using step.prems(2) step.hyps(2) True by (simp add: none_serves_def)
    then obtain ar1 where 1: "list_pop (g_hdl cnt (gs ! i)) ar = Some (ar1, Inl NoMoreBuffer)" "pool_at gs ar1 Fs"
      "same_outside {g_off (gs ! i)..<g_off (gs ! i) + 36} ar ar1"
      by (cases rule: g_pop_cases [OF step.prems(1) step.hyps(2) assms(2)]) auto
    obtain ar' where 2: "pop_fitting (map (g_hdl cnt) (drop (Suc i) gs)) ar1 n = Some (ar', Inl NoMoreBuffer)" "pool_at gs ar' Fs"
      "same_outside (pool_meta gs) ar1 ar'" using step.IH [OF 1(2) ns] by blast
    have "same_outside (pool_meta gs) ar ar'"
      using same_outside_trans [OF same_outside_mono [OF 1(3) meta_mono [OF step.hyps(2)]] 2(3)] .
    then show ?thesis using True cap 1(1) 2 by (simp add: map_drop_step [OF step.hyps(2)])
  next
    case False
    then show ?thesis using step.IH [OF step.prems(1) ns] cap by (simp add: map_drop_step [OF step.hyps(2)])
  qed
qed

lemma pop_fitting_found:
  assumes "pool_at gs ar Fs" "side_counter cnt" "first_serves gs Fs n i j"
  shows "\<exists>ar'. pop_fitting (map (g_hdl cnt) (drop i gs)) ar n = Some (ar', Inr (g_slice (gs ! j) (hd (Fs ! j)))) \<and>
    pool_at gs ar' (Fs [j := tl (Fs ! j)]) \<and> bh_flag ar' (g_buf (gs ! j) (hd (Fs ! j))) = Some SLICE_IN_USED_FLAG \<and>
    same_outside (pool_meta gs \<union> {g_buf (gs ! j) (hd (Fs ! j))..<g_buf (gs ! j) (hd (Fs ! j)) + 20}) ar ar'"
proof -
  let ?F = "pool_meta gs \<union> {g_buf (gs ! j) (hd (Fs ! j))..<g_buf (gs ! j) (hd (Fs ! j)) + 20}"
  have j: "i \<le> j" "j < length gs" using assms(3) by (auto simp: first_serves_def)
  show ?thesis
    using j(1) assms(1,3)
  proof (induction i arbitrary: ar rule: inc_induct)
    case base
    note cap = g_cap_read [OF base.prems(1) j(2), of cnt]
    have len: "n \<le> g_cap (gs ! j)" "1 < length (Fs ! j)" using base.prems(2) by (auto simp: first_serves_def)
    then obtain ar' where 1: "list_pop (g_hdl cnt (gs ! j)) ar = Some (ar', Inr (g_slice (gs ! j) (hd (Fs ! j))))"
      "pool_at gs ar' (Fs [j := tl (Fs ! j)])" "bh_flag ar' (g_buf (gs ! j) (hd (Fs ! j))) = Some SLICE_IN_USED_FLAG"
      "same_outside ({g_off (gs ! j)..<g_off (gs ! j) + 36} \<union> {g_buf (gs ! j) (hd (Fs ! j))..<g_buf (gs ! j) (hd (Fs ! j)) + 20}) ar ar'"
      by (cases rule: g_pop_cases [OF base.prems(1) j(2) assms(2)]) auto
    have "same_outside ?F ar ar'" using 1(4) by (rule same_outside_mono) (use meta_mono [OF j(2)] in auto)
    then show ?case using 1(1-3) len(1) cap by (simp add: map_drop_step [OF j(2)])
  next
    case (step i)
    have i: "i < length gs" using step.hyps(2) j(2) by simp
    have fs: "first_serves gs Fs n (Suc i) j" using step.prems(2) step.hyps(2) by (simp add: first_serves_def)
    note cap = g_cap_read [OF step.prems(1) i, of cnt]
    show ?case
    proof (cases "n \<le> g_cap (gs ! i)")
      case True
      have "length (Fs ! i) = 1" using step.prems(2) step.hyps(2) True by (simp add: first_serves_def)
      then obtain ar1 where 1: "list_pop (g_hdl cnt (gs ! i)) ar = Some (ar1, Inl NoMoreBuffer)" "pool_at gs ar1 Fs"
        "same_outside {g_off (gs ! i)..<g_off (gs ! i) + 36} ar ar1"
        by (cases rule: g_pop_cases [OF step.prems(1) i assms(2)]) auto
      have so: "same_outside ?F ar ar1" using 1(3) by (rule same_outside_mono) (use meta_mono [OF i] in auto)
      show ?thesis using step.IH [OF 1(2) fs] True cap 1(1) same_outside_trans [OF so] by (auto simp: map_drop_step [OF i])
    next
      case False
      then show ?thesis using step.IH [OF step.prems(1) fs] cap by (simp add: map_drop_step [OF i])
    qed
  qed
qed

lemma push_matching_at:
  assumes "pool_at gs ar Fs" "distinct (map g_cap gs)" "i < length gs" "bs_cap s = g_cap (gs ! i)" "l \<le> i"
  shows "push_matching (map (g_hdl cnt) (drop l gs)) ar s = list_push (g_hdl cnt (gs ! i)) ar s"
  using assms(5)
proof (induction l rule: inc_induct)
  case base
  show ?case using g_cap_read [OF assms(1,3), of cnt] assms(4) by (simp add: map_drop_step [OF assms(3)])
next
  case (step l)
  have l: "l < length gs" using step.hyps(2) assms(3) by simp
  have "g_cap (gs ! l) \<noteq> g_cap (gs ! i)"
    using assms(2,3) l step.hyps(2) by (auto simp: distinct_conv_nth)
  then show ?case using step.IH g_cap_read [OF assms(1) l, of cnt] assms(4) by (simp add: map_drop_step [OF l])
qed

lemma recycle_ok:
  assumes "pool_at gs ar Fs" "distinct (map g_cap gs)" "i < length gs" "k < g_num (gs ! i)" "k \<notin> set (Fs ! i)"
    "bs_header s = Some (g_buf (gs ! i) k)" "bs_offset_in_shm s = g_buf (gs ! i) k" "bs_cap s = g_cap (gs ! i)" "bs_is_from_shm s"
    "bm_lists m = map (g_hdl cnt) gs" "side_counter cnt"
  shows "\<exists>ar'. recycle_buffer m ar s = Some ar' \<and> pool_at gs ar' (Fs [i := Fs ! i @ [k]]) \<and>
    same_outside ({g_off (gs ! i)..<g_off (gs ! i) + 36} \<union> {g_buf (gs ! i) k..<g_buf (gs ! i) k + 20} \<union>
      {g_buf (gs ! i) (last (Fs ! i))..<g_buf (gs ! i) (last (Fs ! i)) + 20}) ar ar'"
proof -
  let ?g = "gs ! i"
  have at: "g_at ?g ar (Fs ! i)" using assms(1,3) by (simp add: pool_at_def)
  obtain ar' where 1: "list_push (g_hdl cnt ?g) ar s = Some ar'" "g_at ?g ar' (Fs ! i @ [k])"
    "same_outside ({g_off ?g..<g_off ?g + 36} \<union> {g_buf ?g k..<g_buf ?g k + 20} \<union> {g_buf ?g (last (Fs ! i))..<g_buf ?g (last (Fs ! i)) + 20}) ar ar'"
    using list_push_ok [of "g_off ?g" "g_num ?g" "g_cap ?g" ar "Fs ! i" k s cnt] at assms(4-7) side_counterD [OF assms(11)]
    by (auto simp: g_at_def g_hdl_def g_buf_def)
  have "last (Fs ! i) < g_num ?g" using bl_atD(6,8) [OF at [unfolded g_at_def]] by simp
  then have "pool_at gs ar' (Fs [i := Fs ! i @ [k]])"
    using pool_at_update [OF assms(1,3) 1(3) _ 1(2)] g_hdr_ext(1) [of _ ?g] g_hdr_ext(2) [of ?g] assms(4) by blast
  moreover have "recycle_buffer m ar s = Some ar'"
    using push_matching_at [OF assms(1-3,8), of 0 cnt] 1(1) assms(6,9,10) by (simp add: recycle_buffer_def)
  ultimately show ?thesis using 1(3) by blast
qed

section \<open>Live buffers\<close>

text \<open>\<open>L\<close> maps the offset of every buffer in use to its capacity: the buffers that are in no free list.\<close>

definition in_use :: "geometry \<Rightarrow> nat list list \<Rightarrow> nat \<Rightarrow> nat \<Rightarrow> bool" where
  "in_use gs Fs i k \<longleftrightarrow> i < length gs \<and> k < g_num (gs ! i) \<and> k \<notin> set (Fs ! i)"

definition pool_live :: "geometry \<Rightarrow> nat list list \<Rightarrow> (nat \<Rightarrow> nat option) \<Rightarrow> bool" where
  "pool_live gs Fs L \<longleftrightarrow> (\<forall>off c. L off = Some c \<longleftrightarrow>
     (\<exists>i k. in_use gs Fs i k \<and> c = g_cap (gs ! i) \<and> off = g_buf (gs ! i) k))"

lemma pool_liveE:
  assumes "pool_live gs Fs L" "L p = Some c"
  obtains i k where "i < length gs" "k < g_num (gs ! i)" "k \<notin> set (Fs ! i)" "c = g_cap (gs ! i)" "p = g_buf (gs ! i) k"
  using assms unfolding pool_live_def in_use_def by blast

lemma g_buf_range: "k < g_num g \<Longrightarrow> {g_buf g k..<g_buf g k + 20 + g_cap g} \<subseteq> g_ext g"
  using lbuf_end [of k "g_num g" "g_off g" "g_cap g"] by (auto simp: g_ext_def bl_need_def lbuf_def g_buf_def)

lemma g_buf_disjoint:
  assumes "k \<noteq> j"
  shows "{g_buf g k..<g_buf g k + 20 + g_cap g} \<inter> {g_buf g j..<g_buf g j + 20 + g_cap g} = {}"
proof -
  have "g_buf g k + 20 + g_cap g \<le> g_buf g j" if "k < j" for k j
    using mult_le_mono1 [of "k + 1" j "g_cap g + 20"] that by (simp add: g_buf_def lbuf_def)
  from this [of k j] this [of j k] show ?thesis using assms by (cases k j rule: linorder_cases) auto
qed

lemma g_buf_inj:
  assumes "pool_at gs ar Fs" "i < length gs" "j < length gs" "k < g_num (gs ! i)" "l < g_num (gs ! j)" "g_buf (gs ! i) k = g_buf (gs ! j) l"
  shows "i = j \<and> k = l"
proof -
  have "g_buf (gs ! i) k \<in> g_ext (gs ! i)" "g_buf (gs ! j) l \<in> g_ext (gs ! j)"
    using g_buf_range [OF assms(4)] g_buf_range [OF assms(5)] by auto
  then have "i = j" using assms(1-3,6) unfolding pool_at_def by (metis IntI empty_iff)
  then show ?thesis using assms(6) by (simp add: g_buf_def)
qed

lemma pool_live_disjoint:
  assumes "pool_at gs ar Fs" "pool_live gs Fs L" "L p = Some c" "L q = Some d" "p \<noteq> q"
  shows "{p..<p + 20 + c} \<inter> {q..<q + 20 + d} = {}"
proof -
  obtain i k where i: "i < length gs" "c = g_cap (gs ! i)" "k < g_num (gs ! i)" "p = g_buf (gs ! i) k"
    using pool_liveE [OF assms(2,3)] by blast
  obtain j l where j: "j < length gs" "d = g_cap (gs ! j)" "l < g_num (gs ! j)" "q = g_buf (gs ! j) l"
    using pool_liveE [OF assms(2,4)] by blast
  show ?thesis
  proof (cases "i = j")
    case True
    then show ?thesis using g_buf_disjoint [of k l "gs ! i"] i j assms(5) by auto
  next
    case False
    then have "g_ext (gs ! i) \<inter> g_ext (gs ! j) = {}" using assms(1) i(1) j(1) unfolding pool_at_def by blast
    then show ?thesis using g_buf_range [OF i(3)] g_buf_range [OF j(3)] i(2,4) j(2,4) by blast
  qed
qed

lemma pool_live_bounds:
  assumes "pool_at gs ar Fs" "pool_live gs Fs L" "L p = Some c"
  shows "p + 20 + c \<le> alen ar" "bh_cap ar p = Some c"
proof -
  obtain i k where i: "i < length gs" "c = g_cap (gs ! i)" "k < g_num (gs ! i)" "p = g_buf (gs ! i) k"
    using pool_liveE [OF assms(2,3)] by blast
  have at: "bl_at (g_off (gs ! i)) (g_num (gs ! i)) (g_cap (gs ! i)) ar (Fs ! i)" using assms(1) i(1) by (simp add: pool_at_def g_at_def)
  show "bh_cap ar p = Some c" using bl_atD(14) [OF at] i by (simp add: g_buf_def)
  show "p + 20 + c \<le> alen ar"
    using bl_atD(4) [OF at] lbuf_end [OF i(3), of "g_off (gs ! i)" "g_cap (gs ! i)"] i by (simp add: g_buf_def)
qed

text \<open>The owner of a buffer may write its payload and the header fields behind the capacity.\<close>

lemma pool_at_write:
  assumes "pool_at gs ar Fs" "pool_live gs Fs L" "L p = Some c" "same_outside {p + 4..<p + 20 + c} ar ar'"
  shows "pool_at gs ar' Fs"
proof -
  obtain i k where i: "i < length gs" "c = g_cap (gs ! i)" "k < g_num (gs ! i)" "k \<notin> set (Fs ! i)" "p = g_buf (gs ! i) k"
    using pool_liveE [OF assms(2,3)] by blast
  let ?g = "gs ! i" and ?S = "{p + 4..<p + 20 + c}"
  have sub: "?S \<subseteq> {p..<p + 20 + c}" "?S \<subseteq> g_ext ?g" using g_buf_range [OF i(3)] i(2,5) by auto
  have at: "bl_at (g_off ?g) (g_num ?g) (g_cap ?g) ar (Fs ! i)" using assms(1) i(1) by (simp add: pool_at_def g_at_def)
  have dis: "{g_buf ?g l..<g_buf ?g l + 20 + g_cap ?g} \<inter> ?S = {}" if "l \<noteq> k" for l
    using g_buf_disjoint [OF that, of ?g] sub(1) i(2,5) by blast
  have "{lbuf (g_off ?g) (g_cap ?g) l..<lbuf (g_off ?g) (g_cap ?g) l + 4} \<inter> ?S = {}" for l
    using dis [of l] i(5) by (cases "l = k") (auto simp: g_buf_def disjoint_iff)
  moreover have "{lbuf (g_off ?g) (g_cap ?g) l..<lbuf (g_off ?g) (g_cap ?g) l + 20} \<inter> ?S = {}" if "l \<in> set (Fs ! i)" for l
    using dis [of l] i(4) that by (cases "l = k") (auto simp: g_buf_def disjoint_iff)
  moreover have "{g_off ?g..<g_off ?g + 20} \<inter> ?S = {}" using i(5) by (auto simp: g_buf_def lbuf_def)
  ultimately have "bl_key (g_off ?g) (g_num ?g) (g_cap ?g) (set (Fs ! i)) \<inter> ?S = {}" unfolding bl_key_def by blast
  then have "g_at ?g ar' (Fs ! i)" using bl_at_frame [OF at assms(4)] by (simp add: g_at_def)
  then have "pool_at gs ar' (Fs [i := Fs ! i])" using pool_at_update [OF assms(1) i(1) assms(4) sub(2)] by blast
  then show ?thesis by simp
qed

lemma pool_live_take:
  assumes "pool_at gs ar Fs" "pool_live gs Fs L" "i < length gs" "Fs ! i = k # fs"
  shows "pool_live gs (Fs [i := fs]) (L(g_buf (gs ! i) k \<mapsto> g_cap (gs ! i)))" "L (g_buf (gs ! i) k) = None"
proof -
  have at: "bl_at (g_off (gs ! i)) (g_num (gs ! i)) (g_cap (gs ! i)) ar (Fs ! i)" using assms(1,3) by (simp add: pool_at_def g_at_def)
  have k: "k < g_num (gs ! i)" "k \<notin> set fs" using bl_atD(7,8) [OF at] assms(4) by auto
  have len: "length Fs = length gs" using assms(1) by (simp add: pool_at_def)
  have uniq: "j = i \<and> l = k" if "j < length gs" "l < g_num (gs ! j)" "g_buf (gs ! j) l = g_buf (gs ! i) k" for j l
    using g_buf_inj [OF assms(1) that(1) assms(3) that(2) k(1) that(3)] .
  have "\<not> in_use gs Fs i k" using assms(4) by (simp add: in_use_def)
  then show "L (g_buf (gs ! i) k) = None"
    using pool_liveE [OF assms(2)] uniq assms(4) by (metis list.set_intros(1) not_Some_eq)
  have iu: "in_use gs (Fs [i := fs]) j l \<longleftrightarrow> in_use gs Fs j l \<or> j = i \<and> l = k" for j l
    using assms(3,4) k len by (cases "j = i") (auto simp: in_use_def)
  show "pool_live gs (Fs [i := fs]) (L(g_buf (gs ! i) k \<mapsto> g_cap (gs ! i)))"
    unfolding pool_live_def
  proof (intro allI)
    fix p c
    show "(L(g_buf (gs ! i) k \<mapsto> g_cap (gs ! i))) p = Some c \<longleftrightarrow>
      (\<exists>j l. in_use gs (Fs [i := fs]) j l \<and> c = g_cap (gs ! j) \<and> p = g_buf (gs ! j) l)"
    proof (cases "p = g_buf (gs ! i) k")
      case True
      have "c = g_cap (gs ! i)" if q: "in_use gs (Fs [i := fs]) j l" "c = g_cap (gs ! j)" "p = g_buf (gs ! j) l" for j l
      proof -
        have "j < length gs" "l < g_num (gs ! j)" using q(1) unfolding in_use_def by blast+
        then have "j = i" using uniq [of j l] q(3) True by simp
        then show ?thesis using q(2) by simp
      qed
      moreover have "in_use gs (Fs [i := fs]) i k" using iu by blast
      moreover have "(L(g_buf (gs ! i) k \<mapsto> g_cap (gs ! i))) p = Some c \<longleftrightarrow> c = g_cap (gs ! i)" using True by auto
      ultimately show ?thesis using True by blast
    next
      case False
      then show ?thesis using assms(2) unfolding pool_live_def iu by auto
    qed
  qed
qed

lemma pool_live_return:
  assumes "pool_at gs ar Fs" "pool_live gs Fs L" "i < length gs" "k < g_num (gs ! i)"
  shows "pool_live gs (Fs [i := Fs ! i @ [k]]) (L(g_buf (gs ! i) k := None))"
proof -
  have len: "length Fs = length gs" using assms(1) by (simp add: pool_at_def)
  have uniq: "j = i \<and> l = k" if "j < length gs" "l < g_num (gs ! j)" "g_buf (gs ! j) l = g_buf (gs ! i) k" for j l
    using g_buf_inj [OF assms(1) that(1) assms(3) that(2) assms(4) that(3)] .
  have iu: "in_use gs (Fs [i := Fs ! i @ [k]]) j l \<longleftrightarrow> in_use gs Fs j l \<and> \<not> (j = i \<and> l = k)" for j l
    using assms(3) len by (cases "j = i") (auto simp: in_use_def)
  show ?thesis
    unfolding pool_live_def iu
  proof (intro allI)
    fix p c
    show "(L(g_buf (gs ! i) k := None)) p = Some c \<longleftrightarrow>
      (\<exists>j l. (in_use gs Fs j l \<and> \<not> (j = i \<and> l = k)) \<and> c = g_cap (gs ! j) \<and> p = g_buf (gs ! j) l)"
    proof (cases "p = g_buf (gs ! i) k")
      case True
      then show ?thesis using uniq by (auto simp: in_use_def)
    next
      case False
      then show ?thesis using assms(2) unfolding pool_live_def by auto
    qed
  qed
qed

section \<open>The layout of a new pool\<close>

text \<open>The lists lie one behind the other from \<open>u\<close> to \<open>v\<close>.\<close>

fun chained :: "nat \<Rightarrow> geometry \<Rightarrow> nat \<Rightarrow> bool" where
  "chained u [] v \<longleftrightarrow> u = v"
| "chained u (g # gs) v \<longleftrightarrow> g_off g = u \<and> chained (u + bl_need (g_num g) (g_cap g)) gs v"

lemma chained_le: "chained u gs v \<Longrightarrow> u \<le> v"
  by (induction gs arbitrary: u) fastforce+

lemma chained_ext: "chained u gs v \<Longrightarrow> g \<in> set gs \<Longrightarrow> g_ext g \<subseteq> {u..<v}"
proof (induction gs arbitrary: u)
  case (Cons h gs)
  let ?u = "u + bl_need (g_num h) (g_cap h)"
  have c: "chained ?u gs v" "g_off h = u" using Cons.prems(1) by auto
  show ?case
  proof (cases "g = h")
    case True
    then show ?thesis using chained_le [OF c(1)] c(2) by (auto simp: g_ext_def)
  next
    case False
    then have "g_ext g \<subseteq> {?u..<v}" using Cons.IH [OF c(1)] Cons.prems(2) by simp
    then show ?thesis by (auto simp: subset_iff)
  qed
qed simp

lemma chained_disjoint: "chained u gs v \<Longrightarrow> i < j \<Longrightarrow> j < length gs \<Longrightarrow> g_ext (gs ! i) \<inter> g_ext (gs ! j) = {}"
proof (induction gs arbitrary: u i j)
  case (Cons h gs)
  let ?u = "u + bl_need (g_num h) (g_cap h)"
  have c: "chained ?u gs v" "g_off h = u" using Cons.prems(1) by auto
  obtain j' where j: "j = Suc j'" "j' < length gs" using Cons.prems(2,3) by (cases j) auto
  show ?case
  proof (cases i)
    case 0
    have "g_ext (gs ! j') \<subseteq> {?u..<v}" using chained_ext [OF c(1)] j(2) by simp
    then show ?thesis using 0 j(1) c(2) by (auto simp: g_ext_def)
  next
    case (Suc i')
    then show ?thesis using Cons.IH [OF c(1), of i' j'] Cons.prems(2) j by simp
  qed
qed simp

lemma list_create_Inr:
  assumes "list_create n c ar off = Some (Inr (b, ar'))" "alen ar < 2 ^ 32"
  shows "0 < n" "0 < c" "off + 36 + n * (c + 20) \<le> alen ar" "count_buffer_list_mem_size n c = Some (bl_need n c)"
    "u32_add off (bl_need n c) = Some (off + bl_need n c)"
proof -
  show pos: "0 < n" "0 < c" using assms(1) by (auto simp: list_create_def split: if_splits)
  obtain need where need: "count_buffer_list_mem_size n c = Some need" "u32_add off need \<noteq> None"
    "\<not> alen ar mod 2 ^ 32 < off + need"
    using assms(1) pos by (auto simp: list_create_def u32_add_def bind_eq_Some_conv Let_def split: if_splits)
  have n: "need = bl_need n c"
    using need(1) by (auto simp: count_buffer_list_mem_size_def u32_add_def u32_mul_def bl_need_def BUFFER_LIST_HEADER_SIZE_def
        BUFFER_HEADER_SIZE_def bind_eq_Some_conv split: if_splits)
  show "count_buffer_list_mem_size n c = Some (bl_need n c)" using need(1) n by simp
  show "u32_add off (bl_need n c) = Some (off + bl_need n c)" using need(2) n by (auto simp: u32_add_def split: if_splits)
  show "off + 36 + n * (c + 20) \<le> alen ar" using need(3) n assms(2) by (simp add: bl_need_def)
qed

text \<open>Every list is as \<open>list_create\<close> leaves it: all buffers free, nothing counted.\<close>

definition g_fresh :: "nat \<times> nat \<times> nat \<Rightarrow> arena \<Rightarrow> bool" where
  "g_fresh g ar \<longleftrightarrow> g_at g ar [0..<g_num g] \<and> load_u32 ar (g_off g + 20) = Some 0"

lemma g_fresh_frame:
  assumes "g_fresh g ar" "same_outside S ar ar'" "g_ext g \<inter> S = {}"
  shows "g_fresh g ar'"
proof -
  have "{g_off g + 20..<g_off g + 20 + 4} \<subseteq> g_ext g" by (auto simp: g_ext_def bl_need_def)
  then have "load_u32 ar' (g_off g + 20) = load_u32 ar (g_off g + 20)"
    using load_u32_frame [OF assms(2), of "g_off g + 20"] assms(3) by blast
  then show ?thesis using g_at_frame [OF _ assms(2,3)] assms(1) by (simp add: g_fresh_def)
qed

lemma create_lists_ConsE:
  assumes "create_lists rc (p # ps) sp u ar = Some (Inr (bs, v, ar'))"
  obtains sp' n need b ar1 used bs' where "list_create n (sp_size p) ar u = Some (Inr (b, ar1))"
    "count_buffer_list_mem_size n (sp_size p) = Some need" "u32_add u need = Some used"
    "create_lists rc ps sp' used ar1 = Some (Inr (bs', v, ar'))" "bs = b # bs'"
  using assms by (auto simp: bind_eq_Some_conv Let_def case_sum_Inr split: if_split_asm)

lemma create_lists_ok:
  assumes "create_lists rc ps sp u ar = Some (Inr (bs, v, ar'))" "u mod 4 = 0" "alen ar < 2 ^ 32" "\<forall>p \<in> set ps. sp_size p mod 4 = 0"
    "u \<le> alen ar"
  shows "\<exists>gs. bs = map (g_hdl 20) gs \<and> map g_cap gs = map sp_size ps \<and> chained u gs v \<and> v \<le> alen ar \<and> v mod 4 = 0 \<and>
    same_outside {u..<v} ar ar' \<and> (\<forall>g \<in> set gs. g_fresh g ar')"
  using assms
proof (induction ps arbitrary: sp u ar bs)
  case Nil
  then show ?case by (intro exI [of _ "[]"]) auto
next
  case (Cons p ps)
  let ?c = "sp_size p"
  obtain sp' n need b ar1 used bs' where 1: "list_create n ?c ar u = Some (Inr (b, ar1))"
    and r: "count_buffer_list_mem_size n ?c = Some need" "u32_add u need = Some used"
    "create_lists rc ps sp' used ar1 = Some (Inr (bs', v, ar'))" and bs: "bs = b # bs'"
    using Cons.prems(1) by (rule create_lists_ConsE)
  note q = list_create_Inr [OF 1 Cons.prems(3)]
  let ?u = "u + bl_need n ?c" and ?g = "(u, n, ?c)"
  have b: "b = g_hdl 20 ?g" "g_fresh ?g ar1" "same_outside {u..<?u} ar ar1"
    using list_create_ok [OF Cons.prems(2) _ q(2,1,3) Cons.prems(3)] 1 Cons.prems(4) by (auto simp: g_hdl_def g_fresh_def g_at_def)
  have al: "alen ar1 = alen ar" using b(3) by (rule same_outside_alen)
  have u: "?u mod 4 = 0"
  proof -
    have "n * (?c + 20) mod 4 = 0" using Cons.prems(4) by (simp add: mod_mult_right_eq [of n "?c + 20" 4, symmetric] mod_add_left_eq [of ?c 4, symmetric])
    then show ?thesis using Cons.prems(2) by (auto simp: bl_need_def)
  qed
  have rec: "create_lists rc ps sp' ?u ar1 = Some (Inr (bs', v, ar'))" using r q(4,5) by simp
  have "?u \<le> alen ar1" using q(3) al by (simp add: bl_need_def)
  then obtain gs where gs: "bs' = map (g_hdl 20) gs" "map g_cap gs = map sp_size ps" "chained ?u gs v" "v \<le> alen ar1" "v mod 4 = 0"
    "same_outside {?u..<v} ar1 ar'" "\<forall>g \<in> set gs. g_fresh g ar'"
    using Cons.IH [OF rec u] Cons.prems(3,4) al by auto
  have le: "?u \<le> v" using gs(3) by (rule chained_le)
  have "g_fresh ?g ar'" using b(2) gs(6) by (rule g_fresh_frame) (auto simp: g_ext_def)
  moreover have "same_outside {u..<v} ar ar1" using b(3) by (rule same_outside_mono) (use le in auto)
  moreover have "same_outside {u..<v} ar1 ar'" using gs(6) by (rule same_outside_mono) auto
  ultimately show ?case
    using gs b(1) bs al by (intro exI [of _ "?g # gs"]) (auto intro: same_outside_trans)
qed

lemma map_lists_ok:
  assumes "chained u gs v" "\<forall>g \<in> set gs. \<exists>ks. g_at g ar ks" "alen ar < 2 ^ 32"
  shows "map_lists ar 0 (length gs) u = Some (Inr (map (g_hdl 24) gs))"
  using assms(1,2)
proof (induction gs arbitrary: u)
  case (Cons g gs)
  obtain ks where at: "bl_at (g_off g) (g_num g) (g_cap g) ar ks" using Cons.prems(2) by (auto simp: g_at_def)
  note q = bl_atD [OF at]
  have pos: "0 < g_num g" using q(6,8) by (cases ks) auto
  have c: "count_buffer_list_mem_size (g_num g) (g_cap g) = Some (bl_need (g_num g) (g_cap g))"
    using count_mem_size [of "g_num g" "g_cap g"] q(5) pos by simp
  have u: "u = g_off g" using Cons.prems(1) by simp
  have a: "u32_add 0 u = Some u" "u32_add u (bl_need (g_num g) (g_cap g)) = Some (u + bl_need (g_num g) (g_cap g))"
    using q(5) u by (simp_all add: u32_add_def bl_need_def)
  have "list_mapping ar u = Some (Inr (g_hdl 24 g))" using list_mapping_ok [OF at assms(3)] u by (simp add: g_hdl_def)
  moreover have "map_lists ar 0 (length gs) (u + bl_need (g_num g) (g_cap g)) = Some (Inr (map (g_hdl 24) gs))"
    using Cons.IH Cons.prems by auto
  ultimately show ?case using a c q(10,13) u by (simp add: g_hdl_def)
qed simp

section \<open>The whole pool\<close>

lemma set_u16_ok:
  assumes "p mod 2 = 0" "p + 2 \<le> alen ar"
  shows "\<exists>ar'. set_u16 ar p n = Some ar' \<and> get_u16 ar' p = Some (n mod 2 ^ 16) \<and> same_outside {p..<p + 2} ar ar'"
proof -
  let ?b = "le_bytes 2 (n mod 2 ^ 16)"
  obtain ar' where ar': "arena_put ar p ?b = Some ar'" using arena_put_ok [of p ?b ar] assms(2) by auto
  have "arena_get ar' p (p + 2) = Some ?b" using arena_get_put [OF ar', of "p + 2"] by simp
  then show ?thesis using ar' arena_put_frame [OF ar'] assms(1) le_nat_le_bytes [of "n mod 2 ^ 16" 2] by (simp add: set_u16_def get_u16_def)
qed

lemma get_u16_frame [arena_simps]: "same_outside S ar ar' \<Longrightarrow> {p..<p + 2} \<inter> S = {} \<Longrightarrow> get_u16 ar' p = get_u16 ar p"
  by (simp add: get_u16_def arena_get_frame)

text \<open>The eight bytes in front of the lists describe them; the capacities ascend.\<close>

definition pool_hdr :: "geometry \<Rightarrow> nat \<Rightarrow> arena \<Rightarrow> bool" where
  "pool_hdr gs v ar \<longleftrightarrow> get_u16 ar 0 = Some (length gs) \<and> get_u32 ar 4 = Some (v - 8) \<and> chained 8 gs v \<and> v \<le> alen ar \<and>
     alen ar < 2 ^ 32 \<and> gs \<noteq> [] \<and> sorted_wrt (<) (map g_cap gs)"

definition pool_inv :: "geometry \<Rightarrow> nat \<Rightarrow> arena \<Rightarrow> nat list list \<Rightarrow> (nat \<Rightarrow> nat option) \<Rightarrow> bool" where
  "pool_inv gs v ar Fs L \<longleftrightarrow> pool_hdr gs v ar \<and> pool_at gs ar Fs \<and> pool_live gs Fs L"

text \<open>A manager of either process for this pool.\<close>

definition pool_side :: "geometry \<Rightarrow> buffer_manager \<Rightarrow> bool" where
  "pool_side gs m \<longleftrightarrow> bm_max_slice_size m = g_cap (last gs) \<and> (\<exists>cnt. side_counter cnt \<and> bm_lists m = map (g_hdl cnt) gs)"

text \<open>The bytes of the buffers in use, with their headers.\<close>

definition live_bytes :: "(nat \<Rightarrow> nat option) \<Rightarrow> nat set" where
  "live_bytes L = {x. \<exists>p c. L p = Some c \<and> p \<le> x \<and> x < p + 20 + c}"

lemma pool_hdr_frame:
  assumes "pool_hdr gs v ar" "same_outside S ar ar'" "S \<subseteq> {8..}"
  shows "pool_hdr gs v ar'"
proof -
  have "{0..<0 + 2} \<inter> S = {}" "{4..<4 + 4} \<inter> S = {}" using assms(3) by auto
  then show ?thesis using assms(1) get_u16_frame [OF assms(2), of 0] get_u32_frame [OF assms(2), of 4] same_outside_alen [OF assms(2)]
    by (simp add: pool_hdr_def)
qed

lemma pool_ext: "pool_hdr gs v ar \<Longrightarrow> i < length gs \<Longrightarrow> g_ext (gs ! i) \<subseteq> {8..}"
  using chained_ext [of 8 gs v "gs ! i"] by (fastforce simp: pool_hdr_def)

lemma pool_meta_ext: "pool_hdr gs v ar \<Longrightarrow> pool_meta gs \<subseteq> {8..}"
  using chained_ext [of 8 gs v] g_hdr_ext(2) unfolding pool_meta_def pool_hdr_def by fastforce

lemma pool_hdr_distinct: "pool_hdr gs v ar \<Longrightarrow> distinct (map g_cap gs)"
  using strict_sorted_iff [of "map g_cap gs"] by (simp add: pool_hdr_def)

lemma pool_hdr_last:
  assumes "pool_hdr gs v ar" "i < length gs"
  shows "g_cap (gs ! i) \<le> g_cap (last gs)"
proof (cases "i = length gs - 1")
  case False
  then have "map g_cap gs ! i < map g_cap gs ! (length gs - 1)"
    using assms sorted_wrt_nth_less [of "(<)" "map g_cap gs" i "length gs - 1"] by (simp add: pool_hdr_def)
  then have "g_cap (gs ! i) < g_cap (gs ! (length gs - 1))" using assms(2) by simp
  moreover have "gs \<noteq> []" using assms(2) by auto
  ultimately show ?thesis by (simp add: last_conv_nth)
qed (use assms in \<open>auto simp: last_conv_nth pool_hdr_def\<close>)

lemma meta_buf:
  assumes "pool_at gs ar Fs" "i < length gs" "k < g_num (gs ! i)"
  shows "pool_meta gs \<inter> {g_buf (gs ! i) k..<g_buf (gs ! i) k + 20 + g_cap (gs ! i)} = {}"
proof -
  have "{g_off (gs ! j)..<g_off (gs ! j) + 36} \<inter> {g_buf (gs ! i) k..<g_buf (gs ! i) k + 20 + g_cap (gs ! i)} = {}" if "j < length gs" for j
  proof (cases "j = i")
    case True
    then show ?thesis by (auto simp: g_buf_def lbuf_def)
  next
    case False
    then have "g_ext (gs ! j) \<inter> g_ext (gs ! i) = {}" using assms(1,2) that unfolding pool_at_def by blast
    then show ?thesis using g_buf_range [OF assms(3)] g_hdr_ext(2) [of "gs ! j"] by blast
  qed
  then have "{g_off g..<g_off g + 36} \<inter> {g_buf (gs ! i) k..<g_buf (gs ! i) k + 20 + g_cap (gs ! i)} = {}" if "g \<in> set gs" for g
    using that by (metis in_set_conv_nth)
  then show ?thesis unfolding pool_meta_def by blast
qed

lemma live_bytes_disjointI:
  assumes "\<And>p c. L p = Some c \<Longrightarrow> S \<inter> {p..<p + 20 + c} = {}"
  shows "S \<inter> live_bytes L = {}"
  unfolding live_bytes_def using assms by fastforce

lemma meta_live:
  assumes "pool_at gs ar Fs" "pool_live gs Fs L"
  shows "pool_meta gs \<inter> live_bytes L = {}"
proof (rule live_bytes_disjointI)
  fix p c assume "L p = Some c"
  with assms(2) show "pool_meta gs \<inter> {p..<p + 20 + c} = {}" by (rule pool_liveE) (use meta_buf [OF assms(1)] in simp)
qed

lemma buf_live:
  assumes "pool_at gs ar Fs" "pool_live gs Fs L" "i < length gs" "k < g_num (gs ! i)" "L (g_buf (gs ! i) k) = None"
  shows "{g_buf (gs ! i) k..<g_buf (gs ! i) k + 20 + g_cap (gs ! i)} \<inter> live_bytes L = {}"
proof (rule live_bytes_disjointI)
  fix p c assume p: "L p = Some c"
  obtain j l where j: "j < length gs" "l < g_num (gs ! j)" "c = g_cap (gs ! j)" "p = g_buf (gs ! j) l"
    using pool_liveE [OF assms(2) p] by blast
  show "{g_buf (gs ! i) k..<g_buf (gs ! i) k + 20 + g_cap (gs ! i)} \<inter> {p..<p + 20 + c} = {}"
  proof (cases "j = i")
    case True
    then have "l \<noteq> k" using p assms(5) j(4) by auto
    then show ?thesis using g_buf_disjoint [of k l "gs ! i"] True j(3,4) by auto
  next
    case False
    then have "g_ext (gs ! j) \<inter> g_ext (gs ! i) = {}" using assms(1,3) j(1) unfolding pool_at_def by blast
    then show ?thesis using g_buf_range [OF assms(4)] g_buf_range [OF j(2)] j(3,4) by blast
  qed
qed

lemma free_not_live:
  assumes "pool_at gs ar Fs" "pool_live gs Fs L" "i < length gs" "k \<in> set (Fs ! i)"
  shows "k < g_num (gs ! i)" "L (g_buf (gs ! i) k) = None"
proof -
  show k: "k < g_num (gs ! i)" using assms(1,3,4) bl_atD(8) [of "g_off (gs ! i)" "g_num (gs ! i)" "g_cap (gs ! i)" ar "Fs ! i"]
    by (simp add: pool_at_def g_at_def)
  show "L (g_buf (gs ! i) k) = None"
  proof (rule ccontr)
    assume "L (g_buf (gs ! i) k) \<noteq> None"
    then obtain c j l where j: "j < length gs" "l < g_num (gs ! j)" "l \<notin> set (Fs ! j)" "g_buf (gs ! i) k = g_buf (gs ! j) l"
      using pool_liveE [OF assms(2)] by (metis not_None_eq)
    then show False using g_buf_inj [OF assms(1,3) j(1) k j(2,4)] assms(4) by simp
  qed
qed

end
