(* ===== verification/Spec2Isabelle.thy ===== *)
theory Spec2Isabelle
  imports Segment Config Wire Buffer_Pool
begin

text \<open>
  A verification development for shmipc-rs.
\<close>

text \<open>C7. What \<open>Config::verify\<close> accepts the queues can use: with the verified capacity the queue pair is created and
  mapped by the peer, in every protocol version and on every architecture, and no queue position is
  misaligned.\<close>

theorem verified_config_connects:
  assumes "verify linux arch c = Some (c', Inr ())" "cap = of_nat (cfg_queue_cap c')"
    "CHR 0x00 \<notin> set (queue_path c')" "alen blank = count_queue_mem_size cap * QUEUE_COUNT"
  shows "\<exists>cm pm ar0. create_with_memfd arm (queue_path c') cap version (Inr fd) (Inr ()) (\<lambda>_. Inr blank) = Some (Inr (cm, ar0)) \<and>
    mapping_with_memfd arm peer fd' version (Inr (int (alen ar0))) (\<lambda>_. Inr ar0) = Some (Inr (pm, ar0)) \<and>
    connected cap (for_protocol_version arm version) cm pm \<and> q_cap (qm_send_queue cm) = int (cfg_queue_cap c')"
proof -
  note q = verify_queue_cap [OF assms(1)]
  have u: "unat cap = cfg_queue_cap c'" using q(2) assms(2) by (simp add: unat_of_nat take_bit_nat_eq_self)
  have "even (cfg_queue_cap c')" using q(1) by presburger
  then obtain cm pm ar0 where r: "create_with_memfd arm (queue_path c') cap version (Inr fd) (Inr ()) (\<lambda>_. Inr blank) = Some (Inr (cm, ar0))"
    "mapping_with_memfd arm peer fd' version (Inr (int (alen ar0))) (\<lambda>_. Inr ar0) = Some (Inr (pm, ar0))"
    "connected cap (for_protocol_version arm version) cm pm"
    using legacy_pair_connects [OF assms(3,4) HOL.refl, of arm version fd peer fd'] u by auto
  moreover have "q_cap (qm_send_queue cm) = int (cfg_queue_cap c')"
    using r(3) u by (metis connected_def of_nat_unat queue_at_q_cap)
  ultimately show ?thesis by blast
qed

definition ex_blank_map :: arena where
  "ex_blank_map = \<lparr> alen = count_queue_mem_size 8192 * QUEUE_COUNT, abytes = (\<lambda>_. 0) \<rparr>"

theorem verified_config_connects_witness:
  "\<exists>cm pm ar0. create_with_memfd False DEFAULT_QUEUE_PATH 8192 3 (Inr 7) (Inr ()) (\<lambda>_. Inr ex_blank_map) = Some (Inr (cm, ar0)) \<and>
    mapping_with_memfd False ''peer'' 9 3 (Inr (int (alen ar0))) (\<lambda>_. Inr ar0) = Some (Inr (pm, ar0)) \<and>
    connected 8192 Legacy cm pm"
proof -
  have v: "verify True True config_default = Some (config_default, Inr ())"
    by (simp add: verify_simps config_defaults)
  have l: "for_protocol_version False 3 = Legacy" by (simp add: for_protocol_version_def)
  have d: "queue_path config_default = DEFAULT_QUEUE_PATH" "(8192 :: 32 word) = of_nat (cfg_queue_cap config_default)"
    "CHR 0x00 \<notin> set (queue_path config_default)"
    by (simp_all add: config_defaults)
  show ?thesis
    using verified_config_connects [OF v d(2,3), of ex_blank_map False 3 7 "''peer''" 9] l d(1) by (auto simp: ex_blank_map_def)
qed

end
